(* ===== verification/Base.thy ===== *)
theory Base
  imports Main "HOL-Library.Word"
begin

text \<open>
  The prelude of the development: how the C code's effects are written in HOL, and the facts
  every component shares.

  \<^item> \<open>outcome\<close>: a C function either returns (\<open>Inr\<close>) or stops the program (\<open>Inl\<close> of a
    \<open>halt\<close>): \<open>Exit n s\<close> for \<open>exit(n)\<close>, \<open>Abort s\<close> for \<open>abort()\<close>, where \<open>s\<close> is the text that
    the function that stops has printed to say why, \<open>Undef\<close> where the C code has undefined
    behaviour (a read or write outside an array, a read of memory that was never written, a
    null pointer), and \<open>Diverge\<close> where a loop never ends.
    \<open>andthen\<close> sequences two such computations.
  \<^item> \<open>arr_get\<close>, \<open>arr_set\<close>, \<open>arr_rep\<close>: an allocated array is a list of cells, \<open>None\<close> for a
    cell that \<open>malloc\<close> returned and nothing has written.
  \<^item> characters: a byte of a file is a \<open>char\<close>; \<open>fgetc\<close> delivers it as a non-negative
    \<open>int\<close>, and a \<open>char\<close> read from a string is signed, as on the x86 targets of the program.
  \<^item> \<open>strcmp\<close> and the character classes of the C locale (the program never calls
    \<open>setlocale\<close>).
\<close>

unbundle bit_operations_syntax

section \<open>Outcomes\<close>

datatype halt = Exit int string | Abort string | Undef | Diverge

type_synonym 'a outcome = "halt + 'a"

fun andthen :: "'a outcome \<Rightarrow> ('a \<Rightarrow> 'b outcome) \<Rightarrow> 'b outcome" where
  "andthen (Inl h) f = Inl h"
| "andthen (Inr x) f = f x"

lemma andthen_cong [fundef_cong]:
  "m = m' \<Longrightarrow> (\<And>x. m' = Inr x \<Longrightarrow> f x = f' x) \<Longrightarrow> andthen m f = andthen m' f'"
  by (cases m') auto

lemma andthen_Inr_iff: "andthen m f = Inr y \<longleftrightarrow> (\<exists>x. m = Inr x \<and> f x = Inr y)"
  by (cases m) auto

lemma andthen_InrE:
  assumes "andthen m f = Inr y" obtains x where "m = Inr x" and "f x = Inr y"
  using assms by (auto simp: andthen_Inr_iff)

lemma andthen_assoc: "andthen (andthen m f) g = andthen m (\<lambda>x. andthen (f x) g)"
  by (cases m) auto

text \<open>A walk that may not end has type \<open>'a outcome option\<close>; \<open>None\<close> is the endless loop.\<close>

definition ended :: "'a outcome option \<Rightarrow> 'a outcome" where
  "ended r = (case r of None \<Rightarrow> Inl Diverge | Some x \<Rightarrow> x)"

lemma ended_simps [simp]: "ended None = Inl Diverge" "ended (Some x) = x"
  by (simp_all add: ended_def)

section \<open>Arrays of cells\<close>

definition arr_get :: "'a option list \<Rightarrow> nat \<Rightarrow> 'a outcome" where
  "arr_get a i =
     (if i < length a then (case a ! i of None \<Rightarrow> Inl Undef | Some x \<Rightarrow> Inr x) else Inl Undef)"

definition arr_set :: "'a option list \<Rightarrow> nat \<Rightarrow> 'a \<Rightarrow> 'a option list outcome" where
  "arr_set a i x = (if i < length a then Inr (a[i := Some x]) else Inl Undef)"

text \<open>Fresh memory of \<open>n\<close> elements, as \<open>malloc\<close> returns it.\<close>

definition arr_new :: "nat \<Rightarrow> 'a option list" where
  "arr_new n = replicate n None"

text \<open>
  The use the program makes of its arrays: a capacity, and a prefix in use. \<open>arr_rep a xs n\<close>
  says that the array has capacity \<open>n\<close> and holds exactly \<open>xs\<close> in its first cells.
\<close>

definition arr_rep :: "'a option list \<Rightarrow> 'a list \<Rightarrow> nat \<Rightarrow> bool" where
  "arr_rep a xs n \<longleftrightarrow> length xs \<le> n \<and> a = map Some xs @ replicate (n - length xs) None"

lemma arr_rep_length: "arr_rep a xs n \<Longrightarrow> length a = n"
  by (simp add: arr_rep_def)

lemma arr_rep_new [simp]: "arr_rep (arr_new n) [] n"
  by (simp add: arr_rep_def arr_new_def)

lemma arr_rep_get: "arr_rep a xs n \<Longrightarrow> i < length xs \<Longrightarrow> arr_get a i = Inr (xs ! i)"
  by (auto simp: arr_rep_def arr_get_def nth_append)

lemma arr_rep_get_beyond: "arr_rep a xs n \<Longrightarrow> length xs \<le> i \<Longrightarrow> arr_get a i = Inl Undef"
  by (auto simp: arr_rep_def arr_get_def nth_append)

lemma replicate_None_update:
  "0 < k \<Longrightarrow> (replicate k None)[0 := Some x] = Some x # replicate (k - 1) None"
  by (cases k) auto

lemma arr_rep_push:
  assumes "arr_rep a xs n" and "length xs < n"
  shows "arr_set a (length xs) x = Inr (a[length xs := Some x])"
    and "arr_rep (a[length xs := Some x]) (xs @ [x]) n"
proof -
  from assms show "arr_set a (length xs) x = Inr (a[length xs := Some x])"
    by (simp add: arr_set_def arr_rep_length)
  from assms show "arr_rep (a[length xs := Some x]) (xs @ [x]) n"
    by (auto simp: arr_rep_def list_update_append replicate_None_update)
qed

lemma arr_rep_set:
  assumes "arr_rep a xs n" and "i < length xs"
  shows "arr_set a i x = Inr (a[i := Some x])" and "arr_rep (a[i := Some x]) (xs[i := x]) n"
  using assms by (auto simp: arr_rep_def arr_set_def list_update_append map_update)

lemma arr_rep_grow: "arr_rep a xs n \<Longrightarrow> arr_rep (a @ arr_new k) xs (n + k)"
  by (auto simp: arr_rep_def arr_new_def replicate_add [symmetric])

section \<open>Characters\<close>

text \<open>\<open>EOF\<close> and the characters the code names.\<close>

definition EOF :: int where "EOF = -1"

abbreviation (input) chNL :: int where "chNL \<equiv> 10"
abbreviation (input) chDQ :: int where "chDQ \<equiv> 34"
abbreviation (input) chHASH :: int where "chHASH \<equiv> 35"
abbreviation (input) chSQ :: int where "chSQ \<equiv> 39"
abbreviation (input) chLPAR :: int where "chLPAR \<equiv> 40"
abbreviation (input) chSTAR :: int where "chSTAR \<equiv> 42"
abbreviation (input) chSLASH :: int where "chSLASH \<equiv> 47"
abbreviation (input) chBSL :: int where "chBSL \<equiv> 92"
abbreviation (input) chUS :: int where "chUS \<equiv> 95"

text \<open>A byte as \<open>fgetc\<close> returns it, and as a (signed) \<open>char\<close> object holds it.\<close>

definition uc :: "char \<Rightarrow> int" where "uc c = of_char c"

definition sc :: "char \<Rightarrow> int" where
  "sc c = (if 128 \<le> uc c then uc c - 256 else uc c)"

text \<open>Storing an \<open>int\<close> in a \<open>char\<close>.\<close>

definition to_char :: "int \<Rightarrow> char" where "to_char i = char_of i"

lemma uc_range: "0 \<le> uc c" "uc c < 256"
proof -
  have "uc c mod 256 = uc c"
    by (simp add: uc_def)
  moreover have "0 \<le> uc c mod 256" "uc c mod 256 < 256"
    by simp_all
  ultimately show "0 \<le> uc c" "uc c < 256"
    by simp_all
qed

lemma uc_neq_EOF [simp]: "uc c \<noteq> EOF" "EOF \<noteq> uc c"
  using uc_range [of c] by (simp_all add: EOF_def)

lemma to_char_uc [simp]: "to_char (uc c) = c"
  by (simp add: to_char_def uc_def)

lemma uc_inject [simp]: "uc c = uc d \<longleftrightarrow> c = d"
  by (metis to_char_uc)

text \<open>Character classes of the C locale.\<close>

definition c_isalpha :: "int \<Rightarrow> bool" where
  "c_isalpha c \<longleftrightarrow> (65 \<le> c \<and> c \<le> 90) \<or> (97 \<le> c \<and> c \<le> 122)"

definition c_isdigit :: "int \<Rightarrow> bool" where
  "c_isdigit c \<longleftrightarrow> 48 \<le> c \<and> c \<le> 57"

definition c_isspace :: "int \<Rightarrow> bool" where
  "c_isspace c \<longleftrightarrow> c = 32 \<or> (9 \<le> c \<and> c \<le> 13)"

definition c_isprint :: "int \<Rightarrow> bool" where
  "c_isprint c \<longleftrightarrow> 32 \<le> c \<and> c \<le> 126"

lemmas ctype_defs = c_isalpha_def c_isdigit_def c_isspace_def c_isprint_def

lemma ctype_EOF [simp]:
  "\<not> c_isalpha EOF" "\<not> c_isdigit EOF" "\<not> c_isspace EOF" "\<not> c_isprint EOF"
  by (simp_all add: ctype_defs EOF_def)

section \<open>Strings\<close>

text \<open>
  A C string is the list of its characters before the terminating zero. \<open>strcmp\<close> compares
  unsigned bytes; only the sign of its result is specified, and the model returns the
  difference of the first two bytes that differ.
\<close>

fun strcmp :: "string \<Rightarrow> string \<Rightarrow> int" where
  "strcmp [] [] = 0"
| "strcmp [] (d # ds) = - uc d"
| "strcmp (c # cs) [] = uc c"
| "strcmp (c # cs) (d # ds) = (if c = d then strcmp cs ds else uc c - uc d)"

definition cstring :: "string \<Rightarrow> bool" where
  "cstring s \<longleftrightarrow> (\<forall>c \<in> set s. uc c \<noteq> 0)"

lemma cstring_simps [simp]:
  "cstring []" "cstring (c # s) \<longleftrightarrow> uc c \<noteq> 0 \<and> cstring s"
  "cstring (s @ t) \<longleftrightarrow> cstring s \<and> cstring t"
  by (auto simp: cstring_def)

lemma strcmp_refl [simp]: "strcmp s s = 0"
  by (induction s) auto

lemma strcmp_eq_0: "cstring s \<Longrightarrow> cstring t \<Longrightarrow> strcmp s t = 0 \<longleftrightarrow> s = t"
proof (induction s t rule: strcmp.induct)
  case (4 c cs d ds)
  then show ?case by (auto simp: uc_inject [symmetric] simp del: uc_inject)
qed auto

lemma strcmp_sym: "strcmp t s = - strcmp s t"
  by (induction s t rule: strcmp.induct) auto

lemma strcmp_trans:
  "cstring s \<Longrightarrow> cstring t \<Longrightarrow> cstring u \<Longrightarrow> strcmp s t \<le> 0 \<Longrightarrow> strcmp t u \<le> 0 \<Longrightarrow> strcmp s u \<le> 0"
proof (induction s t arbitrary: u rule: strcmp.induct)
  case (2 d ds)
  then show ?case using uc_range(1) by (cases u) auto
next
  case (4 c cs d ds)
  show ?case
  proof (cases u)
    case Nil
    with 4 uc_range(1) [of d] show ?thesis by simp
  next
    case (Cons e es)
    with 4 show ?thesis by (auto split: if_splits)
  qed
next
  case (3 c cs)
  then show ?case using uc_range(1) [of c] by simp
next
  case 1
  then show ?case by simp
qed

text \<open>Decimal output (\<open>%zu\<close>, \<open>%d\<close>) and two lower-case hexadecimal digits (\<open>%02x\<close>).\<close>

definition digit_char :: "nat \<Rightarrow> char" where
  "digit_char d = char_of (if d < 10 then 48 + d else 87 + d)"

fun dec_nat :: "nat \<Rightarrow> string" where
  "dec_nat n = (if n < 10 then [digit_char n] else dec_nat (n div 10) @ [digit_char (n mod 10)])"

declare dec_nat.simps [simp del]

definition dec_int :: "int \<Rightarrow> string" where
  "dec_int i = (if i < 0 then ''-'' @ dec_nat (nat (- i)) else dec_nat (nat i))"

fun hex_nat :: "nat \<Rightarrow> string" where
  "hex_nat n = (if n < 16 then [digit_char n] else hex_nat (n div 16) @ [digit_char (n mod 16)])"

declare hex_nat.simps [simp del]

text \<open>\<open>%02x\<close> of an \<open>int\<close>: the digits of its value as an \<open>unsigned int\<close>.\<close>

definition hex02 :: "int \<Rightarrow> string" where
  "hex02 c =
     (let s = hex_nat (nat (if c < 0 then c + 2 ^ 32 else c))
      in if length s < 2 then CHR ''0'' # s else s)"

definition escape :: "int \<Rightarrow> string" where
  "escape c = CHR 0x5C # CHR ''x'' # hex02 c"

text \<open>A number right-aligned in a field of a given width, \<open>%<w>u\<close>.\<close>

definition dec_width :: "nat \<Rightarrow> nat \<Rightarrow> string" where
  "dec_width w n = replicate (w - length (dec_nat n)) CHR '' '' @ dec_nat n"

section \<open>Error numbers (errno.h)\<close>

definition ENOENT :: int where "ENOENT = 2"
definition ENOMEM :: int where "ENOMEM = 12"
definition ENOSPC :: int where "ENOSPC = 28"
definition ENODATA :: int where "ENODATA = 61"
definition ENOBUFS :: int where "ENOBUFS = 105"
definition ENOTRECOVERABLE :: int where "ENOTRECOVERABLE = 131"

lemmas errno_defs =
  ENOENT_def ENOMEM_def ENOSPC_def ENODATA_def ENOBUFS_def ENOTRECOVERABLE_def

end
