(* ===== verification/Cf.thy ===== *)
theory Cf
  imports Base
begin

text \<open>
  libcf, the C filter (src/libcf/libcf.c, src/libcf/libcf-debug.c, src/inc/cf.h,
  src/inc/cf-impl.h): the vector of super-characters \<open>ccv_t\<close>, the context \<open>cf_t\<close> and the
  state machine \<open>cf_next\<close>, as the code has them.

  The second half relates \<open>cf_next\<close> to \<open>cf_step\<close>, the same machine as a pure function from a
  state and a character to the super-characters delivered and the next state. \<open>cf_next\<close> keeps
  the class of the current region in a field of its own and reports errors and aborts; under
  the invariant \<open>cf_ok\<close> the class is a function of the state and neither happens.
\<close>

section \<open>Character classes and states (cf.h, cf-impl.h)\<close>

type_synonym cclass = "32 word"

definition CC_UNDEF :: cclass where "CC_UNDEF = 0x0001"
definition CC_CODE :: cclass where "CC_CODE = 0x0002"
definition CC_OUTER_STRING :: cclass where "CC_OUTER_STRING = 0x0004"
definition CC_INNER_STRING :: cclass where "CC_INNER_STRING = 0x0008"
definition CC_OUTER_CHAR :: cclass where "CC_OUTER_CHAR = 0x0010"
definition CC_INNER_CHAR :: cclass where "CC_INNER_CHAR = 0x0020"
definition CC_OUTER_COMMENT :: cclass where "CC_OUTER_COMMENT = 0x0040"
definition CC_INNER_COMMENT :: cclass where "CC_INNER_COMMENT = 0x0080"
definition CC_EOF :: cclass where "CC_EOF = 0x0100"
definition CC_ERR :: cclass where "CC_ERR = 0x0200"
definition CC_SETMASK :: cclass where "CC_SETMASK = 0x03FF"

lemmas cc_defs =
  CC_UNDEF_def CC_CODE_def CC_OUTER_STRING_def CC_INNER_STRING_def CC_OUTER_CHAR_def
  CC_INNER_CHAR_def CC_OUTER_COMMENT_def CC_INNER_COMMENT_def CC_EOF_def CC_ERR_def

record ccl_t =
  ccl :: cclass
  chr :: int

text \<open>
  \<open>array\<close> holds the \<open>len\<close> super-characters in use, so that \<open>len\<close> is its length; \<open>sz\<close> is the
  capacity.
\<close>

record ccv_t =
  sz :: nat
  array :: "ccl_t list"

abbreviation len :: "ccv_t \<Rightarrow> nat" where "len v \<equiv> length (array v)"

datatype cf_state =
    S_START | S_START_DQUOTE | S_DQUOTE_ESCAPE | S_START_SLASH | S_SLASH_STAR
  | S_SLASH_STAR_STAR | S_START_SQUOTE | S_SQUOTE_ESCAPE | S_INCHAR | S_COMMENT_EOL | S_EOF

record cf_t =
  err :: int
  state :: cf_state
  cclass :: cclass

section \<open>The vector of super-characters (libcf.c)\<close>

definition NLOOKAHEAD :: nat where "NLOOKAHEAD = 4"

definition ccv_init :: "ccv_t \<Rightarrow> ccv_t" where
  "ccv_init v = v\<lparr>sz := NLOOKAHEAD, array := []\<rparr>"

definition ccv_new :: ccv_t where
  "ccv_new = ccv_init \<lparr>sz = 0, array = []\<rparr>"

definition ccv_push :: "ccv_t \<Rightarrow> int \<Rightarrow> cclass \<Rightarrow> int \<times> ccv_t" where
  "ccv_push v c k =
     (if sz v \<le> len v then (ENOSPC, v)
      else (0, v\<lparr>array := array v @ [\<lparr>ccl = k, chr = c\<rparr>]\<rparr>))"

text \<open>The results through \<open>rchr\<close> and \<open>rccl\<close> are the last two components.\<close>

definition ccv_top :: "ccv_t \<Rightarrow> int \<times> int \<times> cclass" where
  "ccv_top v =
     (if len v = 0 then (ENODATA, 0, 0)
      else let top = len v - 1 in (0, chr (array v ! top), ccl (array v ! top)))"

definition ccv_pop :: "ccv_t \<Rightarrow> int \<times> int \<times> cclass \<times> ccv_t" where
  "ccv_pop v =
     (if len v = 0 then (ENODATA, 0, 0, v)
      else let top = len v - 1
           in (0, chr (array v ! top), ccl (array v ! top), v\<lparr>array := take top (array v)\<rparr>))"

definition ccv_empty :: "ccv_t \<Rightarrow> bool" where
  "ccv_empty v \<longleftrightarrow> len v = 0"

section \<open>Names of classes and states (libcf-debug.c)\<close>

text \<open>\<open>sprintf\<close> into a buffer of \<open>n\<close> bytes, the terminating zero included.\<close>

definition sprintf_buf :: "nat \<Rightarrow> string \<Rightarrow> string outcome" where
  "sprintf_buf n s = (if length s < n then Inr s else Inl Undef)"

definition decode_cclass :: "cclass \<Rightarrow> string outcome" where
  "decode_cclass k =
     (if k = CC_UNDEF then Inr ''UNDEF''
      else if k = CC_CODE then Inr ''CODE''
      else if k = CC_OUTER_STRING then Inr ''OUTER_STRING''
      else if k = CC_INNER_STRING then Inr ''INNER_STRING''
      else if k = CC_OUTER_CHAR then Inr ''OUTER_CHAR''
      else if k = CC_INNER_CHAR then Inr ''INNER_CHAR''
      else if k = CC_OUTER_COMMENT then Inr ''OUTER_COMMENT''
      else if k = CC_INNER_COMMENT then Inr ''INNER_COMMENT''
      else sprintf_buf 20 (''Unknown CCL#'' @ dec_int (sint k)))"

text \<open>The argument of \<open>decode_state\<close> is an \<open>int\<close>; \<open>state_code\<close> numbers the enumerators.\<close>

fun state_code :: "cf_state \<Rightarrow> int" where
  "state_code S_START = 0"
| "state_code S_START_DQUOTE = 1"
| "state_code S_DQUOTE_ESCAPE = 2"
| "state_code S_START_SLASH = 3"
| "state_code S_SLASH_STAR = 4"
| "state_code S_SLASH_STAR_STAR = 5"
| "state_code S_START_SQUOTE = 6"
| "state_code S_SQUOTE_ESCAPE = 7"
| "state_code S_INCHAR = 8"
| "state_code S_COMMENT_EOL = 9"
| "state_code S_EOF = 10"

definition decode_state :: "int \<Rightarrow> string outcome" where
  "decode_state n =
     (if n = state_code S_START then Inr ''START''
      else if n = state_code S_START_DQUOTE then Inr ''START_DQUOTE''
      else if n = state_code S_DQUOTE_ESCAPE then Inr ''DQUOTE_ESCAPE''
      else if n = state_code S_START_SLASH then Inr ''START_SLASH''
      else if n = state_code S_SLASH_STAR then Inr ''SLASH_STAR''
      else if n = state_code S_SLASH_STAR_STAR then Inr ''SLASH_STAR_STAR''
      else if n = state_code S_START_SQUOTE then Inr ''START_SQUOTE''
      else if n = state_code S_SQUOTE_ESCAPE then Inr ''SQUOTE_ESCAPE''
      else if n = state_code S_INCHAR then Inr ''INCHAR''
      else if n = state_code S_COMMENT_EOL then Inr ''COMMENT_EOL''
      else if n = state_code S_EOF then Inr ''EOF''
      else sprintf_buf 20 (''Unknown #'' @ dec_int n))"

section \<open>The state machine (libcf.c)\<close>

definition cf_init :: "cclass \<Rightarrow> cf_t" where
  "cf_init cclset = \<lparr>err = 0, state = S_START, cclass = cclset\<rparr>"

definition cf_new :: "cclass \<Rightarrow> cf_t" where
  "cf_new cclset = cf_init cclset"

text \<open>
  The branch for the end of the input. The inner \<open>chr\<close> of the code hides the parameter: it is
  0 for an empty vector, and otherwise the character on top of the vector.
\<close>

definition cf_next_eof :: "cf_t \<Rightarrow> ccv_t \<Rightarrow> int \<times> cf_t \<times> ccv_t" where
  "cf_next_eof ctx rccv =
     (let (rv, c, k) = (if ccv_empty rccv then (0, 0, CC_CODE) else ccv_top rccv);
          ctx = (if rv \<noteq> 0 then ctx\<lparr>err := ENOTRECOVERABLE\<rparr> else ctx);
          rccv = (if k \<noteq> CC_EOF then snd (ccv_push rccv 0 CC_EOF) else rccv);
          ctx = (if c = EOF \<and> state ctx \<noteq> S_START then ctx\<lparr>err := ENOTRECOVERABLE\<rparr> else ctx);
          ctx = ctx\<lparr>state := S_EOF\<rparr>
      in (if err ctx \<noteq> 0 then - err ctx else EOF, ctx, rccv))"

text \<open>What this branch prints on the standard error.\<close>

definition cf_next_eof_text :: "cf_t \<Rightarrow> ccv_t \<Rightarrow> string outcome" where
  "cf_next_eof_text ctx rccv =
     (let (rv, c, k) = (if ccv_empty rccv then (0, 0, CC_CODE) else ccv_top rccv);
          t = (if rv \<noteq> 0 then ''Error: ccv_top() failed.'' @ [CHR 0x0A] else [])
      in if c = EOF \<and> state ctx \<noteq> S_START then
           andthen (decode_state (state_code (state ctx))) (\<lambda>name.
             Inr (t @ ''Error: EOF and state=='' @ dec_int (state_code (state ctx)) @ '' ('' @ name
                    @ '')'' @ [CHR 0x0A]))
         else Inr t)"

text \<open>
  The \<open>switch (ctx->state)\<close>: given the state, the class in the context, the character and the
  vector, the class in the context after the switch, \<open>next_state\<close>, \<open>next_cclass\<close>,
  \<open>lookahead\<close> and the vector.
\<close>

fun cf_switch ::
  "cf_state \<Rightarrow> cclass \<Rightarrow> int \<Rightarrow> ccv_t \<Rightarrow> (cclass \<times> cf_state \<times> cclass \<times> bool \<times> ccv_t) outcome"
where
  "cf_switch S_START k c v =
     (if c = chDQ then Inr (CC_OUTER_STRING, S_START_DQUOTE, CC_INNER_STRING, False, v)
      else if c = chSQ then Inr (CC_OUTER_CHAR, S_START_SQUOTE, CC_INNER_CHAR, False, v)
      else if c = chSLASH then Inr (CC_UNDEF, S_START_SLASH, k, True, v)
      else Inr (CC_CODE, S_START, k, False, v))"
| "cf_switch S_START_DQUOTE k c v =
     (if c = chBSL then Inr (k, S_DQUOTE_ESCAPE, k, False, v)
      else if c = chDQ then Inr (CC_OUTER_STRING, S_START, k, False, v)
      else Inr (k, S_START_DQUOTE, k, False, v))"
| "cf_switch S_DQUOTE_ESCAPE k c v = Inr (k, S_START_DQUOTE, k, False, v)"
| "cf_switch S_START_SQUOTE k c v =
     (if c = chBSL then Inr (k, S_SQUOTE_ESCAPE, k, False, v)
      else if c = chSQ then
        (if k AND CC_INNER_CHAR = 0 then Inl (Abort (''INTERNAL ERROR.'' @ [CHR 0x0A]))
         else Inr (CC_OUTER_CHAR, S_START, k, False, v))
      else Inr (k, S_START_SQUOTE, k, False, v))"
| "cf_switch S_SQUOTE_ESCAPE k c v = Inr (k, S_START_SQUOTE, k, False, v)"
| "cf_switch S_START_SLASH k c v =
     (if c = chSLASH then
        Inr (CC_OUTER_COMMENT, S_COMMENT_EOL, CC_INNER_COMMENT, False,
             snd (ccv_push v chSLASH CC_OUTER_COMMENT))
      else if c = chSTAR then
        Inr (CC_OUTER_COMMENT, S_SLASH_STAR, CC_INNER_COMMENT, False,
             snd (ccv_push v chSLASH CC_OUTER_COMMENT))
      else Inr (CC_CODE, S_START, k, False, snd (ccv_push v chSLASH CC_CODE)))"
| "cf_switch S_SLASH_STAR k c v =
     (if c = chSTAR then Inr (k, S_SLASH_STAR_STAR, k, False, v)
      else Inr (k, S_SLASH_STAR, k, False, v))"
| "cf_switch S_SLASH_STAR_STAR k c v =
     (if c = chSLASH then Inr (k, S_START, k, False, v)
      else if c = chSTAR then Inr (k, S_SLASH_STAR_STAR, k, False, v)
      else Inr (k, S_SLASH_STAR, k, False, v))"
| "cf_switch S_COMMENT_EOL k c v =
     (if c = chNL then Inr (k, S_START, k, False, v)
      else Inr (k, S_COMMENT_EOL, k, False, v))"
| "cf_switch S_INCHAR k c v = Inr (k, S_INCHAR, k, False, v)"
| "cf_switch S_EOF k c v = Inr (k, S_EOF, k, False, v)"

definition cf_next :: "cf_t \<Rightarrow> ccv_t \<Rightarrow> int \<Rightarrow> (int \<times> cf_t \<times> ccv_t) outcome" where
  "cf_next ctx rccv c =
     (if state ctx = S_EOF \<or> c = EOF then Inr (cf_next_eof ctx rccv)
      else
        andthen (cf_switch (state ctx) (cclass ctx) c rccv)
          (\<lambda>(k, next_state, next_cclass, lookahead, rccv).
             let rccv = (if \<not> lookahead then snd (ccv_push rccv c k) else rccv)
             in Inr (0, ctx\<lparr>state := next_state,
                            cclass := (if next_state = S_START then CC_CODE else next_cclass)\<rparr>,
                     rccv)))"

section \<open>The machine as a pure step\<close>

abbreviation sup :: "cclass \<Rightarrow> int \<Rightarrow> ccl_t" where "sup k c \<equiv> \<lparr>ccl = k, chr = c\<rparr>"

text \<open>
  \<open>cf_step s c\<close>: what one character other than \<open>EOF\<close> makes the machine deliver in state \<open>s\<close>,
  and the state it goes to.
\<close>

fun cf_step :: "cf_state \<Rightarrow> int \<Rightarrow> ccl_t list \<times> cf_state" where
  "cf_step S_START c =
     (if c = chDQ then ([sup CC_OUTER_STRING c], S_START_DQUOTE)
      else if c = chSQ then ([sup CC_OUTER_CHAR c], S_START_SQUOTE)
      else if c = chSLASH then ([], S_START_SLASH)
      else ([sup CC_CODE c], S_START))"
| "cf_step S_START_DQUOTE c =
     (if c = chBSL then ([sup CC_INNER_STRING c], S_DQUOTE_ESCAPE)
      else if c = chDQ then ([sup CC_OUTER_STRING c], S_START)
      else ([sup CC_INNER_STRING c], S_START_DQUOTE))"
| "cf_step S_DQUOTE_ESCAPE c = ([sup CC_INNER_STRING c], S_START_DQUOTE)"
| "cf_step S_START_SQUOTE c =
     (if c = chBSL then ([sup CC_INNER_CHAR c], S_SQUOTE_ESCAPE)
      else if c = chSQ then ([sup CC_OUTER_CHAR c], S_START)
      else ([sup CC_INNER_CHAR c], S_START_SQUOTE))"
| "cf_step S_SQUOTE_ESCAPE c = ([sup CC_INNER_CHAR c], S_START_SQUOTE)"
| "cf_step S_START_SLASH c =
     (if c = chSLASH then ([sup CC_OUTER_COMMENT chSLASH, sup CC_OUTER_COMMENT c], S_COMMENT_EOL)
      else if c = chSTAR then ([sup CC_OUTER_COMMENT chSLASH, sup CC_OUTER_COMMENT c], S_SLASH_STAR)
      else ([sup CC_CODE chSLASH, sup CC_CODE c], S_START))"
| "cf_step S_SLASH_STAR c =
     ([sup CC_INNER_COMMENT c], if c = chSTAR then S_SLASH_STAR_STAR else S_SLASH_STAR)"
| "cf_step S_SLASH_STAR_STAR c =
     ([sup CC_INNER_COMMENT c],
      if c = chSLASH then S_START else if c = chSTAR then S_SLASH_STAR_STAR else S_SLASH_STAR)"
| "cf_step S_COMMENT_EOL c =
     ([sup CC_INNER_COMMENT c], if c = chNL then S_START else S_COMMENT_EOL)"
| "cf_step S_INCHAR c = ([], S_INCHAR)"
| "cf_step S_EOF c = ([sup CC_EOF 0], S_EOF)"

text \<open>
  The class the context holds in each state. In \<open>S_START\<close> and \<open>S_START_SLASH\<close> the class is
  overwritten before it is used, so any value will do, the one given to \<open>cf_new\<close> included.
\<close>

fun cf_ok :: "cf_t \<Rightarrow> bool" where
  "cf_ok ctx \<longleftrightarrow> err ctx = 0 \<and>
     (case state ctx of
        S_START \<Rightarrow> True | S_START_SLASH \<Rightarrow> True | S_EOF \<Rightarrow> True
      | S_INCHAR \<Rightarrow> False
      | S_START_DQUOTE \<Rightarrow> cclass ctx = CC_INNER_STRING
      | S_DQUOTE_ESCAPE \<Rightarrow> cclass ctx = CC_INNER_STRING
      | S_START_SQUOTE \<Rightarrow> cclass ctx = CC_INNER_CHAR
      | S_SQUOTE_ESCAPE \<Rightarrow> cclass ctx = CC_INNER_CHAR
      | S_SLASH_STAR \<Rightarrow> cclass ctx = CC_INNER_COMMENT
      | S_SLASH_STAR_STAR \<Rightarrow> cclass ctx = CC_INNER_COMMENT
      | S_COMMENT_EOL \<Rightarrow> cclass ctx = CC_INNER_COMMENT)"

declare cf_ok.simps [simp del]

lemma cf_ok_new [simp]: "cf_ok (cf_new k)"
  by (simp add: cf_ok.simps cf_new_def cf_init_def)

lemma cf_ok_err: "cf_ok ctx \<Longrightarrow> err ctx = 0"
  by (simp add: cf_ok.simps)

lemma ccv_push_room: "len v < sz v \<Longrightarrow> ccv_push v c k = (0, v\<lparr>array := array v @ [sup k c]\<rparr>)"
  by (simp add: ccv_push_def)

lemma cf_step_length: "length (fst (cf_step s c)) \<le> 2"
  by (cases s) auto

text \<open>
  The refinement: with room for two super-characters, \<open>cf_next\<close> appends what \<open>cf_step\<close>
  delivers, moves to its state, and never aborts or records an error.
\<close>

lemma cf_next_step:
  assumes ok: "cf_ok ctx" and room: "len v + 2 \<le> sz v"
    and run: "state ctx \<noteq> S_EOF" and c: "c \<noteq> EOF"
  obtains ctx' where
    "cf_next ctx v c = Inr (0, ctx', v\<lparr>array := array v @ fst (cf_step (state ctx) c)\<rparr>)"
    "state ctx' = snd (cf_step (state ctx) c)" "cf_ok ctx'"
proof -
  have nc: "CC_INNER_CHAR AND CC_INNER_CHAR \<noteq> 0"
    by (simp add: CC_INNER_CHAR_def)
  let ?P = "\<lambda>ctx'. cf_next ctx v c =
      Inr (0, ctx', v\<lparr>array := array v @ fst (cf_step (state ctx) c)\<rparr>) \<and>
      state ctx' = snd (cf_step (state ctx) c) \<and> cf_ok ctx'"
  have "\<exists>ctx'. ?P ctx'"
    using ok room run c nc
    by (cases "state ctx") (auto simp: cf_next_def cf_ok.simps ccv_push_room)
  with that show ?thesis by blast
qed

lemma cf_next_at_eof:
  assumes "cf_ok ctx" and "array v = []" and "0 < sz v"
  obtains ctx' where "cf_next ctx v EOF = Inr (EOF, ctx', v\<lparr>array := [sup CC_EOF 0]\<rparr>)"
    "state ctx' = S_EOF" "cf_ok ctx'"
proof -
  have "CC_CODE \<noteq> CC_EOF" by (simp add: cc_defs)
  then have "cf_next ctx v EOF = Inr (EOF, ctx\<lparr>state := S_EOF\<rparr>, v\<lparr>array := [sup CC_EOF 0]\<rparr>)"
    using assms by (simp add: cf_next_def cf_next_eof_def ccv_empty_def ccv_push_def cf_ok_err EOF_def)
  moreover have "cf_ok (ctx\<lparr>state := S_EOF\<rparr>)"
    using assms(1) by (simp add: cf_ok.simps)
  ultimately show ?thesis using that by simp
qed

end
