(* ===== verification/CfText.thy ===== *)
theory CfText
  imports Cf "HOL-Library.Sublist"
begin

text \<open>
  What libcf does with a whole text. \<open>cf_drive\<close> feeds a list of characters to \<open>cf_next\<close> the
  way the comments of src/libcf/libcf.c and src/inc/cf.h tell the caller to: an empty vector
  for each character, the delivered super-characters collected. \<open>cf_run\<close> is the same run of
  the pure machine. A C text is described independently of the machine as a list of
  \<open>segment\<close>s (code, string and character literals, the two kinds of comment) with their
  written form \<open>render\<close>; the main theorem, \<open>cf_classify_text\<close>, says that libcf tells the
  segments apart by their kinds, which is what the comment of libcf.c promises. \<open>classify\<close> gives
  the exact classes of the code, the choice between outer and inner characters included.
\<close>

section \<open>Runs\<close>

fun cf_drive :: "cf_t \<Rightarrow> int list \<Rightarrow> (ccl_t list \<times> cf_t) outcome" where
  "cf_drive ctx [] = Inr ([], ctx)"
| "cf_drive ctx (c # cs) =
     andthen (cf_next ctx ccv_new c)
       (\<lambda>(rv, ctx, v).
          if rv \<noteq> 0 \<and> rv \<noteq> EOF then Inl (Exit rv [])
          else andthen (cf_drive ctx cs) (\<lambda>(out, ctx). Inr (array v @ out, ctx)))"

fun cf_run :: "cf_state \<Rightarrow> int list \<Rightarrow> ccl_t list \<times> cf_state" where
  "cf_run s [] = ([], s)"
| "cf_run s (c # cs) =
     (let (out, s') = cf_step s c; (outs, t) = cf_run s' cs in (out @ outs, t))"

lemma cf_run_append:
  "cf_run s (xs @ ys) =
     (let (out, t) = cf_run s xs; (out', u) = cf_run t ys in (out @ out', u))"
  by (induction xs arbitrary: s) (auto simp: Let_def split: prod.splits)

lemma cf_run_appendI:
  "cf_run s xs = (out, t) \<Longrightarrow> cf_run t ys = (out', u) \<Longrightarrow> cf_run s (xs @ ys) = (out @ out', u)"
  by (simp add: cf_run_append)

lemma cf_run_ConsI:
  "cf_step s c = (out, t) \<Longrightarrow> cf_run t ys = (out', u) \<Longrightarrow> cf_run s (c # ys) = (out @ out', u)"
  by simp

text \<open>The states a machine that has not seen the end of its input can be in.\<close>

definition live :: "cf_state \<Rightarrow> bool" where
  "live s \<longleftrightarrow> s \<noteq> S_EOF \<and> s \<noteq> S_INCHAR"

lemma live_start [simp]: "live S_START"
  by (simp add: live_def)

lemma live_step: "live s \<Longrightarrow> live (snd (cf_step s c))"
  by (cases s) (auto simp: live_def)

lemma live_run: "live s \<Longrightarrow> live (snd (cf_run s cs))"
  by (induction cs arbitrary: s) (auto simp: split_beta live_step)

lemma cf_ok_live: "cf_ok ctx \<Longrightarrow> state ctx \<noteq> S_EOF \<Longrightarrow> live (state ctx)"
  by (auto simp: live_def cf_ok.simps)

text \<open>\<open>cf_drive\<close> refines \<open>cf_run\<close>: no character makes it stop.\<close>

lemma cf_drive_run:
  assumes "cf_ok ctx" and "live (state ctx)" and "EOF \<notin> set cs"
  shows "\<exists>ctx'. cf_drive ctx cs = Inr (fst (cf_run (state ctx) cs), ctx') \<and>
           state ctx' = snd (cf_run (state ctx) cs) \<and> cf_ok ctx'"
  using assms
proof (induction cs arbitrary: ctx)
  case Nil
  then show ?case by simp
next
  case (Cons c cs)
  have room: "len ccv_new + 2 \<le> sz ccv_new" and empty: "array ccv_new = []"
    by (simp_all add: ccv_new_def ccv_init_def NLOOKAHEAD_def)
  from Cons.prems have "state ctx \<noteq> S_EOF" "c \<noteq> EOF" by (auto simp: live_def)
  from cf_next_step [OF Cons.prems(1) room this] obtain ctx1 where
    n: "cf_next ctx ccv_new c =
          Inr (0, ctx1, ccv_new\<lparr>array := fst (cf_step (state ctx) c)\<rparr>)"
    and s: "state ctx1 = snd (cf_step (state ctx) c)" and ok: "cf_ok ctx1"
    by (auto simp: empty)
  from s Cons.prems(2) have "live (state ctx1)" by (simp add: live_step)
  from Cons.IH [OF ok this] Cons.prems(3) obtain ctx2 where
    "cf_drive ctx1 cs = Inr (fst (cf_run (state ctx1) cs), ctx2)"
    "state ctx2 = snd (cf_run (state ctx1) cs)" "cf_ok ctx2"
    by auto
  with n s show ?case by (auto simp: split_beta)
qed

section \<open>Nothing is lost or invented\<close>

text \<open>
  In \<open>S_START_SLASH\<close> the machine holds back one slash. Up to that slash, the characters
  delivered are the characters fed, in order.
\<close>

definition held :: "cf_state \<Rightarrow> int list" where
  "held s = (if s = S_START_SLASH then [chSLASH] else [])"

lemma cf_step_chars:
  "live s \<Longrightarrow> map chr (fst (cf_step s c)) @ held (snd (cf_step s c)) = held s @ [c]"
  by (cases s) (auto simp: live_def held_def)

lemma cf_run_chars:
  "live s \<Longrightarrow> map chr (fst (cf_run s cs)) @ held (snd (cf_run s cs)) = held s @ cs"
proof (induction cs arbitrary: s)
  case Nil
  then show ?case by simp
next
  case (Cons c cs)
  let ?s' = "snd (cf_step s c)"
  have "map chr (fst (cf_run s (c # cs))) @ held (snd (cf_run s (c # cs)))
      = map chr (fst (cf_step s c)) @ map chr (fst (cf_run ?s' cs)) @ held (snd (cf_run ?s' cs))"
    by (simp add: split_beta)
  also have "\<dots> = map chr (fst (cf_step s c)) @ held ?s' @ cs"
    using Cons.IH [OF live_step [OF Cons.prems]] by simp
  also have "\<dots> = held s @ c # cs"
    using cf_step_chars [OF Cons.prems, of c] by simp
  finally show ?case .
qed

section \<open>C text as segments\<close>

text \<open>A literal is a sequence of plain characters and of backslash escapes.\<close>

datatype litchar = Plain char | Escape char

datatype segment =
    Code string
  | StringLit "litchar list"
  | CharLit "litchar list"
  | BlockComment string
  | LineComment string

fun render_lit :: "litchar \<Rightarrow> int list" where
  "render_lit (Plain c) = [uc c]"
| "render_lit (Escape c) = [chBSL, uc c]"

fun render :: "segment \<Rightarrow> int list" where
  "render (Code s) = map uc s"
| "render (StringLit ls) = chDQ # concat (map render_lit ls) @ [chDQ]"
| "render (CharLit ls) = chSQ # concat (map render_lit ls) @ [chSQ]"
| "render (BlockComment s) = chSLASH # chSTAR # map uc s @ [chSTAR, chSLASH]"
| "render (LineComment s) = chSLASH # chSLASH # map uc s @ [chNL]"

text \<open>The four kinds of text that libcf extracts or suppresses, and the classes of a kind.\<close>

datatype kind = InCode | InString | InChar | InComment

fun kind_of :: "segment \<Rightarrow> kind" where
  "kind_of (Code s) = InCode"
| "kind_of (StringLit ls) = InString"
| "kind_of (CharLit ls) = InChar"
| "kind_of (BlockComment s) = InComment"
| "kind_of (LineComment s) = InComment"

fun kind_mask :: "kind \<Rightarrow> cclass" where
  "kind_mask InCode = CC_CODE"
| "kind_mask InString = CC_OUTER_STRING OR CC_INNER_STRING"
| "kind_mask InChar = CC_OUTER_CHAR OR CC_INNER_CHAR"
| "kind_mask InComment = CC_OUTER_COMMENT OR CC_INNER_COMMENT"

text \<open>The characters of the kinds in a list.\<close>

definition extracted :: "kind list \<Rightarrow> ccl_t list \<Rightarrow> int list" where
  "extracted ks out = map chr (filter (\<lambda>x. \<exists>k \<in> set ks. ccl x AND kind_mask k \<noteq> 0) out)"

text \<open>
  The classes of the characters of a segment as the code assigns them. Both quotes of a literal
  are outer characters; of a comment only the two characters that open it are, and the end of the
  comment, the star and the slash or the line end, is inner.
\<close>

fun classify :: "segment \<Rightarrow> ccl_t list" where
  "classify (Code s) = map (sup CC_CODE) (map uc s)"
| "classify (StringLit ls) =
     sup CC_OUTER_STRING chDQ # map (sup CC_INNER_STRING) (concat (map render_lit ls))
       @ [sup CC_OUTER_STRING chDQ]"
| "classify (CharLit ls) =
     sup CC_OUTER_CHAR chSQ # map (sup CC_INNER_CHAR) (concat (map render_lit ls))
       @ [sup CC_OUTER_CHAR chSQ]"
| "classify (BlockComment s) =
     sup CC_OUTER_COMMENT chSLASH # sup CC_OUTER_COMMENT chSTAR
       # map (sup CC_INNER_COMMENT) (map uc s @ [chSTAR, chSLASH])"
| "classify (LineComment s) =
     sup CC_OUTER_COMMENT chSLASH # sup CC_OUTER_COMMENT chSLASH
       # map (sup CC_INNER_COMMENT) (map uc s @ [chNL])"

text \<open>
  Code has no quotes, and every slash in it is a division: the character after it is in the
  code too and starts neither a comment nor a literal.
\<close>

fun code_text :: "string \<Rightarrow> bool" where
  "code_text [] = True"
| "code_text (c # cs) =
     (if uc c = chSLASH then
        (case cs of [] \<Rightarrow> False
         | d # ds \<Rightarrow> uc d \<notin> {chSLASH, chSTAR, chDQ, chSQ} \<and> code_text ds)
      else uc c \<notin> {chDQ, chSQ} \<and> code_text cs)"

fun segment_ok :: "segment \<Rightarrow> bool" where
  "segment_ok (Code s) = code_text s"
| "segment_ok (StringLit ls) = (\<forall>c. Plain c \<in> set ls \<longrightarrow> uc c \<notin> {chDQ, chBSL})"
| "segment_ok (CharLit ls) = (\<forall>c. Plain c \<in> set ls \<longrightarrow> uc c \<notin> {chSQ, chBSL})"
| "segment_ok (BlockComment s) = (\<not> sublist [chSTAR, chSLASH] (map uc s))"
| "segment_ok (LineComment s) = (chNL \<notin> uc ` set s)"

text \<open>The runs over each kind of segment.\<close>

lemma cf_run_code:
  "code_text s \<Longrightarrow> cf_run S_START (map uc s) = (map (sup CC_CODE) (map uc s), S_START)"
  by (induction s rule: code_text.induct) (auto split: list.splits if_splits)

lemma cf_run_string_body:
  "\<forall>c. Plain c \<in> set ls \<longrightarrow> uc c \<notin> {chDQ, chBSL} \<Longrightarrow>
   cf_run S_START_DQUOTE (concat (map render_lit ls)) =
     (map (sup CC_INNER_STRING) (concat (map render_lit ls)), S_START_DQUOTE)"
proof (induction ls)
  case Nil
  then show ?case by simp
next
  case (Cons l ls)
  then show ?case by (cases l) auto
qed

lemma cf_run_char_body:
  "\<forall>c. Plain c \<in> set ls \<longrightarrow> uc c \<notin> {chSQ, chBSL} \<Longrightarrow>
   cf_run S_START_SQUOTE (concat (map render_lit ls)) =
     (map (sup CC_INNER_CHAR) (concat (map render_lit ls)), S_START_SQUOTE)"
proof (induction ls)
  case Nil
  then show ?case by simp
next
  case (Cons l ls)
  then show ?case by (cases l) auto
qed

lemma sublist_pair_Cons:
  "sublist [a, b] (c # cs) \<longleftrightarrow> (c = a \<and> (\<exists>ds. cs = b # ds)) \<or> sublist [a, b] cs"
  by (cases cs) (auto simp: sublist_Cons_right prefix_Cons)

lemma cf_run_block_body:
  "\<not> sublist [chSTAR, chSLASH] cs \<Longrightarrow>
     snd (cf_run S_SLASH_STAR cs) \<in> {S_SLASH_STAR, S_SLASH_STAR_STAR} \<and>
     fst (cf_run S_SLASH_STAR cs) = map (sup CC_INNER_COMMENT) cs"
  "\<not> sublist [chSTAR, chSLASH] (chSTAR # cs) \<Longrightarrow>
     snd (cf_run S_SLASH_STAR_STAR cs) \<in> {S_SLASH_STAR, S_SLASH_STAR_STAR} \<and>
     fst (cf_run S_SLASH_STAR_STAR cs) = map (sup CC_INNER_COMMENT) cs"
proof (induction cs)
  case Nil
  {
    case 1 show ?case by simp
  next
    case 2 show ?case by simp
  }
next
  case (Cons c cs)
  {
    case 1
    then show ?case
      using Cons.IH by (auto simp: sublist_pair_Cons split_beta)
  next
    case 2
    then show ?case
      using Cons.IH by (auto simp: sublist_pair_Cons split_beta)
  }
qed

lemma cf_run_block:
  assumes "\<not> sublist [chSTAR, chSLASH] cs"
  shows "cf_run S_SLASH_STAR (cs @ [chSTAR, chSLASH]) =
           (map (sup CC_INNER_COMMENT) (cs @ [chSTAR, chSLASH]), S_START)"
proof -
  obtain t where t: "cf_run S_SLASH_STAR cs = (map (sup CC_INNER_COMMENT) cs, t)"
    and "t \<in> {S_SLASH_STAR, S_SLASH_STAR_STAR}"
    using cf_run_block_body(1) [OF assms] by (metis prod.collapse)
  then have "cf_run t [chSTAR, chSLASH] =
      (map (sup CC_INNER_COMMENT) [chSTAR, chSLASH], S_START)"
    by auto
  from cf_run_appendI [OF t this] show ?thesis by simp
qed

lemma cf_run_line:
  "chNL \<notin> set cs \<Longrightarrow>
   cf_run S_COMMENT_EOL (cs @ [chNL]) = (map (sup CC_INNER_COMMENT) (cs @ [chNL]), S_START)"
  by (induction cs) auto

lemma cf_run_segment:
  assumes "segment_ok g"
  shows "cf_run S_START (render g) = (classify g, S_START)"
proof (cases g)
  case (Code s)
  with assms show ?thesis by (simp add: cf_run_code)
next
  case (StringLit ls)
  with assms have "\<forall>c. Plain c \<in> set ls \<longrightarrow> uc c \<notin> {chDQ, chBSL}" by simp
  from cf_run_appendI [OF cf_run_string_body [OF this], of "[chDQ]"] StringLit
  show ?thesis by simp
next
  case (CharLit ls)
  with assms have "\<forall>c. Plain c \<in> set ls \<longrightarrow> uc c \<notin> {chSQ, chBSL}" by simp
  from cf_run_appendI [OF cf_run_char_body [OF this], of "[chSQ]"] CharLit
  show ?thesis by simp
next
  case (BlockComment s)
  with assms have "\<not> sublist [chSTAR, chSLASH] (map uc s)" by simp
  from cf_run_block [OF this] BlockComment show ?thesis by simp
next
  case (LineComment s)
  with assms have "chNL \<notin> set (map uc s)" by auto
  from cf_run_line [OF this] LineComment show ?thesis by simp
qed

lemma cf_run_segments:
  "\<forall>g \<in> set gs. segment_ok g \<Longrightarrow>
   cf_run S_START (concat (map render gs)) = (concat (map classify gs), S_START)"
proof (induction gs)
  case Nil
  then show ?case by simp
next
  case (Cons g gs)
  then have "cf_run S_START (render g) = (classify g, S_START)"
    and "cf_run S_START (concat (map render gs)) = (concat (map classify gs), S_START)"
    by (simp_all add: cf_run_segment)
  from cf_run_appendI [OF this] show ?case by simp
qed

lemma render_no_EOF: "EOF \<notin> set (concat (map render gs))"
proof -
  have lit: "EOF \<notin> set (render_lit l)" for l
    by (cases l) (auto simp: EOF_def uc_neq_EOF [unfolded EOF_def])
  have "EOF \<notin> set (render g)" for g
    using lit by (cases g) (auto simp: EOF_def uc_neq_EOF [unfolded EOF_def])
  then show ?thesis by auto
qed

section \<open>The code characters of a text\<close>

text \<open>The characters of class \<open>CC_CODE\<close>: what is left after filtering.\<close>

definition code_of :: "ccl_t list \<Rightarrow> int list" where
  "code_of out = map chr (filter (\<lambda>x. ccl x AND CC_CODE \<noteq> 0) out)"

lemma code_of_simps [simp]:
  "code_of [] = []"
  "code_of (x # out) = (if ccl x AND CC_CODE \<noteq> 0 then chr x # code_of out else code_of out)"
  "code_of (out @ out') = code_of out @ code_of out'"
  by (simp_all add: code_of_def)

lemma cc_code_bits [simp]:
  "CC_CODE \<noteq> 0" "CC_UNDEF AND CC_CODE = 0"
  "CC_OUTER_STRING AND CC_CODE = 0" "CC_INNER_STRING AND CC_CODE = 0"
  "CC_OUTER_CHAR AND CC_CODE = 0" "CC_INNER_CHAR AND CC_CODE = 0"
  "CC_OUTER_COMMENT AND CC_CODE = 0" "CC_INNER_COMMENT AND CC_CODE = 0"
  "CC_EOF AND CC_CODE = 0" "CC_ERR AND CC_CODE = 0"
  by (simp_all add: cc_defs)

lemma code_of_map_sup [simp]:
  "code_of (map (sup k) cs) = (if k AND CC_CODE \<noteq> 0 then cs else [])"
  by (induction cs) auto

lemma render_witness:
  "\<forall>g \<in> set [Code ''a/b'', StringLit [Plain CHR ''x'', Escape CHR 0x22], BlockComment ''*'', CharLit []].
     segment_ok g"
  by (simp add: uc_def sublist_pair_Cons)

lemma extracted_simps [simp]:
  "extracted ks [] = []"
  "extracted ks (x # out) =
     (if \<exists>k \<in> set ks. ccl x AND kind_mask k \<noteq> 0 then chr x # extracted ks out else extracted ks out)"
  "extracted ks (out @ out') = extracted ks out @ extracted ks out'"
  by (simp_all add: extracted_def)

lemma extracted_map_sup [simp]:
  "extracted ks (map (sup c) cs) = (if \<exists>k \<in> set ks. c AND kind_mask k \<noteq> 0 then cs else [])"
  by (induction cs) auto

text \<open>The masks are disjoint, and each class belongs to one kind.\<close>

lemma kind_bits [simp]:
  "CC_CODE AND kind_mask k \<noteq> 0 \<longleftrightarrow> k = InCode"
  "CC_OUTER_STRING AND kind_mask k \<noteq> 0 \<longleftrightarrow> k = InString"
  "CC_INNER_STRING AND kind_mask k \<noteq> 0 \<longleftrightarrow> k = InString"
  "CC_OUTER_CHAR AND kind_mask k \<noteq> 0 \<longleftrightarrow> k = InChar"
  "CC_INNER_CHAR AND kind_mask k \<noteq> 0 \<longleftrightarrow> k = InChar"
  "CC_OUTER_COMMENT AND kind_mask k \<noteq> 0 \<longleftrightarrow> k = InComment"
  "CC_INNER_COMMENT AND kind_mask k \<noteq> 0 \<longleftrightarrow> k = InComment"
  by (cases k; simp add: cc_defs)+

lemma extracted_classify: "extracted ks (classify g) = (if kind_of g \<in> set ks then render g else [])"
  by (cases g) (auto simp del: map_map)

lemma extracted_text:
  "extracted ks (concat (map classify gs)) = concat (map render (filter (\<lambda>g. kind_of g \<in> set ks) gs))"
  by (induction gs) (simp_all add: extracted_classify)



text \<open>C15: nothing is lost or invented: the characters of the super-characters delivered are the
  characters fed, in order, except for a slash held back at the end.\<close>

theorem cf_keeps_content:
  assumes "EOF \<notin> set cs"
  shows "\<exists>out ctx. cf_drive (cf_new k) cs = Inr (out, ctx) \<and>
    map chr out @ (if state ctx = S_START_SLASH then [chSLASH] else []) = cs"
proof -
  have s: "state (cf_new k) = S_START" by (simp add: cf_new_def cf_init_def)
  from cf_drive_run [OF cf_ok_new _ assms, of k] cf_run_chars [OF live_start, of cs] show ?thesis
    by (fastforce simp: s held_def)
qed

theorem cf_keeps_content_witness:
  "\<exists>out ctx. cf_drive (cf_new CC_CODE) [97, 47] = Inr (out, ctx) \<and>
    map chr out @ (if state ctx = S_START_SLASH then [chSLASH] else []) = [97, 47]"
  by (rule cf_keeps_content) (simp add: EOF_def)

text \<open>The class set given to \<open>cf_new\<close> has no effect on what libcf delivers: nothing is
  extracted or suppressed by it.\<close>

theorem cf_class_set_ignored:
  assumes "EOF \<notin> set cs"
  shows "\<exists>out ctx ctx'. cf_drive (cf_new k) cs = Inr (out, ctx) \<and> cf_drive (cf_new k') cs = Inr (out, ctx')"
proof -
  have s: "state (cf_new k) = S_START" for k by (simp add: cf_new_def cf_init_def)
  from cf_drive_run [OF cf_ok_new _ assms, of k] cf_drive_run [OF cf_ok_new _ assms, of k']
  show ?thesis by (auto simp: s)
qed

theorem cf_class_set_ignored_witness:
  "\<exists>out ctx ctx'. cf_drive (cf_new CC_CODE) [34, 97, 34] = Inr (out, ctx) \<and>
     cf_drive (cf_new CC_INNER_STRING) [34, 97, 34] = Inr (out, ctx')"
  by (rule cf_class_set_ignored) (simp add: EOF_def)

text \<open>C40: at the end of the input \<open>cf_next\<close> delivers the end marker once, returns \<open>EOF\<close>, and
  records and prints no error, whatever the text before was: an unterminated comment or literal is not reported.\<close>

theorem cf_end_not_reported:
  assumes "EOF \<notin> set cs"
  shows "\<exists>out ctx ctx'. cf_drive (cf_new k) cs = Inr (out, ctx) \<and>
    cf_next ctx ccv_new EOF = Inr (EOF, ctx', ccv_new\<lparr>array := [sup CC_EOF 0]\<rparr>) \<and>
    state ctx' = S_EOF \<and> err ctx' = 0 \<and> cf_next_eof_text ctx ccv_new = Inr []"
proof -
  have s: "live (state (cf_new k))" by (simp add: cf_new_def cf_init_def)
  have v: "array ccv_new = []" "0 < sz ccv_new"
    by (simp_all add: ccv_new_def ccv_init_def NLOOKAHEAD_def)
  from cf_drive_run [OF cf_ok_new s assms] obtain out ctx where
    "cf_drive (cf_new k) cs = Inr (out, ctx)" "cf_ok ctx"
    by blast
  moreover from cf_next_at_eof [OF this(2) v] obtain ctx' where
    "cf_next ctx ccv_new EOF = Inr (EOF, ctx', ccv_new\<lparr>array := [sup CC_EOF 0]\<rparr>)"
    "state ctx' = S_EOF" "cf_ok ctx'" .
  moreover have "cf_next_eof_text ctx ccv_new = Inr []" for ctx
    using v by (simp add: cf_next_eof_text_def ccv_empty_def EOF_def)
  ultimately show ?thesis using cf_ok_err by blast
qed

theorem cf_end_not_reported_witness:
  "\<exists>out ctx ctx'. cf_drive (cf_new CC_CODE) [47, 42, 97] = Inr (out, ctx) \<and>
    cf_next ctx ccv_new EOF = Inr (EOF, ctx', ccv_new\<lparr>array := [sup CC_EOF 0]\<rparr>) \<and>
    state ctx' = S_EOF \<and> err ctx' = 0 \<and> cf_next_eof_text ctx ccv_new = Inr []"
  by (rule cf_end_not_reported) (simp add: EOF_def)

text \<open>C28: the vector is a stack of bounded size: a push on a vector with room is seen by
  \<open>ccv_top\<close> and undone by \<open>ccv_pop\<close>, and a push on a full vector or a pop of an empty one
  fails and changes nothing.\<close>

theorem ccv_stack:
  "(if len v < sz v
    then \<exists>v'. ccv_push v c k = (0, v') \<and> \<not> ccv_empty v' \<and> ccv_top v' = (0, c, k) \<and>
           ccv_pop v' = (0, c, k, v)
    else ccv_push v c k = (ENOSPC, v)) \<and>
   (if ccv_empty v then ccv_top v = (ENODATA, 0, 0) \<and> ccv_pop v = (ENODATA, 0, 0, v)
    else \<exists>c' k'. ccv_top v = (0, c', k'))"
  by (auto simp: ccv_push_def ccv_top_def ccv_pop_def ccv_empty_def Let_def)

end
