(* ===== verification/CfReach.thy ===== *)
theory CfReach
  imports CfText
begin

text \<open>
  libcf as a transition system: \<open>cf_trans\<close> is a call of \<open>cf_next\<close> with any vector, full or not,
  and \<open>cf_reach\<close> the contexts that a sequence of calls can lead to. The invariants hold for
  every caller, not only for the loop of \<open>cf_getc\<close>.
\<close>

section \<open>Transitions\<close>

inductive cf_trans :: "cf_t \<Rightarrow> int \<Rightarrow> cf_t \<Rightarrow> bool" where
  call: "cf_next ctx v c = Inr (rv, ctx', v') \<Longrightarrow> cf_trans ctx c ctx'"

inductive cf_reach :: "cclass \<Rightarrow> int list \<Rightarrow> cf_t \<Rightarrow> bool" for k where
  new: "cf_reach k [] (cf_new k)"
| feed: "cf_reach k cs ctx \<Longrightarrow> cf_trans ctx c ctx' \<Longrightarrow> cf_reach k (cs @ [c]) ctx'"

inductive_cases cf_transE: "cf_trans ctx c ctx'"

inductive_simps cf_trans_iff: "cf_trans ctx c ctx'"

section \<open>One call with any vector\<close>

text \<open>A call on a context that satisfies \<open>cf_ok\<close> never aborts; what happens to the vector does not
  change the context.\<close>

lemma cf_next_any:
  assumes ok: "cf_ok ctx" and run: "state ctx \<noteq> S_EOF" and c: "c \<noteq> EOF"
  shows "\<exists>ctx' v'. cf_next ctx v c = Inr (0, ctx', v') \<and> cf_ok ctx' \<and>
    state ctx' = snd (cf_step (state ctx) c)"
proof -
  have nc: "CC_INNER_CHAR AND CC_INNER_CHAR \<noteq> 0"
    by (simp add: CC_INNER_CHAR_def)
  show ?thesis
    using ok run c nc by (cases "state ctx") (auto simp: cf_next_def cf_ok.simps)
qed

lemma cf_next_end:
  "state ctx = S_EOF \<or> c = EOF \<Longrightarrow> \<exists>rv ctx' v'. cf_next ctx v c = Inr (rv, ctx', v') \<and> state ctx' = S_EOF"
  by (cases "cf_next_eof ctx v") (auto simp: cf_next_def cf_next_eof_def Let_def split: prod.splits)

lemma cf_run_snoc: "snd (cf_run s (cs @ [c])) = snd (cf_step (snd (cf_run s cs)) c)"
  by (auto simp: cf_run_append Let_def split: prod.splits)

lemma cf_trans_live:
  assumes "cf_trans ctx c ctx'" and "cf_ok ctx" and "state ctx \<noteq> S_EOF" and "c \<noteq> EOF"
  shows "cf_ok ctx' \<and> state ctx' = snd (cf_step (state ctx) c)"
proof -
  from assms(1) obtain v rv v' where "cf_next ctx v c = Inr (rv, ctx', v')" by (rule cf_transE)
  with cf_next_any [OF assms(2-4), of v] show ?thesis by auto
qed

lemma cf_trans_end:
  assumes "cf_trans ctx c ctx'" and "state ctx = S_EOF \<or> c = EOF"
  shows "state ctx' = S_EOF"
proof -
  from assms(1) obtain v rv v' where "cf_next ctx v c = Inr (rv, ctx', v')" by (rule cf_transE)
  with cf_next_end [OF assms(2), of v] show ?thesis by auto
qed

section \<open>The invariant\<close>

lemma cf_reach_inv:
  "cf_reach k cs ctx \<Longrightarrow>
   (if EOF \<in> set cs then state ctx = S_EOF
    else cf_ok ctx \<and> state ctx = snd (cf_run S_START cs) \<and> state ctx \<noteq> S_EOF)"
proof (induction rule: cf_reach.induct)
  case new
  then show ?case by (simp add: cf_new_def cf_init_def cf_ok.simps)
next
  case (feed cs ctx c ctx')
  show ?case
  proof (cases "EOF \<in> set cs \<or> c = EOF")
    case True
    with feed.IH have "state ctx = S_EOF \<or> c = EOF" by auto
    with cf_trans_end [OF feed.hyps(2)] True show ?thesis by auto
  next
    case False
    with feed.IH have ok: "cf_ok ctx" "state ctx = snd (cf_run S_START cs)" "state ctx \<noteq> S_EOF" by auto
    with cf_trans_live [OF feed.hyps(2)] False have "cf_ok ctx'" "state ctx' = snd (cf_step (state ctx) c)"
      by auto
    moreover have "live (snd (cf_step (state ctx) c))"
      using cf_ok_live [OF ok(1,3)] by (rule live_step)
    ultimately show ?thesis using ok(2) False by (auto simp: cf_run_snoc live_def)
  qed
qed

section \<open>Properties\<close>

text \<open>C16: in every context that calls of \<open>cf_next\<close> can reach, with any characters and any vectors,
  the next call returns: the \<open>abort\<close> for a quote outside a character literal is never reached,
  nor is the state \<open>S_INCHAR\<close>. The state depends on the characters alone, no error is recorded
  before the end of the input, and the end is final.\<close>

theorem cf_reachable:
  assumes "cf_reach k cs ctx"
  shows "(\<exists>rv ctx' v'. cf_next ctx v c = Inr (rv, ctx', v')) \<and> state ctx \<noteq> S_INCHAR \<and>
    (if EOF \<in> set cs then state ctx = S_EOF
     else state ctx = snd (cf_run S_START cs) \<and> err ctx = 0)"
proof -
  note inv = cf_reach_inv [OF assms]
  have "\<exists>rv ctx' v'. cf_next ctx v c = Inr (rv, ctx', v')"
  proof (cases "state ctx = S_EOF \<or> c = EOF")
    case True
    from cf_next_end [OF True, of v] show ?thesis by blast
  next
    case False
    with inv have "cf_ok ctx" by (auto split: if_splits)
    with cf_next_any [of ctx c v] False show ?thesis by blast
  qed
  moreover have "state ctx \<noteq> S_INCHAR" using inv by (auto simp: cf_ok.simps split: if_splits)
  ultimately show ?thesis using inv by (auto simp: cf_ok_err split: if_splits)
qed

text \<open>After a slash and with a vector that has no room left.\<close>

theorem cf_reachable_witness:
  "\<exists>ctx. cf_reach CC_CODE [chSLASH] ctx \<and> state ctx = S_START_SLASH \<and>
    (\<exists>r. cf_next ctx \<lparr>sz = 0, array = []\<rparr> chSTAR = Inr r)"
proof -
  let ?v = "\<lparr>sz = 0, array = []\<rparr>"
  from cf_next_any [OF cf_ok_new, of CC_CODE chSLASH ?v] obtain ctx' v' where
    "cf_next (cf_new CC_CODE) ?v chSLASH = Inr (0, ctx', v')"
    by (auto simp: cf_new_def cf_init_def EOF_def)
  then have "cf_trans (cf_new CC_CODE) chSLASH ctx'" by (rule cf_trans.call)
  from cf_reach.feed [OF cf_reach.new this] have r: "cf_reach CC_CODE [chSLASH] ctx'" by simp
  from cf_reachable [OF r, of ?v chSTAR] have "state ctx' = S_START_SLASH"
    "\<exists>r. cf_next ctx' ?v chSTAR = Inr r"
    by (auto simp: EOF_def)
  with r show ?thesis by blast
qed

end
