(* ===== verification/Dict.thy ===== *)
theory Dict
  imports Base
begin

text \<open>
  The dictionary of src/libincbot/dict.c and src/inc/dict.h: a segmented array of strings
  indexed by symbol numbers, and a hash table from strings to symbol numbers with buckets of
  two entries and chains of overflow cells. This theory holds the data and the operations as
  the code has them; \<open>DictInv\<close> proves them correct.

  A pointer into an array is its index. \<open>size_t\<close> counts and indices are \<open>nat\<close>: they are bounded
  by the memory that is allocated. The hash itself is computed on \<open>32 word\<close>. The code under
  \<open>USE_REHASH\<close>, which no build defines, is in \<open>DictDump\<close>.
\<close>

section \<open>Data (dict.h, dict.c)\<close>

definition undef_symnr :: nat where "undef_symnr = 0"
definition dict_segment_size :: nat where "dict_segment_size = 1024"
definition config_hashmap_init_size :: nat where "config_hashmap_init_size = 11"
definition HASHMAP_SET_ASSOCIATIVITY :: nat where "HASHMAP_SET_ASSOCIATIVITY = 2"
definition OVFL_SEGMENT_SIZE :: nat where "OVFL_SEGMENT_SIZE = 256"
definition config_use_hashtable :: bool where "config_use_hashtable = True"
definition sym_poison :: string where "sym_poison = ''*POISON*''"
definition undef_ovflnr :: nat where "undef_ovflnr = 0"

record hashent =
  he_h :: nat
  he_symnr :: nat

record ovfl_t =
  ov_symnr :: nat
  ov_next :: nat

text \<open>\<open>bkt_ent\<close> always has \<open>HASHMAP_SET_ASSOCIATIVITY\<close> elements.\<close>

record hashbkt =
  bkt_ent :: "hashent list"
  bkt_chain :: nat

text \<open>\<open>ovfl_len\<close> is \<open>None\<close> until it is first written: \<open>hashmap_new\<close> does not initialise it.\<close>

record hashmap =
  tbl :: "hashbkt list"
  tbl_sz :: nat
  ovfl :: "ovfl_t option list option"
  ovfl_sz :: nat
  ovfl_len :: "nat option"

record dict =
  dict_sv :: "string option list list"
  dict_sz :: nat
  dict_len :: nat
  hashtable :: "hashmap option"

section \<open>The symbol vector\<close>

definition dict_new :: dict where
  "dict_new =
     \<lparr>dict_sv = [(arr_new dict_segment_size)[0 := Some sym_poison]],
      dict_sz = dict_segment_size, dict_len = 1, hashtable = None\<rparr>"

text \<open>The cell \<open>dict->sv[sym_seg][sym_off]\<close> of a symbol number.\<close>

definition sv_get :: "dict \<Rightarrow> nat \<Rightarrow> string outcome" where
  "sv_get d symnr =
     (let sym_seg = symnr div dict_segment_size;
          sym_off = symnr - sym_seg * dict_segment_size
      in if sym_seg < length (dict_sv d) then arr_get (dict_sv d ! sym_seg) sym_off
         else Inl Undef)"

definition dict_getname_nr :: "dict \<Rightarrow> nat \<Rightarrow> string option outcome" where
  "dict_getname_nr d symnr =
     (if length (dict_sv d) \<le> symnr div dict_segment_size then Inl Undef
      else if symnr = undef_symnr then Inr None
      else andthen (sv_get d symnr) (\<lambda>s. Inr (Some s)))"

definition dict_grow :: "dict \<Rightarrow> dict" where
  "dict_grow d =
     (let nseg = dict_sz d div dict_segment_size
      in d\<lparr>dict_sv := take nseg (dict_sv d) @ [arr_new dict_segment_size],
           dict_sz := dict_sz d + dict_segment_size\<rparr>)"

definition dict_append_symbol :: "dict \<Rightarrow> string \<Rightarrow> (nat \<times> dict) outcome" where
  "dict_append_symbol d s =
     (let symnr = dict_len d;
          d = (if dict_sz d \<le> symnr then dict_grow d else d);
          sym_seg = symnr div dict_segment_size;
          sym_off = symnr - sym_seg * dict_segment_size
      in if sym_seg < length (dict_sv d) then
           andthen (arr_set (dict_sv d ! sym_seg) sym_off s)
             (\<lambda>entv. Inr (symnr, d\<lparr>dict_sv := (dict_sv d)[sym_seg := entv],
                                   dict_len := dict_len d + 1\<rparr>))
         else Inl Undef)"

section \<open>The hash table\<close>

definition hashmap_new :: "nat \<Rightarrow> hashmap" where
  "hashmap_new n =
     (let n = (if n = 0 then config_hashmap_init_size else n)
      in \<lparr>tbl = replicate n \<lparr>bkt_ent = replicate HASHMAP_SET_ASSOCIATIVITY
                                        \<lparr>he_h = 0, he_symnr = 0\<rparr>,
                             bkt_chain = 0\<rparr>,
          tbl_sz = n, ovfl = None, ovfl_sz = 0, ovfl_len = None\<rparr>)"

text \<open>Jenkins' one-at-a-time hash, in \<open>uint32_t\<close> arithmetic; \<open>s[i]\<close> is a signed \<open>char\<close>.\<close>

fun hash_loop :: "32 word \<Rightarrow> string \<Rightarrow> 32 word" where
  "hash_loop hash [] = hash"
| "hash_loop hash (c # cs) =
     (let hash = hash + word_of_int (sc c);
          hash = hash + push_bit 10 hash;
          hash = hash XOR drop_bit 6 hash
      in hash_loop hash cs)"

definition hash_symbol :: "string \<Rightarrow> nat" where
  "hash_symbol s =
     (let hash = hash_loop 0 s;
          hash = hash + push_bit 3 hash;
          hash = hash XOR drop_bit 11 hash;
          hash = hash + push_bit 15 hash
      in unat hash)"

text \<open>\<open>map->ovfl[i]\<close>, read and written.\<close>

definition ovfl_get :: "hashmap \<Rightarrow> nat \<Rightarrow> ovfl_t outcome" where
  "ovfl_get hm i = (case ovfl hm of None \<Rightarrow> Inl Undef | Some a \<Rightarrow> arr_get a i)"

definition ovfl_set :: "hashmap \<Rightarrow> nat \<Rightarrow> ovfl_t \<Rightarrow> hashmap outcome" where
  "ovfl_set hm i x =
     (case ovfl hm of None \<Rightarrow> Inl Undef
      | Some a \<Rightarrow> andthen (arr_set a i x) (\<lambda>a. Inr (hm\<lparr>ovfl := Some a\<rparr>)))"

text \<open>The cell of overflow number 0 is reserved; the array grows by whole segments.\<close>

definition ovfl_reserve :: "hashmap \<Rightarrow> hashmap outcome" where
  "ovfl_reserve hm =
     (case ovfl hm of
        None \<Rightarrow>
          Inr (hm\<lparr>ovfl := Some ((arr_new OVFL_SEGMENT_SIZE)
                       [0 := Some \<lparr>ov_symnr = undef_symnr, ov_next = undef_ovflnr\<rparr>]),
                   ovfl_sz := OVFL_SEGMENT_SIZE, ovfl_len := Some 1\<rparr>)
      | Some a \<Rightarrow>
          (case ovfl_len hm of
             None \<Rightarrow> Inl Undef
           | Some n \<Rightarrow>
               Inr (if ovfl_sz hm \<le> n then
                      hm\<lparr>ovfl := Some (a @ arr_new OVFL_SEGMENT_SIZE),
                          ovfl_sz := ovfl_sz hm + OVFL_SEGMENT_SIZE\<rparr>
                    else hm)))"

definition append_ovfl :: "hashmap \<Rightarrow> nat \<Rightarrow> (nat \<times> hashmap) outcome" where
  "append_ovfl hm symnr =
     andthen (ovfl_reserve hm) (\<lambda>hm.
       (case ovfl_len hm of
          None \<Rightarrow> Inl Undef
        | Some entnr \<Rightarrow>
            andthen (ovfl_set hm entnr \<lparr>ov_symnr = symnr, ov_next = undef_ovflnr\<rparr>)
              (\<lambda>hm. Inr (entnr, hm\<lparr>ovfl_len := Some (entnr + 1)\<rparr>))))"

definition set_bkt :: "hashmap \<Rightarrow> nat \<Rightarrow> hashbkt \<Rightarrow> hashmap" where
  "set_bkt hm b bkt = hm\<lparr>tbl := (tbl hm)[b := bkt]\<rparr>"

subsection \<open>Adding a symbol number\<close>

text \<open>
  The loop over the entries of the bucket: \<open>Some\<close> of the entries when the code returns from it
  (the first free entry taken, or the number found), \<open>None\<close> when the bucket is full.
\<close>

fun add_ents :: "nat \<Rightarrow> nat \<Rightarrow> hashent list \<Rightarrow> hashent list option" where
  "add_ents h symnr [] = None"
| "add_ents h symnr (e # es) =
     (if he_symnr e = undef_symnr then Some (\<lparr>he_h = h, he_symnr = symnr\<rparr> # es)
      else if he_symnr e = symnr then Some (e # es)
      else map_option ((#) e) (add_ents h symnr es))"

text \<open>How a walk along a chain ends: at a cell it was looking for, or at the last cell.\<close>

datatype walk = Found nat | Last nat

text \<open>The \<open>while\<close> loop from an overflow cell that has been looked at already.\<close>

partial_function (option) add_walk :: "hashmap \<Rightarrow> nat \<Rightarrow> nat \<Rightarrow> walk outcome option" where
  "add_walk hm symnr e =
     (case ovfl_get hm e of
        Inl h \<Rightarrow> Some (Inl h)
      | Inr c \<Rightarrow>
          (if ov_next c = undef_ovflnr then Some (Inr (Last e))
           else
             (case ovfl_get hm (ov_next c) of
                Inl h \<Rightarrow> Some (Inl h)
              | Inr c' \<Rightarrow>
                  (if ov_symnr c' = symnr then Some (Inr (Found symnr))
                   else add_walk hm symnr (ov_next c)))))"

definition add_chain :: "hashmap \<Rightarrow> nat \<Rightarrow> nat \<Rightarrow> hashmap outcome" where
  "add_chain hm b symnr =
     (let bkt = tbl hm ! b
      in if bkt_chain bkt = undef_ovflnr then
           andthen (append_ovfl hm symnr)
             (\<lambda>(e, hm). Inr (set_bkt hm b (bkt\<lparr>bkt_chain := e\<rparr>)))
         else
           andthen (ovfl_get hm (bkt_chain bkt)) (\<lambda>c.
             if ov_symnr c = symnr then Inr hm
             else
               andthen (ended (add_walk hm symnr (bkt_chain bkt))) (\<lambda>w.
                 (case w of
                    Found n \<Rightarrow> Inr hm
                  | Last e \<Rightarrow>
                      andthen (append_ovfl hm symnr) (\<lambda>(e', hm).
                        andthen (ovfl_get hm e)
                          (\<lambda>c. ovfl_set hm e (c\<lparr>ov_next := e'\<rparr>)))))))"

definition dict_symnr_add_hash :: "dict \<Rightarrow> nat \<Rightarrow> dict outcome" where
  "dict_symnr_add_hash d symnr =
     (case hashtable d of
        None \<Rightarrow> Inl (Abort (''null hashmap'' @ [CHR 0x0A]))
      | Some hm \<Rightarrow>
          andthen (dict_getname_nr d symnr) (\<lambda>name.
            (case name of
               None \<Rightarrow> Inl Undef
             | Some str \<Rightarrow>
                 (let h = hash_symbol str; b = h mod tbl_sz hm
                  in if length (tbl hm) \<le> b then Inl Undef
                     else
                       (case add_ents h symnr (bkt_ent (tbl hm ! b)) of
                          Some es \<Rightarrow>
                            Inr (d\<lparr>hashtable := Some (set_bkt hm b ((tbl hm ! b)\<lparr>bkt_ent := es\<rparr>))\<rparr>)
                        | None \<Rightarrow>
                            andthen (add_chain hm b symnr)
                              (\<lambda>hm. Inr (d\<lparr>hashtable := Some hm\<rparr>)))))))"

subsection \<open>Looking a string up\<close>

text \<open>
  The loop over the entries: a match, the index of the first free entry, or neither.
\<close>

datatype ent_result = Hit nat | Empty nat | Miss

fun find_ents :: "dict \<Rightarrow> string \<Rightarrow> nat \<Rightarrow> nat \<Rightarrow> hashent list \<Rightarrow> ent_result outcome" where
  "find_ents d s h i [] = Inr Miss"
| "find_ents d s h i (e # es) =
     (if he_symnr e = undef_symnr then Inr (Empty i)
      else if h = he_h e then
        andthen (dict_getname_nr d (he_symnr e)) (\<lambda>sym.
          if (case sym of None \<Rightarrow> False | Some t \<Rightarrow> strcmp s t = 0) then Inr (Hit (he_symnr e))
          else find_ents d s h (i + 1) es)
      else find_ents d s h (i + 1) es)"

definition ovfl_match :: "dict \<Rightarrow> hashmap \<Rightarrow> string \<Rightarrow> nat \<Rightarrow> (bool \<times> nat) outcome" where
  "ovfl_match d hm s e =
     andthen (ovfl_get hm e) (\<lambda>c.
       andthen (dict_getname_nr d (ov_symnr c)) (\<lambda>sym.
         Inr ((case sym of None \<Rightarrow> False | Some t \<Rightarrow> strcmp s t = 0), ov_symnr c)))"

partial_function (option) find_walk ::
  "dict \<Rightarrow> hashmap \<Rightarrow> string \<Rightarrow> nat \<Rightarrow> walk outcome option" where
  "find_walk d hm s e =
     (case ovfl_get hm e of
        Inl h \<Rightarrow> Some (Inl h)
      | Inr c \<Rightarrow>
          (if ov_next c = undef_ovflnr then Some (Inr (Last e))
           else
             (case ovfl_match d hm s (ov_next c) of
                Inl h \<Rightarrow> Some (Inl h)
              | Inr (m, symnr) \<Rightarrow>
                  (if m then Some (Inr (Found symnr)) else find_walk d hm s (ov_next c)))))"

text \<open>
  The part of \<open>dict_find_hash\<close> behind the loop over the entries. \<open>new_symnr\<close> is \<open>None\<close> where
  the code has not assigned the variable.
\<close>

definition find_chain ::
  "dict \<Rightarrow> nat \<Rightarrow> string \<Rightarrow> bool \<Rightarrow> nat option \<Rightarrow> (nat \<times> dict) outcome" where
  "find_chain d b s upsert new_symnr =
     (case hashtable d of
        None \<Rightarrow> Inl Undef
      | Some hm \<Rightarrow>
          (let bkt = tbl hm ! b
           in if bkt_chain bkt = undef_ovflnr then
                (if upsert then
                   (case new_symnr of
                      None \<Rightarrow> Inl Undef
                    | Some n \<Rightarrow>
                        andthen (append_ovfl hm n) (\<lambda>(e, hm).
                          Inr (n, d\<lparr>hashtable := Some (set_bkt hm b (bkt\<lparr>bkt_chain := e\<rparr>))\<rparr>)))
                 else Inr (undef_symnr, d))
              else
                andthen (ovfl_match d hm s (bkt_chain bkt)) (\<lambda>(m, symnr).
                  if m then Inr (symnr, d)
                  else
                    andthen (ended (find_walk d hm s (bkt_chain bkt))) (\<lambda>w.
                      (case w of
                         Found symnr \<Rightarrow> Inr (symnr, d)
                       | Last e \<Rightarrow>
                           (if upsert then
                              (case new_symnr of
                                 None \<Rightarrow> Inl Undef
                               | Some n \<Rightarrow>
                                   andthen (append_ovfl hm n) (\<lambda>(e', hm).
                                     andthen (ovfl_get hm e) (\<lambda>c.
                                       andthen (ovfl_set hm e (c\<lparr>ov_symnr := e'\<rparr>)) (\<lambda>hm.
                                         Inr (n, d\<lparr>hashtable := Some hm\<rparr>)))))
                            else Inr (undef_symnr, d)))))))"

definition dict_find_hash :: "dict \<Rightarrow> string \<Rightarrow> bool \<Rightarrow> (nat \<times> dict) outcome" where
  "dict_find_hash d s upsert =
     (let hm = (case hashtable d of None \<Rightarrow> hashmap_new 0 | Some m \<Rightarrow> m);
          d = d\<lparr>hashtable := Some hm\<rparr>;
          h = hash_symbol s;
          b = h mod tbl_sz hm
      in if length (tbl hm) \<le> b then Inl Undef
         else
           andthen (find_ents d s h 0 (bkt_ent (tbl hm ! b))) (\<lambda>r.
             (case r of
                Hit symnr \<Rightarrow> Inr (symnr, d)
              | Empty i \<Rightarrow>
                  (if upsert then
                     andthen (dict_append_symbol d s) (\<lambda>(n, d).
                       let bkt = tbl hm ! b;
                           bkt = bkt\<lparr>bkt_ent := (bkt_ent bkt)[i := \<lparr>he_h = h, he_symnr = n\<rparr>]\<rparr>
                       in find_chain (d\<lparr>hashtable := Some (set_bkt hm b bkt)\<rparr>) b s upsert (Some n))
                   else Inr (undef_symnr, d))
              | Miss \<Rightarrow> find_chain d b s upsert None)))"

function find_linear_from :: "dict \<Rightarrow> string \<Rightarrow> nat \<Rightarrow> nat outcome" where
  "find_linear_from d s symnr =
     (if symnr < dict_len d then
        andthen (sv_get d symnr) (\<lambda>t.
          if strcmp s t = 0 then Inr symnr else find_linear_from d s (symnr + 1))
      else Inr undef_symnr)"
  by pat_completeness auto
termination
  by (relation "measure (\<lambda>(d, s, symnr). dict_len d - symnr)") auto

declare find_linear_from.simps [simp del]

definition dict_find_linear :: "dict \<Rightarrow> string \<Rightarrow> nat outcome" where
  "dict_find_linear d s = find_linear_from d s 1"

subsection \<open>Dumps\<close>

text \<open>A dump is the text that it prints.\<close>

function dump_symbols_from :: "dict \<Rightarrow> nat \<Rightarrow> string outcome" where
  "dump_symbols_from d symnr =
     (if symnr < dict_len d then
        andthen (sv_get d symnr) (\<lambda>s.
          andthen (dump_symbols_from d (symnr + 1)) (\<lambda>t.
            Inr (dec_width 7 symnr @ '' = ['' @ s @ '']'' @ [CHR 0x0A] @ t)))
      else Inr [])"
  by pat_completeness auto
termination
  by (relation "measure (\<lambda>(d, n). dict_len d - n)") auto

declare dump_symbols_from.simps [simp del]

definition dump_symbols :: "dict \<Rightarrow> string outcome" where
  "dump_symbols d = dump_symbols_from d 1"

fun dump_ents :: "hashent list \<Rightarrow> string" where
  "dump_ents [] = []"
| "dump_ents (e # es) =
     (if he_symnr e = undef_symnr then [] else '' '' @ dec_width 7 (he_symnr e) @ dump_ents es)"

definition dump_cell :: "nat \<Rightarrow> ovfl_t \<Rightarrow> string" where
  "dump_cell e c = ''['' @ dec_nat e @ '']='' @ dec_nat (ov_symnr c)"

text \<open>The walk along a chain, with the text printed so far.\<close>

partial_function (option) dump_walk :: "hashmap \<Rightarrow> nat \<Rightarrow> string \<Rightarrow> string outcome option" where
  "dump_walk hm e t =
     (case ovfl_get hm e of
        Inl h \<Rightarrow> Some (Inl h)
      | Inr c \<Rightarrow>
          (if ov_next c = undef_ovflnr then Some (Inr t)
           else
             (case ovfl_get hm (ov_next c) of
                Inl h \<Rightarrow> Some (Inl h)
              | Inr c' \<Rightarrow> dump_walk hm (ov_next c) (t @ ''->'' @ dump_cell (ov_next c) c'))))"

definition dump_chain :: "hashmap \<Rightarrow> nat \<Rightarrow> string outcome" where
  "dump_chain hm e =
     (if e = undef_ovflnr then Inr []
      else andthen (ovfl_get hm e) (\<lambda>c. ended (dump_walk hm e (''  => '' @ dump_cell e c))))"

function dump_bkts_from :: "hashmap \<Rightarrow> nat \<Rightarrow> string outcome" where
  "dump_bkts_from hm b =
     (if b < tbl_sz hm then
        (if length (tbl hm) \<le> b then Inl Undef
         else
           andthen (dump_chain hm (bkt_chain (tbl hm ! b))) (\<lambda>c.
             andthen (dump_bkts_from hm (b + 1)) (\<lambda>t.
               Inr (dec_width 7 b @ '') '' @ dump_ents (bkt_ent (tbl hm ! b)) @ c @ [CHR 0x0A] @ t))))
      else Inr [])"
  by pat_completeness auto
termination
  by (relation "measure (\<lambda>(hm, b). tbl_sz hm - b)") auto

declare dump_bkts_from.simps [simp del]

definition dump_dict_hashtable :: "dict \<Rightarrow> string outcome" where
  "dump_dict_hashtable d =
     (case hashtable d of
        None \<Rightarrow> Inr (''No hash table.'' @ [CHR 0x0A])
      | Some hm \<Rightarrow> dump_bkts_from hm 0)"

subsection \<open>Both searches\<close>

text \<open>What \<open>dict_find\<close> prints before it aborts.\<close>

definition mismatch :: "dict \<Rightarrow> string \<Rightarrow> nat \<Rightarrow> nat \<Rightarrow> string outcome" where
  "mismatch d s hsymnr lsymnr =
     andthen (dump_dict_hashtable d) (\<lambda>ht. andthen (dump_symbols d) (\<lambda>syms.
       Inr (''Error: hsymnr='' @ dec_nat hsymnr @ '', lsymnr='' @ dec_nat lsymnr @ '', s=['' @ s
              @ '']'' @ [CHR 0x0A] @ ht @ [CHR 0x0A] @ ''Symbols'' @ [CHR 0x0A] @ ''-------''
              @ [CHR 0x0A] @ syms)))"

definition dict_find :: "dict \<Rightarrow> string \<Rightarrow> (nat \<times> dict) outcome" where
  "dict_find d s =
     (if config_use_hashtable then
        (let d = (case hashtable d of None \<Rightarrow> d\<lparr>hashtable := Some (hashmap_new 0)\<rparr> | Some _ \<Rightarrow> d)
         in andthen (dict_find_hash d s False) (\<lambda>(hsymnr, d).
              andthen (dict_find_linear d s) (\<lambda>lsymnr.
                if hsymnr \<noteq> lsymnr
                then andthen (mismatch d s hsymnr lsymnr) (\<lambda>t. Inl (Abort t))
                else Inr (hsymnr, d))))
      else andthen (dict_find_linear d s) (\<lambda>n. Inr (n, d)))"

definition dict_getname_str :: "dict \<Rightarrow> string \<Rightarrow> (string option \<times> dict) outcome" where
  "dict_getname_str d s =
     andthen (dict_find d s) (\<lambda>(pos, d).
       andthen (dict_getname_nr d pos) (\<lambda>name. Inr (name, d)))"

definition dict_add :: "dict \<Rightarrow> string \<Rightarrow> (nat \<times> dict) outcome" where
  "dict_add d s =
     andthen (dict_find d s) (\<lambda>(symnr, d).
       andthen (if symnr = undef_symnr then dict_append_symbol d s else Inr (symnr, d))
         (\<lambda>(symnr, d).
            if config_use_hashtable then
              andthen (dict_symnr_add_hash d symnr) (\<lambda>d. Inr (symnr, d))
            else Inr (symnr, d)))"

lemmas dict_consts =
  undef_symnr_def dict_segment_size_def config_hashmap_init_size_def
  HASHMAP_SET_ASSOCIATIVITY_def OVFL_SEGMENT_SIZE_def config_use_hashtable_def undef_ovflnr_def

end
