(* ===== verification/Interfaces.thy ===== *)
theory Interfaces
  imports Base "HOL-Library.Multiset"
begin

text \<open>
  The interfaces between the components, as locales. \<open>char_source\<close> is what the source scanner
  asks of its reader: \<open>getc\<close> delivers the pending characters one by one and \<open>EOF\<close> after the
  last, \<open>ungetc\<close> puts one back. Its lemma \<open>loop_spec\<close> gives the meaning of every loop
  \<open>while ((c = getc()) != EOF && P(c)) body\<close> of the scanner at once.
\<close>

section \<open>A source of characters\<close>

definition first :: "int list \<Rightarrow> int" where
  "first cs = (case cs of [] \<Rightarrow> EOF | c # _ \<Rightarrow> c)"

lemma first_simps [simp]: "first [] = EOF" "first (c # cs) = c"
  by (simp_all add: first_def)

text \<open>A loop body over a list, stopping at the first failure.\<close>

fun foldo :: "('s \<Rightarrow> 'a \<Rightarrow> 's outcome) \<Rightarrow> 's \<Rightarrow> 'a list \<Rightarrow> 's outcome" where
  "foldo f s [] = Inr s"
| "foldo f s (x # xs) = andthen (f s x) (\<lambda>s'. foldo f s' xs)"

lemma foldo_append: "foldo f s (xs @ ys) = andthen (foldo f s xs) (\<lambda>s'. foldo f s' ys)"
proof (induction xs arbitrary: s)
  case Nil
  then show ?case by simp
next
  case (Cons x xs)
  then show ?case by (cases "f s x") auto
qed

lemma foldo_pure: "(\<And>s x. f s x = Inr (g s x)) \<Longrightarrow> foldo f s xs = Inr (foldl g s xs)"
  by (induction xs arbitrary: s) auto

locale char_source =
  fixes getc :: "'r \<Rightarrow> (int \<times> 'r) outcome"
    and ungetc :: "int \<Rightarrow> 'r \<Rightarrow> 'r outcome"
    and pending :: "'r \<Rightarrow> int list"
    and ok :: "'r \<Rightarrow> bool"
    and settled :: "'r \<Rightarrow> bool"
  assumes getc: "ok r \<Longrightarrow>
      \<exists>r'. getc r = Inr (first (pending r), r') \<and> pending r' = tl (pending r) \<and> ok r' \<and> settled r'"
    and ungetc: "ok r \<Longrightarrow> settled r \<Longrightarrow> c \<noteq> EOF \<Longrightarrow>
      \<exists>r'. ungetc c r = Inr r' \<and> pending r' = c # pending r \<and> ok r'"
    and no_EOF: "ok r \<Longrightarrow> EOF \<notin> set (pending r)"
begin

lemma getc_ungetc:
  assumes "ok r" and "settled r" and "c \<noteq> EOF"
  shows "\<exists>r'. andthen (ungetc c r) getc = Inr (c, r') \<and> pending r' = pending r \<and> ok r' \<and> settled r'"
proof -
  from ungetc [OF assms] obtain r1 where "ungetc c r = Inr r1" "pending r1 = c # pending r" "ok r1"
    by blast
  then show ?thesis using getc [of r1] by auto
qed

text \<open>
  A loop that reads while \<open>P\<close> holds, with a body \<open>step\<close> on its variables: it runs the body
  over the longest prefix of the pending characters that satisfies \<open>P\<close>, and ends having read
  one character more.
\<close>

lemma loop_spec:
  assumes eq: "\<And>r s. f r s = andthen (getc r)
      (\<lambda>(c, r'). if c \<noteq> EOF \<and> P c then andthen (step s c) (f r') else Inr (c, s, r'))"
    and ok: "ok r"
  shows "case foldo step s (takeWhile P (pending r)) of
      Inl h \<Rightarrow> f r s = Inl h
    | Inr s' \<Rightarrow> \<exists>r'. f r s = Inr (first (dropWhile P (pending r)), s', r') \<and>
        pending r' = tl (dropWhile P (pending r)) \<and> ok r' \<and> settled r'"
  using ok
proof (induction "pending r" arbitrary: r s)
  case Nil
  from getc [OF Nil.prems] obtain r' where "getc r = Inr (first (pending r), r')"
    "pending r' = tl (pending r)" "ok r'" "settled r'"
    by blast
  with Nil.hyps [symmetric] show ?case by (simp add: eq [of r])
next
  case (Cons c cs)
  from getc [OF Cons.prems] obtain r' where r': "getc r = Inr (c, r')"
    "pending r' = cs" "ok r'" "settled r'"
    by (auto simp: Cons.hyps(2) [symmetric])
  have c: "c \<noteq> EOF"
    using no_EOF [OF Cons.prems] by (auto simp: Cons.hyps(2) [symmetric])
  show ?case
  proof (cases "P c")
    case False
    with r' show ?thesis by (simp add: eq [of r] Cons.hyps(2) [symmetric])
  next
    case True
    show ?thesis
    proof (cases "step s c")
      case (Inl h)
      with True c r'(1) show ?thesis by (simp add: eq [of r] Cons.hyps(2) [symmetric])
    next
      case (Inr s1)
      with True c r'(1) have "f r s = f r' s1" by (simp add: eq [of r])
      moreover have "takeWhile P (pending r) = c # takeWhile P (pending r')"
        and "dropWhile P (pending r) = dropWhile P (pending r')"
        using True r'(2) by (simp_all add: Cons.hyps(2) [symmetric])
      ultimately show ?thesis
        using Cons.hyps(1) [of r' s1] r' Inr by (auto split: sum.splits)
    qed
  qed
qed

corollary loop_returns:
  assumes eq: "\<And>r s. f r s = andthen (getc r)
      (\<lambda>(c, r'). if c \<noteq> EOF \<and> P c then andthen (step s c) (f r') else Inr (c, s, r'))"
    and ok: "ok r" and run: "foldo step s (takeWhile P (pending r)) = Inr s'"
  obtains r' where "f r s = Inr (first (dropWhile P (pending r)), s', r')"
    "pending r' = tl (dropWhile P (pending r))" "ok r'" "settled r'"
  using loop_spec [OF eq ok, of s] run that by auto

end

section \<open>A symbol table\<close>

text \<open>
  The symbol number of a string in a list of names: its position counted from 1, and 0 for a
  string that is not in the list.
\<close>

fun position :: "'a list \<Rightarrow> 'a \<Rightarrow> nat \<Rightarrow> nat" where
  "position [] x k = 0"
| "position (y # ys) x k = (if y = x then k else position ys x (Suc k))"

definition symnr_of :: "'a list \<Rightarrow> 'a \<Rightarrow> nat" where
  "symnr_of xs x = position xs x 1"

lemma position_notin: "x \<notin> set xs \<Longrightarrow> position xs x k = 0"
  by (induction xs arbitrary: k) auto

lemma position_in:
  "x \<in> set xs \<Longrightarrow> k \<le> position xs x k \<and> position xs x k - k < length xs \<and>
     xs ! (position xs x k - k) = x"
proof (induction xs arbitrary: k)
  case Nil
  then show ?case by simp
next
  case (Cons y ys)
  show ?case
  proof (cases "y = x")
    case True
    then show ?thesis by simp
  next
    case False
    with Cons have "Suc k \<le> position ys x (Suc k)" "position ys x (Suc k) - Suc k < length ys"
      "ys ! (position ys x (Suc k) - Suc k) = x"
      by auto
    with False show ?thesis
      by (simp add: nth_Cons split: nat.split) (metis Suc_diff_Suc Suc_le_lessD diff_Suc_Suc nat.inject)
  qed
qed

lemma symnr_of_notin [simp]: "x \<notin> set xs \<Longrightarrow> symnr_of xs x = 0"
  by (simp add: symnr_of_def position_notin)

lemma symnr_of_in:
  assumes "x \<in> set xs"
  shows "0 < symnr_of xs x" "symnr_of xs x \<le> length xs" "xs ! (symnr_of xs x - 1) = x"
  using position_in [OF assms, of 1] by (auto simp: symnr_of_def)

lemma symnr_of_le: "symnr_of xs x \<le> length xs"
  by (cases "x \<in> set xs") (simp_all add: symnr_of_in)

lemma symnr_of_eq_0: "symnr_of xs x = 0 \<longleftrightarrow> x \<notin> set xs"
  using symnr_of_in(1) [of x xs] by auto

lemma symnr_of_nth:
  assumes "distinct xs" "i < length xs"
  shows "symnr_of xs (xs ! i) = Suc i"
proof -
  have x: "xs ! i \<in> set xs" using assms(2) by simp
  with assms symnr_of_in [OF x] have "symnr_of xs (xs ! i) - 1 = i"
    by (metis nth_eq_iff_index_eq One_nat_def Suc_pred le_imp_less_Suc not_less_eq less_Suc_eq_le)
  with symnr_of_in(1) [OF x] show ?thesis by simp
qed

lemma position_append:
  "position (xs @ ys) x k = (if x \<in> set xs then position xs x k else position ys x (k + length xs))"
  by (induction xs arbitrary: k) auto

lemma symnr_of_append [simp]:
  "x \<in> set xs \<Longrightarrow> symnr_of (xs @ ys) x = symnr_of xs x"
  "x \<notin> set xs \<Longrightarrow> symnr_of (xs @ [x]) x = Suc (length xs)"
  by (simp_all add: symnr_of_def position_append)

text \<open>The names after a sequence of additions: first occurrences, in order.\<close>

fun insert_all :: "string list \<Rightarrow> string list \<Rightarrow> string list" where
  "insert_all ns [] = ns"
| "insert_all ns (s # ss) = insert_all (if s \<in> set ns then ns else ns @ [s]) ss"

text \<open>
  What the rest of the program relies on: a table hands out the numbers 1, 2, 3, \<open>\<dots>\<close> to the
  distinct strings added to it, in the order of their first addition, never changes a number,
  and gives the string of a number back; 0 is the number of no string.
\<close>

locale symtab =
  fixes new :: 'd
    and find :: "'d \<Rightarrow> string \<Rightarrow> (nat \<times> 'd) outcome"
    and add :: "'d \<Rightarrow> string \<Rightarrow> (nat \<times> 'd) outcome"
    and name :: "'d \<Rightarrow> nat \<Rightarrow> string option outcome"
    and names :: "'d \<Rightarrow> string list"
    and inv :: "'d \<Rightarrow> bool"
  assumes inv_new: "inv new" and names_new: "names new = []"
    and distinct_names: "inv d \<Longrightarrow> distinct (names d)"
    and cstring_names: "inv d \<Longrightarrow> list_all cstring (names d)"
    and find_spec: "inv d \<Longrightarrow> cstring s \<Longrightarrow>
      \<exists>d'. find d s = Inr (symnr_of (names d) s, d') \<and> inv d' \<and> names d' = names d"
    and add_spec: "inv d \<Longrightarrow> cstring s \<Longrightarrow>
      \<exists>d'. add d s = Inr (symnr_of (names d') s, d') \<and> inv d' \<and>
        names d' = (if s \<in> set (names d) then names d else names d @ [s])"
    and name_spec: "inv d \<Longrightarrow> i \<le> length (names d) \<Longrightarrow>
      name d i = Inr (if i = 0 then None else Some (names d ! (i - 1)))"
begin

text \<open>A string that has been added is found under its number, and the number gives it back.\<close>

lemma add_lookup:
  assumes "inv d" and "cstring s"
  shows "\<exists>n d'. add d s = Inr (n, d') \<and> inv d' \<and> 0 < n \<and> n \<le> length (names d') \<and>
    name d' n = Inr (Some s) \<and> (\<exists>d''. find d' s = Inr (n, d'') \<and> names d'' = names d')"
proof -
  from add_spec [OF assms] obtain d' where d': "add d s = Inr (symnr_of (names d') s, d')"
    "inv d'" "s \<in> set (names d')"
    by force
  moreover from find_spec [OF d'(2) assms(2)] obtain d'' where
    "find d' s = Inr (symnr_of (names d') s, d'')" "names d'' = names d'"
    by blast
  ultimately show ?thesis
    using symnr_of_in [OF d'(3)] by (auto simp: name_spec [OF d'(2)])
qed

text \<open>Numbers are stable: adding strings never changes the string of a number given out.\<close>

lemma add_stable:
  assumes "inv d" and "cstring s" and "name d i = Inr (Some x)" and "i \<le> length (names d)"
    and "add d s = Inr (n, d')"
  shows "name d' i = Inr (Some x)"
proof -
  from add_spec [OF assms(1,2)] assms(5) have "inv d'"
    "names d' = (if s \<in> set (names d) then names d else names d @ [s])"
    by auto
  with assms(1,3,4) show ?thesis
    by (auto simp: name_spec nth_append split: if_splits)
qed

lemma add_all:
  assumes "inv d" and "list_all cstring ss"
  shows "\<exists>d'. foldo (\<lambda>d s. andthen (add d s) (\<lambda>(n, d'). Inr d')) d ss = Inr d' \<and> inv d' \<and>
    names d' = insert_all (names d) ss"
  using assms
proof (induction ss arbitrary: d)
  case Nil
  then show ?case by simp
next
  case (Cons s ss)
  then obtain d1 where "add d s = Inr (symnr_of (names d1) s, d1)" "inv d1"
    "names d1 = (if s \<in> set (names d) then names d else names d @ [s])"
    using add_spec [of d s] by auto
  with Cons.IH [of d1] Cons.prems show ?case by simp
qed

end

section \<open>Sorting\<close>

text \<open>
  \<open>qsort\<close> of the C library, with a comparison function that may fail. The C standard fixes
  neither the algorithm nor the order of equal elements; the model inserts from the right, and
  \<open>sorted_unique\<close> says in which sense the result does not depend on that choice.
\<close>

fun qinsert :: "('a \<Rightarrow> 'a \<Rightarrow> int outcome) \<Rightarrow> 'a \<Rightarrow> 'a list \<Rightarrow> 'a list outcome" where
  "qinsert cmp x [] = Inr [x]"
| "qinsert cmp x (y # ys) =
     andthen (cmp x y) (\<lambda>c.
       if c \<le> 0 then Inr (x # y # ys) else andthen (qinsert cmp x ys) (\<lambda>zs. Inr (y # zs)))"

fun c_qsort :: "('a \<Rightarrow> 'a \<Rightarrow> int outcome) \<Rightarrow> 'a list \<Rightarrow> 'a list outcome" where
  "c_qsort cmp [] = Inr []"
| "c_qsort cmp (x # xs) = andthen (c_qsort cmp xs) (qinsert cmp x)"

text \<open>
  The contract of a comparison function: on the elements a state \<open>s\<close> admits it returns, and
  what it returns is the comparison of their keys in a linear order.
\<close>

locale comparator =
  fixes cmp :: "'s \<Rightarrow> 'a \<Rightarrow> 'a \<Rightarrow> int outcome"
    and ok :: "'s \<Rightarrow> 'a \<Rightarrow> bool"
    and key :: "'s \<Rightarrow> 'a \<Rightarrow> 'k :: linorder"
  assumes returns: "ok s x \<Longrightarrow> ok s y \<Longrightarrow> \<exists>c. cmp s x y = Inr c \<and> (c \<le> 0 \<longleftrightarrow> key s x \<le> key s y)"
begin

lemma insert_sorted:
  assumes "ok s x" and "list_all (ok s) ys" and "sorted (map (key s) ys)"
  shows "\<exists>zs. qinsert (cmp s) x ys = Inr zs \<and> mset zs = add_mset x (mset ys) \<and>
    sorted (map (key s) zs)"
  using assms(2,3)
proof (induction ys)
  case Nil
  then show ?case by simp
next
  case (Cons y ys)
  from returns [OF assms(1), of y] Cons.prems(1) obtain c where
    c: "cmp s x y = Inr c" "c \<le> 0 \<longleftrightarrow> key s x \<le> key s y"
    by auto
  show ?case
  proof (cases "c \<le> 0")
    case True
    with c Cons.prems(2) show ?thesis by (auto intro: order_trans)
  next
    case False
    from Cons obtain zs where zs: "qinsert (cmp s) x ys = Inr zs"
      "mset zs = add_mset x (mset ys)" "sorted (map (key s) zs)"
      by auto
    have "set zs = insert x (set ys)" using arg_cong [OF zs(2), of set_mset] by simp
    with False c Cons.prems(2) zs show ?thesis by auto
  qed
qed

lemma sort_sorted:
  assumes "list_all (ok s) xs"
  shows "\<exists>ys. c_qsort (cmp s) xs = Inr ys \<and> mset ys = mset xs \<and> sorted (map (key s) ys)"
  using assms
proof (induction xs)
  case Nil
  then show ?case by simp
next
  case (Cons x xs)
  then obtain ys where ys: "c_qsort (cmp s) xs = Inr ys" "mset ys = mset xs"
    "sorted (map (key s) ys)"
    by auto
  have "list_all (ok s) ys"
    using Cons.prems arg_cong [OF ys(2), of set_mset] by (simp add: list_all_iff)
  with insert_sorted [of s x ys] ys Cons.prems show ?case by auto
qed

text \<open>Two sorted permutations have the same keys at the same places.\<close>

lemma sorted_unique:
  assumes "mset ys = mset zs" and "sorted (map (key s) ys)" and "sorted (map (key s) zs)"
  shows "map (key s) ys = map (key s) zs"
proof -
  have "mset (map (key s) ys) = mset (map (key s) zs)" using assms(1) by simp
  then have "sort (map (key s) ys) = sort (map (key s) zs)"
    by (metis properties_for_sort sorted_sort mset_sort)
  with assms(2,3) show ?thesis by (simp add: sorted_sort_id)
qed

end

end
