(* ===== verification/DictInv.thy ===== *)
theory DictInv
  imports Dict Interfaces
begin

text \<open>
  The parts of the dictionary. \<open>vec_rep\<close> describes the segmented vector as one list of names;
  \<open>ovfl_rep\<close> and \<open>chain_is\<close> describe the overflow cells of the hash table as a list and the
  chains through them as lists of cell numbers, along which every walk ends.
\<close>

section \<open>The symbol vector as one list\<close>

lemma concat_uniform:
  assumes "\<forall>e \<in> set xss. length e = n" and "i < length xss * n"
  shows "concat xss ! i = xss ! (i div n) ! (i mod n)"
    and "(concat xss)[i := x] = concat (xss[i div n := (xss ! (i div n))[i mod n := x]])"
proof -
  have "concat xss ! i = xss ! (i div n) ! (i mod n) \<and>
    (concat xss)[i := x] = concat (xss[i div n := (xss ! (i div n))[i mod n := x]])"
    using assms
  proof (induction xss arbitrary: i)
    case Nil
    then show ?case by simp
  next
    case (Cons e xss)
    then have n: "0 < n" "length e = n" by auto
    show ?case
    proof (cases "i < n")
      case True
      with n show ?thesis by (simp add: nth_append list_update_append)
    next
      case False
      with Cons.prems have "i - n < length xss * n" by auto
      with Cons have IH: "concat xss ! (i - n) = xss ! ((i - n) div n) ! ((i - n) mod n)"
        "(concat xss)[i - n := x] =
           concat (xss[(i - n) div n := (xss ! ((i - n) div n))[(i - n) mod n := x]])"
        by auto
      have "i div n = Suc ((i - n) div n)" "i mod n = (i - n) mod n"
        using n False by (simp_all add: le_div_geq le_mod_geq)
      with IH n False show ?thesis by (simp add: nth_append list_update_append)
    qed
  qed
  then show "concat xss ! i = xss ! (i div n) ! (i mod n)"
    and "(concat xss)[i := x] = concat (xss[i div n := (xss ! (i div n))[i mod n := x]])"
    by simp_all
qed

lemma length_concat_uniform:
  "\<forall>e \<in> set xss. length e = n \<Longrightarrow> length (concat xss) = length xss * n"
  by (induction xss) auto

definition vec_rep :: "dict \<Rightarrow> string list \<Rightarrow> bool" where
  "vec_rep d names \<longleftrightarrow>
     dict_len d = Suc (length names) \<and>
     (\<forall>e \<in> set (dict_sv d). length e = dict_segment_size) \<and>
     dict_sz d = length (dict_sv d) * dict_segment_size \<and>
     arr_rep (concat (dict_sv d)) (sym_poison # names) (dict_sz d)"

lemma vec_repD:
  assumes "vec_rep d names"
  shows "dict_len d = Suc (length names)"
    and "\<forall>e \<in> set (dict_sv d). length e = dict_segment_size"
    and "dict_sz d = length (dict_sv d) * dict_segment_size"
    and "arr_rep (concat (dict_sv d)) (sym_poison # names) (dict_sz d)"
  using assms unfolding vec_rep_def by blast+

lemma vec_rep_table [simp]: "vec_rep (d\<lparr>hashtable := t\<rparr>) names = vec_rep d names"
  by (simp add: vec_rep_def)

lemma dict_segment_size_pos [simp]: "0 < dict_segment_size"
  by (simp add: dict_segment_size_def)

lemma vec_rep_new: "vec_rep dict_new []"
  by (simp add: vec_rep_def dict_new_def arr_rep_def arr_new_def replicate_None_update
      dict_segment_size_def)

lemma seg_off: "i - i div dict_segment_size * dict_segment_size = i mod dict_segment_size"
  by (rule minus_div_mult_eq_mod)

lemma vec_cell:
  assumes "vec_rep d names" and "i < dict_sz d"
  shows "i div dict_segment_size < length (dict_sv d)"
    and "i mod dict_segment_size < length (dict_sv d ! (i div dict_segment_size))"
    and "dict_sv d ! (i div dict_segment_size) ! (i mod dict_segment_size) = concat (dict_sv d) ! i"
proof -
  show 1: "i div dict_segment_size < length (dict_sv d)"
    using assms by (simp add: vec_rep_def less_mult_imp_div_less)
  then have "dict_sv d ! (i div dict_segment_size) \<in> set (dict_sv d)" by simp
  with assms(1) show "i mod dict_segment_size < length (dict_sv d ! (i div dict_segment_size))"
    by (simp add: vec_rep_def)
  show "dict_sv d ! (i div dict_segment_size) ! (i mod dict_segment_size) = concat (dict_sv d) ! i"
    using concat_uniform(1) [OF vec_repD(2) [OF assms(1)], of i] assms(2) vec_repD(3) [OF assms(1)]
    by simp
qed

lemma sv_get_name:
  assumes "vec_rep d names" and "i \<le> length names"
  shows "sv_get d i = Inr ((sym_poison # names) ! i)"
proof -
  note rep = vec_repD(4) [OF assms(1)]
  with assms(2) have i: "i < dict_sz d" by (simp add: arr_rep_def)
  have "arr_get (dict_sv d ! (i div dict_segment_size)) (i mod dict_segment_size)
      = arr_get (concat (dict_sv d)) i"
    using vec_cell [OF assms(1) i] i arr_rep_length [OF rep] by (simp add: arr_get_def)
  also have "\<dots> = Inr ((sym_poison # names) ! i)"
    using arr_rep_get [OF rep] assms(2) by simp
  finally show ?thesis
    using vec_cell(1) [OF assms(1) i] by (simp add: sv_get_def seg_off)
qed

lemma getname_name:
  assumes "vec_rep d names" and "i \<le> length names"
  shows "dict_getname_nr d i = Inr (if i = 0 then None else Some (names ! (i - 1)))"
proof -
  from assms have "i < dict_sz d" by (auto simp: vec_rep_def arr_rep_def)
  from vec_cell(1) [OF assms(1) this] show ?thesis
    using sv_get_name [OF assms] by (simp add: dict_getname_nr_def undef_symnr_def nth_Cons')
qed

lemma vec_rep_grow:
  assumes "vec_rep d names"
  shows "vec_rep (dict_grow d) names" and "dict_sz (dict_grow d) = dict_sz d + dict_segment_size"
proof -
  have n: "dict_sz d div dict_segment_size = length (dict_sv d)"
    using assms by (simp add: vec_rep_def)
  then show "dict_sz (dict_grow d) = dict_sz d + dict_segment_size"
    by (simp add: dict_grow_def)
  show "vec_rep (dict_grow d) names"
    using assms n arr_rep_grow [of "concat (dict_sv d)" "sym_poison # names" "dict_sz d" dict_segment_size]
    by (auto simp: vec_rep_def dict_grow_def arr_new_def)
qed

lemma append_symbol_room:
  assumes rep: "vec_rep d names" and room: "dict_len d < dict_sz d"
  shows "\<exists>d'. dict_append_symbol d s = Inr (Suc (length names), d') \<and>
    vec_rep d' (names @ [s]) \<and> hashtable d' = hashtable d"
proof -
  let ?i = "Suc (length names)"
  note len = vec_repD(1) [OF rep] and uni = vec_repD(2) [OF rep] and sz = vec_repD(3) [OF rep]
    and arr = vec_repD(4) [OF rep]
  from room len have i: "?i < dict_sz d" by simp
  let ?seg = "?i div dict_segment_size" and ?off = "?i mod dict_segment_size"
  let ?sv = "(dict_sv d)[?seg := (dict_sv d ! ?seg)[?off := Some s]]"
  let ?d' = "d\<lparr>dict_sv := ?sv, dict_len := Suc ?i\<rparr>"
  have "dict_append_symbol d s = Inr (?i, ?d')"
    using vec_cell(1,2) [OF rep i] len i
    by (simp add: dict_append_symbol_def Let_def seg_off arr_set_def)
  moreover have "vec_rep ?d' (names @ [s])"
  proof -
    have "concat ?sv = (concat (dict_sv d))[?i := Some s]"
      using concat_uniform(2) [OF uni, of ?i "Some s"] i sz by simp
    moreover have "arr_rep ((concat (dict_sv d))[?i := Some s]) (sym_poison # names @ [s]) (dict_sz d)"
      using arr_rep_push(2) [OF arr, of s] i by simp
    moreover have "\<forall>e \<in> set ?sv. length e = dict_segment_size"
      using uni vec_cell(1) [OF rep i]
      by (metis in_set_conv_nth length_list_update nth_list_update_eq nth_list_update_neq)
    ultimately show ?thesis using sz by (simp add: vec_rep_def)
  qed
  ultimately show ?thesis by simp
qed

lemma append_symbol:
  assumes rep: "vec_rep d names"
  shows "\<exists>d'. dict_append_symbol d s = Inr (Suc (length names), d') \<and>
    vec_rep d' (names @ [s]) \<and> hashtable d' = hashtable d"
proof (cases "dict_sz d \<le> dict_len d")
  case False
  with append_symbol_room [OF rep] show ?thesis by simp
next
  case True
  have grown: "dict_len (dict_grow d) = dict_len d" "hashtable (dict_grow d) = hashtable d"
    by (simp_all add: dict_grow_def Let_def)
  have room: "dict_len (dict_grow d) < dict_sz (dict_grow d)"
    using vec_rep_grow(2) [OF rep] vec_repD(1,4) [OF rep] grown(1) dict_segment_size_pos
    by (simp add: arr_rep_def del: dict_segment_size_pos)
  then have "dict_append_symbol d s = dict_append_symbol (dict_grow d) s"
    using True grown(1) by (simp add: dict_append_symbol_def)
  with append_symbol_room [OF vec_rep_grow(1) [OF rep] room, of s] grown(2) show ?thesis by simp
qed

section \<open>Overflow cells and chains\<close>

definition ovfl_rep :: "hashmap \<Rightarrow> ovfl_t list \<Rightarrow> bool" where
  "ovfl_rep hm os \<longleftrightarrow>
     (case ovfl hm of
        None \<Rightarrow> os = []
      | Some a \<Rightarrow> os \<noteq> [] \<and> ovfl_len hm = Some (length os) \<and> arr_rep a os (ovfl_sz hm))"

text \<open>The cells of a chain that starts at cell number \<open>c\<close>; 0 ends it.\<close>

fun chain_is :: "ovfl_t list \<Rightarrow> nat \<Rightarrow> nat list \<Rightarrow> bool" where
  "chain_is os c [] \<longleftrightarrow> c = 0"
| "chain_is os c (i # is) \<longleftrightarrow> c = i \<and> 0 < i \<and> i < length os \<and> chain_is os (ov_next (os ! i)) is"

lemma ovfl_rep_get: "ovfl_rep hm os \<Longrightarrow> i < length os \<Longrightarrow> ovfl_get hm i = Inr (os ! i)"
  by (auto simp: ovfl_rep_def ovfl_get_def arr_rep_get split: option.splits)

lemma ovfl_rep_set:
  assumes "ovfl_rep hm os" and "i < length os"
  shows "\<exists>hm'. ovfl_set hm i x = Inr hm' \<and> ovfl_rep hm' (os[i := x]) \<and> tbl hm' = tbl hm \<and>
    tbl_sz hm' = tbl_sz hm"
proof -
  from assms obtain a where a: "ovfl hm = Some a" "ovfl_len hm = Some (length os)"
    "arr_rep a os (ovfl_sz hm)" "os \<noteq> []"
    by (auto simp: ovfl_rep_def split: option.splits)
  with arr_rep_set [OF a(3) assms(2), of x] show ?thesis
    by (simp add: ovfl_set_def ovfl_rep_def)
qed

text \<open>The cells once the reserved cell 0 exists.\<close>

definition with_reserved :: "ovfl_t list \<Rightarrow> ovfl_t list" where
  "with_reserved os = (if os = [] then [\<lparr>ov_symnr = undef_symnr, ov_next = undef_ovflnr\<rparr>] else os)"

lemma with_reserved_length: "0 < length (with_reserved os)" "length os \<le> length (with_reserved os)"
  by (simp_all add: with_reserved_def)

lemma with_reserved_nth: "i < length os \<Longrightarrow> with_reserved os ! i = os ! i"
  by (auto simp: with_reserved_def)

lemma ovfl_reserve_rep:
  assumes "ovfl_rep hm os"
  shows "\<exists>hm' a. ovfl_reserve hm = Inr hm' \<and> ovfl_rep hm' (with_reserved os) \<and>
    ovfl hm' = Some a \<and> length (with_reserved os) < ovfl_sz hm' \<and> tbl hm' = tbl hm \<and>
    tbl_sz hm' = tbl_sz hm"
proof (cases "ovfl hm")
  case None
  then show ?thesis
    using assms
    by (auto simp: ovfl_rep_def ovfl_reserve_def with_reserved_def OVFL_SEGMENT_SIZE_def
        arr_rep_def arr_new_def replicate_None_update)
next
  case (Some a)
  with assms have "os \<noteq> []" "ovfl_len hm = Some (length os)" "arr_rep a os (ovfl_sz hm)"
    by (auto simp: ovfl_rep_def)
  with Some arr_rep_grow [of a os "ovfl_sz hm" OVFL_SEGMENT_SIZE] show ?thesis
    by (auto simp: ovfl_rep_def ovfl_reserve_def with_reserved_def OVFL_SEGMENT_SIZE_def arr_rep_def)
qed

lemma append_ovfl_rep:
  assumes "ovfl_rep hm os"
  shows "\<exists>hm'. append_ovfl hm n = Inr (length (with_reserved os), hm') \<and>
    ovfl_rep hm' (with_reserved os @ [\<lparr>ov_symnr = n, ov_next = undef_ovflnr\<rparr>]) \<and>
    tbl hm' = tbl hm \<and> tbl_sz hm' = tbl_sz hm"
proof -
  from ovfl_reserve_rep [OF assms] obtain hm1 a where hm1: "ovfl_reserve hm = Inr hm1"
    "ovfl_rep hm1 (with_reserved os)" "ovfl hm1 = Some a"
    "length (with_reserved os) < ovfl_sz hm1" "tbl hm1 = tbl hm" "tbl_sz hm1 = tbl_sz hm"
    by blast
  then have l: "ovfl_len hm1 = Some (length (with_reserved os))"
    and a: "arr_rep a (with_reserved os) (ovfl_sz hm1)"
    by (auto simp: ovfl_rep_def)
  from arr_rep_push [OF a hm1(4), of "\<lparr>ov_symnr = n, ov_next = undef_ovflnr\<rparr>"] hm1 l
  show ?thesis by (simp add: append_ovfl_def ovfl_set_def ovfl_rep_def)
qed

lemma chain_is_bounds: "chain_is os c is \<Longrightarrow> i \<in> set is \<Longrightarrow> 0 < i \<and> i < length os"
  by (induction "is" arbitrary: c) auto

lemma chain_is_frame:
  "chain_is os c is \<Longrightarrow> length os \<le> length os' \<Longrightarrow> (\<And>i. i \<in> set is \<Longrightarrow> os' ! i = os ! i) \<Longrightarrow>
   chain_is os' c is"
  by (induction "is" arbitrary: c) auto

text \<open>Linking a new last cell to a chain.\<close>

lemma chain_is_link:
  assumes "chain_is os c is" and "is \<noteq> []" and "distinct is"
    and "length os \<le> k" and "k < length os'" and "ov_next (os' ! k) = 0"
    and "ov_next (os' ! last is) = k" and "\<And>i. i \<in> set (butlast is) \<Longrightarrow> os' ! i = os ! i"
  shows "chain_is os' c (is @ [k])"
  using assms
proof (induction "is" arbitrary: c)
  case Nil
  then show ?case by simp
next
  case (Cons i "is")
  show ?case
  proof (cases "is = []")
    case True
    with Cons.prems show ?thesis by auto
  next
    case False
    with Cons.prems have "chain_is os' (ov_next (os ! i)) (is @ [k])"
      by (intro Cons.IH) auto
    moreover have "os' ! i = os ! i" using Cons.prems(8) False by simp
    ultimately show ?thesis using Cons.prems by auto
  qed
qed

text \<open>The walks along a chain return, with the first matching cell or the last cell.\<close>

lemma add_walk_chain:
  assumes "ovfl_rep hm os"
  shows "chain_is os e (e # is) \<Longrightarrow>
    add_walk hm n e = Some (Inr (if n \<in> (\<lambda>i. ov_symnr (os ! i)) ` set is
      then Found n else Last (last (e # is))))"
proof (induction "is" arbitrary: e)
  case Nil
  then show ?case using ovfl_rep_get [OF assms, of e] by (simp add: add_walk.simps undef_ovflnr_def)
next
  case (Cons i "is")
  then have "ovfl_get hm e = Inr (os ! e)" "ov_next (os ! e) = i" "0 < i"
    "ovfl_get hm i = Inr (os ! i)"
    using ovfl_rep_get [OF assms] by auto
  with Cons show ?case by (subst add_walk.simps) (auto simp: undef_ovflnr_def)
qed

lemma find_walk_chain:
  assumes rep: "ovfl_rep hm os" and vec: "vec_rep d names"
  shows "chain_is os e (e # is) \<Longrightarrow>
    (\<And>i. i \<in> set is \<Longrightarrow> 0 < ov_symnr (os ! i) \<and> ov_symnr (os ! i) \<le> length names) \<Longrightarrow>
    cstring s \<Longrightarrow> list_all cstring names \<Longrightarrow>
    find_walk d hm s e =
      Some (Inr (case find (\<lambda>n. names ! (n - 1) = s) (map (\<lambda>i. ov_symnr (os ! i)) is) of
          Some n \<Rightarrow> Found n
        | None \<Rightarrow> Last (last (e # is))))"
proof (induction "is" arbitrary: e)
  case Nil
  then show ?case using ovfl_rep_get [OF rep, of e] by (simp add: find_walk.simps undef_ovflnr_def)
next
  case (Cons i "is")
  let ?n = "ov_symnr (os ! i)"
  from Cons.prems(1) have g: "ovfl_get hm e = Inr (os ! e)" "ov_next (os ! e) = i" "0 < i"
    "ovfl_get hm i = Inr (os ! i)"
    using ovfl_rep_get [OF rep] by auto
  from Cons.prems(2) [of i] have n: "0 < ?n" "?n \<le> length names" by auto
  then have "cstring (names ! (?n - 1))"
    using Cons.prems(4) by (auto simp: list_all_length)
  with Cons.prems(3) have "strcmp s (names ! (?n - 1)) = 0 \<longleftrightarrow> names ! (?n - 1) = s"
    by (auto simp: strcmp_eq_0)
  then have "ovfl_match d hm s i = Inr (names ! (?n - 1) = s, ?n)"
    using g n getname_name [OF vec n(2)] by (simp add: ovfl_match_def)
  moreover have "last (e # i # is) = last (i # is)" by simp
  ultimately show ?case
    using g Cons.IH [of i] Cons.prems
    by (subst find_walk.simps) (simp add: undef_ovflnr_def del: last.simps split: option.split)
qed

end
