(* ===== verification/DictTable.thy ===== *)
theory DictTable
  imports DictInv
begin

text \<open>
  The dictionary as a whole. \<open>map_ok\<close> describes the hash table as the set of symbol numbers it
  holds, each in the bucket of its name's hash, and \<open>dict_inv\<close> joins it with the vector of
  names. Every operation keeps the invariant and meets the interface \<open>symtab\<close>; in particular
  the two searches of \<open>dict_find\<close> always agree, so that its \<open>abort\<close> is not reachable.
\<close>

section \<open>Buckets\<close>

text \<open>The symbol numbers in a bucket, in the order the code looks at them.\<close>

definition bkt_syms :: "ovfl_t list \<Rightarrow> hashbkt \<Rightarrow> nat list \<Rightarrow> nat list" where
  "bkt_syms os bkt P =
     filter (\<lambda>n. n \<noteq> 0) (map he_symnr (bkt_ent bkt)) @ map (\<lambda>i. ov_symnr (os ! i)) P"

text \<open>
  A bucket: two entries filled from the left, a chain only behind full entries, the hash of the
  name in each entry, and together exactly the numbers \<open>S\<close> allots to it.
\<close>

definition bucket_ok :: "string list \<Rightarrow> nat set \<Rightarrow> ovfl_t list \<Rightarrow> hashbkt \<Rightarrow> nat list \<Rightarrow> bool" where
  "bucket_ok names S os bkt P \<longleftrightarrow>
     (\<exists>e0 e1. bkt_ent bkt = [e0, e1] \<and> (he_symnr e0 = 0 \<longrightarrow> he_symnr e1 = 0) \<and>
        (he_symnr e1 = 0 \<longrightarrow> P = [])) \<and>
     (\<forall>e \<in> set (bkt_ent bkt). he_symnr e \<noteq> 0 \<longrightarrow>
        he_h e = hash_symbol (names ! (he_symnr e - 1))) \<and>
     chain_is os (bkt_chain bkt) P \<and> distinct P \<and> set (bkt_syms os bkt P) = S"

lemma bucket_okE:
  assumes "bucket_ok names S os bkt P"
  obtains e0 e1 where "bkt_ent bkt = [e0, e1]"
    "he_symnr e0 = 0 \<longrightarrow> he_symnr e1 = 0" "he_symnr e1 = 0 \<longrightarrow> P = []"
    "he_symnr e0 \<noteq> 0 \<longrightarrow> he_h e0 = hash_symbol (names ! (he_symnr e0 - 1))"
    "he_symnr e1 \<noteq> 0 \<longrightarrow> he_h e1 = hash_symbol (names ! (he_symnr e1 - 1))"
    "chain_is os (bkt_chain bkt) P" "distinct P" "set (bkt_syms os bkt P) = S"
proof -
  from conjunct1 [OF assms [unfolded bucket_ok_def]]
  obtain e0 e1 where e: "bkt_ent bkt = [e0, e1]"
    "he_symnr e0 = 0 \<longrightarrow> he_symnr e1 = 0" "he_symnr e1 = 0 \<longrightarrow> P = []"
    by (elim exE conjE) (rule that)
  from assms have r: "chain_is os (bkt_chain bkt) P" "distinct P" "set (bkt_syms os bkt P) = S"
    and h: "\<forall>e \<in> set (bkt_ent bkt). he_symnr e \<noteq> 0 \<longrightarrow>
        he_h e = hash_symbol (names ! (he_symnr e - 1))"
    unfolding bucket_ok_def by blast+
  from h have "he_symnr e0 \<noteq> 0 \<longrightarrow> he_h e0 = hash_symbol (names ! (he_symnr e0 - 1))"
    "he_symnr e1 \<noteq> 0 \<longrightarrow> he_h e1 = hash_symbol (names ! (he_symnr e1 - 1))"
    unfolding e(1) by (meson list.set_intros)+
  with e r show ?thesis by (intro that [of e0 e1])
qed

lemma bucket_okI:
  assumes "bkt_ent bkt = [e0, e1]"
    "he_symnr e0 = 0 \<Longrightarrow> he_symnr e1 = 0" "he_symnr e1 = 0 \<Longrightarrow> P = []"
    "he_symnr e0 \<noteq> 0 \<Longrightarrow> he_h e0 = hash_symbol (names ! (he_symnr e0 - 1))"
    "he_symnr e1 \<noteq> 0 \<Longrightarrow> he_h e1 = hash_symbol (names ! (he_symnr e1 - 1))"
    "chain_is os (bkt_chain bkt) P" "distinct P" "set (bkt_syms os bkt P) = S"
  shows "bucket_ok names S os bkt P"
  unfolding bucket_ok_def using assms by simp

definition home :: "string list \<Rightarrow> nat \<Rightarrow> nat \<Rightarrow> nat" where
  "home names n i = hash_symbol (names ! (i - 1)) mod n"

definition map_ok :: "string list \<Rightarrow> nat set \<Rightarrow> hashmap \<Rightarrow> ovfl_t list \<Rightarrow> (nat \<Rightarrow> nat list) \<Rightarrow> bool" where
  "map_ok names S hm os P \<longleftrightarrow>
     ovfl_rep hm os \<and> tbl_sz hm = length (tbl hm) \<and> 0 < length (tbl hm) \<and>
     (\<forall>b < length (tbl hm).
        bucket_ok names {i \<in> S. home names (length (tbl hm)) i = b} os (tbl hm ! b) (P b)) \<and>
     (\<forall>b < length (tbl hm). \<forall>b' < length (tbl hm). b \<noteq> b' \<longrightarrow> set (P b) \<inter> set (P b') = {})"

lemma map_okD:
  assumes "map_ok names S hm os P"
  shows "ovfl_rep hm os" "tbl_sz hm = length (tbl hm)" "0 < length (tbl hm)"
    and "b < length (tbl hm) \<Longrightarrow>
      bucket_ok names {i \<in> S. home names (length (tbl hm)) i = b} os (tbl hm ! b) (P b)"
    and "b < length (tbl hm) \<Longrightarrow> b' < length (tbl hm) \<Longrightarrow> b \<noteq> b' \<Longrightarrow> set (P b) \<inter> set (P b') = {}"
  using assms unfolding map_ok_def by blast+

lemma map_ok_new: "map_ok names {} (hashmap_new 0) [] (\<lambda>_. [])"
  by (auto simp: map_ok_def bucket_ok_def hashmap_new_def ovfl_rep_def bkt_syms_def dict_consts
      numeral_2_eq_2)

text \<open>A bucket does not notice changes of cells outside its chain.\<close>

lemma bucket_ok_frame:
  assumes "bucket_ok names S os bkt P" and "length os \<le> length os'"
    and "\<And>i. i \<in> set P \<Longrightarrow> os' ! i = os ! i"
  shows "bucket_ok names S os' bkt P"
proof -
  have "bkt_syms os' bkt P = bkt_syms os bkt P"
    using assms(3) by (simp add: bkt_syms_def)
  moreover from assms(1) have "chain_is os' (bkt_chain bkt) P"
    using chain_is_frame [OF _ assms(2,3)] unfolding bucket_ok_def by blast
  ultimately show ?thesis
    using assms(1) unfolding bucket_ok_def by simp
qed

lemma bucket_ok_names:
  assumes "bucket_ok names S os bkt P" and "\<forall>i \<in> S. i \<le> length names"
  shows "bucket_ok (names @ ns) S os bkt P"
proof -
  have "names ! (he_symnr e - 1) = (names @ ns) ! (he_symnr e - 1)"
    if "e \<in> set (bkt_ent bkt)" "he_symnr e \<noteq> 0" for e
  proof -
    from that have "he_symnr e \<in> set (bkt_syms os bkt P)" by (auto simp: bkt_syms_def)
    with assms have "he_symnr e \<in> S" by (simp add: bucket_ok_def)
    with assms(2) that(2) have "he_symnr e - 1 < length names"
      by (metis Suc_pred' gr0I less_eq_Suc_le)
    then show ?thesis by (simp add: nth_append)
  qed
  with assms(1) show ?thesis unfolding bucket_ok_def by simp
qed

lemma home_append:
  "0 < i \<Longrightarrow> i \<le> length names \<Longrightarrow> home (names @ ns) n i = home names n i"
  by (simp add: home_def nth_append)

lemma map_ok_names:
  assumes "map_ok names S hm os P" and S: "S \<subseteq> {1..length names}"
  shows "map_ok (names @ ns) S hm os P"
proof -
  have "home (names @ ns) n i = home names n i" if "i \<in> S" for i n
    using S that by (intro home_append) auto
  then have same: "{i \<in> S. home (names @ ns) n i = b} = {i \<in> S. home names n i = b}" for n b
    by auto
  have "bucket_ok (names @ ns) {i \<in> S. home names (length (tbl hm)) i = b} os (tbl hm ! b) (P b)"
    if "b < length (tbl hm)" for b
    by (rule bucket_ok_names [OF map_okD(4) [OF assms(1) that]]) (use S in auto)
  with assms(1) show ?thesis unfolding map_ok_def same by blast
qed

section \<open>Adding a number to its bucket\<close>

lemma bucket_ents_added:
  assumes ok: "bucket_ok names S os bkt P" and i: "0 < i"
    and h: "h = hash_symbol (names ! (i - 1))"
    and added: "add_ents h i (bkt_ent bkt) = Some es"
  shows "bucket_ok names (insert i S) os (bkt\<lparr>bkt_ent := es\<rparr>) P"
  using ok
proof (rule bucket_okE)
  fix e0 e1
  assume b: "bkt_ent bkt = [e0, e1]" "he_symnr e0 = 0 \<longrightarrow> he_symnr e1 = 0"
    "he_symnr e1 = 0 \<longrightarrow> P = []"
    "he_symnr e0 \<noteq> 0 \<longrightarrow> he_h e0 = hash_symbol (names ! (he_symnr e0 - 1))"
    "he_symnr e1 \<noteq> 0 \<longrightarrow> he_h e1 = hash_symbol (names ! (he_symnr e1 - 1))"
    "chain_is os (bkt_chain bkt) P" "distinct P" "set (bkt_syms os bkt P) = S"
  let ?new = "\<lparr>he_h = h, he_symnr = i\<rparr>"
  from added b(1) consider
      "he_symnr e0 = 0" "es = [?new, e1]"
    | "he_symnr e0 \<noteq> 0" "he_symnr e1 = 0" "es = [e0, ?new]"
    | "i \<in> {he_symnr e0, he_symnr e1}" "es = [e0, e1]" "he_symnr e0 \<noteq> 0"
    by (auto simp: undef_symnr_def split: if_splits)
  then show ?thesis
  proof cases
    case 1
    with b i h show ?thesis
      by (intro bucket_okI [where ?e0.0 = ?new and ?e1.0 = e1]) (auto simp: bkt_syms_def)
  next
    case 2
    with b i h show ?thesis
      by (intro bucket_okI [where ?e0.0 = e0 and ?e1.0 = ?new]) (auto simp: bkt_syms_def)
  next
    case 3
    with b i h show ?thesis
      by (intro bucket_okI [where ?e0.0 = e0 and ?e1.0 = e1]) (auto simp: bkt_syms_def)
  qed
qed

lemma bucket_full:
  assumes ok: "bucket_ok names S os bkt P" and full: "add_ents h i (bkt_ent bkt) = None"
  shows "\<exists>e0 e1. bkt_ent bkt = [e0, e1] \<and> he_symnr e0 \<noteq> 0 \<and> he_symnr e1 \<noteq> 0 \<and>
    he_symnr e0 \<noteq> i \<and> he_symnr e1 \<noteq> i"
  using assms by (auto simp: bucket_ok_def undef_symnr_def split: if_splits)

text \<open>A full bucket takes a new cell \<open>k\<close> at the end of its chain.\<close>

lemma bucket_linked:
  assumes ok: "bucket_ok names S os bkt P" and full: "add_ents h i (bkt_ent bkt) = None"
    and k: "length os \<le> k" "k < length os'" "0 < k"
    and cell: "ov_next (os' ! k) = 0" "ov_symnr (os' ! k) = i"
    and last: "P \<noteq> [] \<Longrightarrow> os' ! last P = (os ! last P)\<lparr>ov_next := k\<rparr>"
    and rest: "\<And>j. j \<in> set (butlast P) \<Longrightarrow> os' ! j = os ! j"
    and chain: "c = (if P = [] then k else bkt_chain bkt)"
  shows "bucket_ok names (insert i S) os' (bkt\<lparr>bkt_chain := c\<rparr>) (P @ [k])"
proof -
  from ok have ch: "chain_is os (bkt_chain bkt) P" and d: "distinct P"
    by (simp_all add: bucket_ok_def)
  have bounds: "j < length os" if "j \<in> set P" for j
    using chain_is_bounds [OF ch that] by simp
  have "chain_is os' c (P @ [k])"
  proof (cases "P = []")
    case True
    with chain k cell show ?thesis by simp
  next
    case False
    then show ?thesis
      using chain_is_link [OF ch False d k(1,2) cell(1) _ rest] last chain by simp
  qed
  moreover have "distinct (P @ [k])"
    using d bounds k(1) by fastforce
  moreover have "set (bkt_syms os' (bkt\<lparr>bkt_chain := c\<rparr>) (P @ [k])) = insert i S"
  proof -
    have "ov_symnr (os' ! j) = ov_symnr (os ! j)" if j: "j \<in> set P" for j
    proof (cases "j = List.last P")
      case True
      have "P \<noteq> []" using j by auto
      with last True show ?thesis by simp
    next
      case False
      with j have "j \<in> set (butlast P)"
        by (cases P rule: rev_cases) auto
      with rest show ?thesis by simp
    qed
    then have "map (\<lambda>i. ov_symnr (os' ! i)) P = map (\<lambda>i. ov_symnr (os ! i)) P" by simp
    with ok cell(2) show ?thesis by (auto simp: bucket_ok_def bkt_syms_def)
  qed
  moreover obtain e0 e1 where "bkt_ent bkt = [e0, e1]" "he_symnr e0 \<noteq> 0" "he_symnr e1 \<noteq> 0"
    using bucket_full [OF ok full] by blast
  moreover from ok have "\<forall>e \<in> set (bkt_ent bkt). he_symnr e \<noteq> 0 \<longrightarrow>
      he_h e = hash_symbol (names ! (he_symnr e - 1))"
    unfolding bucket_ok_def by blast
  ultimately show ?thesis
    unfolding bucket_ok_def by simp
qed

lemma set_bkt_simps [simp]:
  "ovfl_rep (set_bkt hm b bkt) os = ovfl_rep hm os"
  "tbl (set_bkt hm b bkt) = (tbl hm)[b := bkt]" "tbl_sz (set_bkt hm b bkt) = tbl_sz hm"
  by (simp_all add: ovfl_rep_def set_bkt_def split: option.split)

text \<open>The table after one bucket and its chain have changed.\<close>

lemma map_ok_update:
  assumes ok: "map_ok names S hm os P" and b: "b < length (tbl hm)"
    and home: "home names (length (tbl hm)) i = b"
    and hm': "ovfl_rep hm' os'" "tbl hm' = (tbl hm)[b := bkt]" "tbl_sz hm' = tbl_sz hm"
    and bkt: "bucket_ok names (insert i {j \<in> S. home names (length (tbl hm)) j = b}) os' bkt Q"
    and len: "length os \<le> length os'"
    and frame: "\<And>b' j. b' < length (tbl hm) \<Longrightarrow> b' \<noteq> b \<Longrightarrow> j \<in> set (P b') \<Longrightarrow>
      os' ! j = os ! j \<and> j \<notin> set Q"
  shows "map_ok names (insert i S) hm' os' (P(b := Q))"
proof -
  let ?n = "length (tbl hm)"
  have n: "length (tbl hm') = ?n" using hm'(2) by simp
  have "bucket_ok names {j \<in> insert i S. home names ?n j = b'} os' (tbl hm' ! b') ((P(b := Q)) b')"
    if b': "b' < ?n" for b'
  proof (cases "b' = b")
    case True
    have "{j \<in> insert i S. home names ?n j = b} = insert i {j \<in> S. home names ?n j = b}"
      using home by auto
    with bkt True b hm'(2) show ?thesis by simp
  next
    case False
    have "{j \<in> insert i S. home names ?n j = b'} = {j \<in> S. home names ?n j = b'}"
      using home False by auto
    moreover have "bucket_ok names {j \<in> S. home names ?n j = b'} os' (tbl hm ! b') (P b')"
      by (rule bucket_ok_frame [OF map_okD(4) [OF ok b'] len]) (use frame [OF b' False] in blast)
    ultimately show ?thesis using False hm'(2) by simp
  qed
  moreover have "set ((P(b := Q)) b1) \<inter> set ((P(b := Q)) b2) = {}"
    if b12: "b1 < ?n" "b2 < ?n" "b1 \<noteq> b2" for b1 b2
  proof -
    have Q: "set (P b') \<inter> set Q = {}" if "b' < ?n" "b' \<noteq> b" for b'
      using frame [OF that] by blast
    consider "b1 = b" "b2 \<noteq> b" | "b1 \<noteq> b" "b2 = b" | "b1 \<noteq> b" "b2 \<noteq> b"
      using b12(3) by blast
    then show ?thesis
    proof cases
      case 1
      with Q [OF b12(2)] show ?thesis by (simp add: Int_commute)
    next
      case 2
      with Q [OF b12(1)] show ?thesis by simp
    next
      case 3
      with map_okD(5) [OF ok b12] show ?thesis by simp
    qed
  qed
  ultimately show ?thesis
    unfolding map_ok_def n using hm'(1,3) map_okD(2,3) [OF ok] by (intro conjI allI impI) simp_all
qed

lemma in_bucket_in:
  assumes "map_ok names S hm os P" and "b < length (tbl hm)"
    and "i \<in> set (bkt_syms os (tbl hm ! b) (P b))"
  shows "i \<in> S"
  using map_okD(4) [OF assms(1,2)] assms(3) unfolding bucket_ok_def by blast

lemma add_chain_ok:
  assumes ok: "map_ok names S hm os P" and b: "b < length (tbl hm)"
    and home: "home names (length (tbl hm)) i = b" and i: "0 < i"
    and full: "add_ents h i (bkt_ent (tbl hm ! b)) = None"
  shows "\<exists>hm' os' P'. add_chain hm b i = Inr hm' \<and> map_ok names (insert i S) hm' os' P'"
proof -
  let ?bkt = "tbl hm ! b"
  let ?cell = "\<lparr>ov_symnr = i, ov_next = undef_ovflnr\<rparr>"
  let ?os = "with_reserved os"
  note rep = map_okD(1) [OF ok] and bok = map_okD(4) [OF ok b]
  have ch: "chain_is os (bkt_chain ?bkt) (P b)" and dP: "distinct (P b)"
    using bok unfolding bucket_ok_def by blast+
  have bounds: "j < length os" if "b' < length (tbl hm)" "j \<in> set (P b')" for b' j
    using map_okD(4) [OF ok that(1)] chain_is_bounds that(2) unfolding bucket_ok_def by blast
  from append_ovfl_rep [OF rep] obtain hm1 where
    hm1: "append_ovfl hm i = Inr (length ?os, hm1)" "ovfl_rep hm1 (?os @ [?cell])"
      "tbl hm1 = tbl hm" "tbl_sz hm1 = tbl_sz hm"
    by blast
  have k: "0 < length ?os" "length os \<le> length ?os" by (rule with_reserved_length)+
  show ?thesis
  proof (cases "P b")
    case Nil
    with ch have c: "bkt_chain ?bkt = 0" by simp
    let ?hm = "set_bkt hm1 b (?bkt\<lparr>bkt_chain := length ?os\<rparr>)"
    have "add_chain hm b i = Inr ?hm"
      using c hm1(1) by (simp add: add_chain_def undef_ovflnr_def)
    moreover have "map_ok names (insert i S) ?hm (?os @ [?cell]) (P(b := P b @ [length ?os]))"
    proof (rule map_ok_update [OF ok b home])
      show "bucket_ok names (insert i {j \<in> S. home names (length (tbl hm)) j = b}) (?os @ [?cell])
          (?bkt\<lparr>bkt_chain := length ?os\<rparr>) (P b @ [length ?os])"
        using k Nil by (intro bucket_linked [OF bok full]) (simp_all add: undef_ovflnr_def)
      show "(?os @ [?cell]) ! j = os ! j \<and> j \<notin> set (P b @ [length ?os])"
        if "b' < length (tbl hm)" "b' \<noteq> b" "j \<in> set (P b')" for b' j
        using bounds [OF that(1,3)] k Nil by (simp add: nth_append with_reserved_nth)
    qed (use hm1 k in simp_all)
    ultimately show ?thesis by blast
  next
    case (Cons e "is")
    with ch have c: "bkt_chain ?bkt = e" "0 < e" "e < length os" "chain_is os e (e # is)"
      by auto
    have os: "?os = os" using c(3) by (auto simp: with_reserved_def)
    have get: "ovfl_get hm e = Inr (os ! e)" by (rule ovfl_rep_get [OF rep c(3)])
    show ?thesis
    proof (cases "i \<in> (\<lambda>j. ov_symnr (os ! j)) ` set (e # is)")
      case True
      then have "i \<in> set (bkt_syms os ?bkt (P b))" using Cons by (auto simp: bkt_syms_def)
      then have "insert i S = S" using in_bucket_in [OF ok b] by auto
      moreover have "add_chain hm b i = Inr hm"
        using True c(1,2) get add_walk_chain [OF rep c(4), of i]
        by (auto simp: add_chain_def undef_ovflnr_def)
      ultimately show ?thesis using ok by auto
    next
      case False
      let ?l = "last (e # is)"
      have l: "?l \<in> set (P b)" "?l < length os" using Cons bounds [OF b] by (metis last_in_set list.discI)+
      have l1: "(os @ [?cell]) ! ?l = os ! ?l" using l(2) by (simp add: nth_append)
      let ?os' = "(os @ [?cell])[?l := (os ! ?l)\<lparr>ov_next := length os\<rparr>]"
      have g1: "ovfl_get hm1 ?l = Inr (os ! ?l)"
        using ovfl_rep_get [OF hm1(2), of ?l] l(2) os l1 by simp
      obtain hm2 where hm2: "ovfl_set hm1 ?l ((os ! ?l)\<lparr>ov_next := length os\<rparr>) = Inr hm2"
        "ovfl_rep hm2 ?os'" "tbl hm2 = tbl hm" "tbl_sz hm2 = tbl_sz hm"
        using ovfl_rep_set [OF hm1(2), of ?l] l(2) os hm1(3,4) by auto
      have "add_chain hm b i = Inr hm2"
        using False c(1,2) get add_walk_chain [OF rep c(4), of i] hm1(1) os g1 hm2(1)
        by (auto simp: add_chain_def undef_ovflnr_def)
      moreover have "map_ok names (insert i S) hm2 ?os' (P(b := P b @ [length os]))"
      proof (rule map_ok_update [OF ok b home])
        have "bucket_ok names (insert i {j \<in> S. home names (length (tbl hm)) j = b}) ?os'
            (?bkt\<lparr>bkt_chain := bkt_chain ?bkt\<rparr>) (P b @ [length os])"
        proof (rule bucket_linked [OF bok full])
          show "?os' ! j = os ! j" if "j \<in> set (butlast (P b))" for j
          proof -
            have "j \<noteq> ?l" "j \<in> set (P b)"
              using that dP Cons
              by (metis append_butlast_last_id distinct_butlast list.discI not_distinct_conv_prefix
                  in_set_butlastD)+
            then show ?thesis using bounds [OF b, of j] by (simp add: nth_append)
          qed
        qed (use Cons l c k os in \<open>auto simp: undef_ovflnr_def nth_append\<close>)
        then show "bucket_ok names (insert i {j \<in> S. home names (length (tbl hm)) j = b}) ?os' ?bkt
            (P b @ [length os])"
          by simp
        show "?os' ! j = os ! j \<and> j \<notin> set (P b @ [length os])"
          if "b' < length (tbl hm)" "b' \<noteq> b" "j \<in> set (P b')" for b' j
        proof -
          have "j \<notin> set (P b)" using map_okD(5) [OF ok that(1) b that(2)] that(3) by auto
          then have "j \<noteq> ?l" using l(1) by auto
          then show ?thesis
            using \<open>j \<notin> set (P b)\<close> bounds [OF that(1,3)] by (simp add: nth_append)
        qed
      qed (use hm2 in \<open>simp_all add: list_update_id\<close>)
      ultimately show ?thesis by blast
    qed
  qed
qed

end
