(* ===== verification/DictSpec.thy ===== *)
theory DictSpec
  imports DictTable
begin

text \<open>
  The dictionary meets the interface \<open>symtab\<close>. \<open>dict_names\<close> is the abstraction: the strings
  of a dictionary in the order of their symbol numbers. The two searches of \<open>dict_find\<close> are
  both shown to return the position of the string in that list, so they agree and the
  \<open>abort\<close> between them is never reached; every walk along a chain ends.
\<close>

definition dict_names :: "dict \<Rightarrow> string list" where
  "dict_names d = map the (take (dict_len d - 1) (drop 1 (concat (dict_sv d))))"

definition dict_inv :: "dict \<Rightarrow> bool" where
  "dict_inv d \<longleftrightarrow>
     vec_rep d (dict_names d) \<and> distinct (dict_names d) \<and> list_all cstring (dict_names d) \<and>
     (case hashtable d of
        None \<Rightarrow> dict_names d = []
      | Some hm \<Rightarrow> \<exists>os P. map_ok (dict_names d) {1..length (dict_names d)} hm os P)"

lemma dict_names_rep: "vec_rep d names \<Longrightarrow> dict_names d = names"
  using vec_repD(1,4) [of d names] by (auto simp: dict_names_def arr_rep_def comp_def)

lemma dict_inv_new: "dict_inv dict_new" and dict_names_new: "dict_names dict_new = []"
  using vec_rep_new dict_names_rep [OF vec_rep_new]
  by (simp_all add: dict_inv_def) (simp add: dict_new_def)

section \<open>Adding to the hash table\<close>

lemma add_hash_ok:
  assumes vec: "vec_rep d names" and tab: "hashtable d = Some hm" and ok: "map_ok names S hm os P"
    and i: "0 < i" "i \<le> length names"
  shows "\<exists>hm' os' P'. dict_symnr_add_hash d i = Inr (d\<lparr>hashtable := Some hm'\<rparr>) \<and>
    map_ok names (insert i S) hm' os' P'"
proof -
  let ?s = "names ! (i - 1)"
  let ?b = "hash_symbol ?s mod length (tbl hm)"
  note rep = map_okD(1) [OF ok] and sz = map_okD(2) [OF ok] and pos = map_okD(3) [OF ok]
  have name: "dict_getname_nr d i = Inr (Some ?s)"
    using getname_name [OF vec i(2)] i(1) by simp
  have b: "?b < length (tbl hm)" using pos by simp
  have home: "home names (length (tbl hm)) i = ?b" by (simp add: home_def)
  show ?thesis
  proof (cases "add_ents (hash_symbol ?s) i (bkt_ent (tbl hm ! ?b))")
    case None
    from add_chain_ok [OF ok b home i(1) None] obtain hm' os' P' where
      "add_chain hm ?b i = Inr hm'" "map_ok names (insert i S) hm' os' P'"
      by blast
    with None tab name sz b show ?thesis by (auto simp: dict_symnr_add_hash_def Let_def)
  next
    case (Some es)
    let ?bkt = "(tbl hm ! ?b)\<lparr>bkt_ent := es\<rparr>"
    have "dict_symnr_add_hash d i = Inr (d\<lparr>hashtable := Some (set_bkt hm ?b ?bkt)\<rparr>)"
      using Some tab name sz b by (simp add: dict_symnr_add_hash_def Let_def)
    moreover have "map_ok names (insert i S) (set_bkt hm ?b ?bkt) os (P(?b := P ?b))"
    proof (rule map_ok_update [OF ok b home])
      show "bucket_ok names (insert i {j \<in> S. home names (length (tbl hm)) j = ?b}) os ?bkt (P ?b)"
        by (rule bucket_ents_added [OF map_okD(4) [OF ok b] i(1) refl Some])
      show "os ! j = os ! j \<and> j \<notin> set (P ?b)"
        if "b' < length (tbl hm)" "b' \<noteq> ?b" "j \<in> set (P b')" for b' j
        using map_okD(5) [OF ok that(1) b that(2)] that(3) by blast
    qed (use rep in simp_all)
    ultimately show ?thesis by blast
  qed
qed

section \<open>Searching\<close>

fun ents_result :: "string list \<Rightarrow> string \<Rightarrow> nat \<Rightarrow> hashent list \<Rightarrow> ent_result" where
  "ents_result names s i [] = Miss"
| "ents_result names s i (e # es) =
     (if he_symnr e = 0 then Empty i
      else if names ! (he_symnr e - 1) = s then Hit (he_symnr e)
      else ents_result names s (i + 1) es)"

lemma name_matches:
  assumes "vec_rep d names" "list_all cstring names" "cstring s" "0 < i" "i \<le> length names"
  shows "dict_getname_nr d i = Inr (Some (names ! (i - 1)))"
    and "strcmp s (names ! (i - 1)) = 0 \<longleftrightarrow> names ! (i - 1) = s"
proof -
  have "cstring (names ! (i - 1))" using assms(2,4,5) by (auto simp: list_all_length)
  with assms(3) show "strcmp s (names ! (i - 1)) = 0 \<longleftrightarrow> names ! (i - 1) = s"
    by (auto simp: strcmp_eq_0)
  show "dict_getname_nr d i = Inr (Some (names ! (i - 1)))"
    using getname_name [OF assms(1,5)] assms(4) by simp
qed

lemma find_ents_ok:
  assumes "vec_rep d names" "list_all cstring names" "cstring s"
    and "\<forall>e \<in> set es. he_symnr e \<noteq> 0 \<longrightarrow>
      he_symnr e \<le> length names \<and> he_h e = hash_symbol (names ! (he_symnr e - 1))"
  shows "find_ents d s (hash_symbol s) i es = Inr (ents_result names s i es)"
  using assms(4)
proof (induction es arbitrary: i)
  case Nil
  then show ?case by simp
next
  case (Cons e es)
  show ?case
  proof (cases "he_symnr e = 0")
    case True
    then show ?thesis by (simp add: undef_symnr_def)
  next
    case False
    with Cons.prems have "0 < he_symnr e" "he_symnr e \<le> length names"
      and h: "he_h e = hash_symbol (names ! (he_symnr e - 1))"
      by auto
    from name_matches [OF assms(1-3) this(1,2)] h False Cons show ?thesis
      by (auto simp: undef_symnr_def)
  qed
qed

text \<open>The number the code finds in a bucket that holds all the numbers of its names.\<close>

definition pick :: "string list \<Rightarrow> string \<Rightarrow> nat list \<Rightarrow> nat" where
  "pick names s ns = (case find (\<lambda>n. names ! (n - 1) = s) ns of None \<Rightarrow> 0 | Some n \<Rightarrow> n)"

lemma pick_symnr:
  assumes d: "distinct names"
    and ns: "set ns = {i \<in> {1..length names}. home names n i = hash_symbol s mod n}"
  shows "pick names s ns = symnr_of names s"
proof (cases "find (\<lambda>n. names ! (n - 1) = s) ns")
  case None
  then have none: "\<forall>i \<in> set ns. names ! (i - 1) \<noteq> s" by (auto simp: find_None_iff)
  have "s \<notin> set names"
  proof
    assume s: "s \<in> set names"
    note i = symnr_of_in [OF s]
    then have "symnr_of names s \<in> set ns" by (auto simp: ns home_def)
    with none i(3) show False by blast
  qed
  with None show ?thesis by (simp add: pick_def)
next
  case (Some i)
  then have "i \<in> set ns" "names ! (i - 1) = s"
    by (auto simp: find_Some_iff)
  then have i: "0 < i" "i - 1 < length names" "names ! (i - 1) = s" by (auto simp: ns)
  with symnr_of_nth [OF d i(2)] Some show ?thesis by (simp add: pick_def)
qed

lemma find_chain_ok:
  assumes vec: "vec_rep d names" and tab: "hashtable d = Some hm" and rep: "ovfl_rep hm os"
    and ch: "chain_is os (bkt_chain (tbl hm ! b)) P" and cs: "list_all cstring names" "cstring s"
    and syms: "\<And>i. i \<in> set P \<Longrightarrow> 0 < ov_symnr (os ! i) \<and> ov_symnr (os ! i) \<le> length names"
  shows "find_chain d b s False new = Inr (pick names s (map (\<lambda>i. ov_symnr (os ! i)) P), d)"
proof (cases P)
  case Nil
  with ch tab show ?thesis by (simp add: find_chain_def undef_ovflnr_def undef_symnr_def pick_def)
next
  case (Cons e "is")
  with ch have c: "bkt_chain (tbl hm ! b) = e" "0 < e" "e < length os" "chain_is os e (e # is)"
    by auto
  let ?n = "ov_symnr (os ! e)"
  from syms [of e] Cons have n: "0 < ?n" "?n \<le> length names" by auto
  have m: "ovfl_match d hm s e = Inr (names ! (?n - 1) = s, ?n)"
    using ovfl_rep_get [OF rep c(3)] name_matches [OF vec cs n] by (simp add: ovfl_match_def)
  have w: "find_walk d hm s e =
      Some (Inr (case find (\<lambda>n. names ! (n - 1) = s) (map (\<lambda>i. ov_symnr (os ! i)) is) of
          Some n \<Rightarrow> Found n | None \<Rightarrow> Last (last (e # is))))"
    using syms Cons by (intro find_walk_chain [OF rep vec c(4) _ cs(2,1)]) auto
  show ?thesis
    unfolding find_chain_def tab using c(1,2) m w Cons
    by (auto simp: undef_ovflnr_def undef_symnr_def pick_def split: option.split)
qed

lemma find_hash_ok:
  assumes vec: "vec_rep d names" and tab: "hashtable d = Some hm"
    and ok: "map_ok names {1..length names} hm os P" and d: "distinct names"
    and cs: "list_all cstring names" "cstring s"
  shows "dict_find_hash d s False = Inr (symnr_of names s, d)"
proof -
  let ?b = "hash_symbol s mod length (tbl hm)"
  let ?bkt = "tbl hm ! ?b"
  note rep = map_okD(1) [OF ok] and sz = map_okD(2) [OF ok] and pos = map_okD(3) [OF ok]
  have b: "?b < length (tbl hm)" using pos by simp
  from map_okD(4) [OF ok b] obtain e0 e1 where e: "bkt_ent ?bkt = [e0, e1]"
    "he_symnr e0 = 0 \<longrightarrow> he_symnr e1 = 0" "he_symnr e1 = 0 \<longrightarrow> P ?b = []"
    "he_symnr e0 \<noteq> 0 \<longrightarrow> he_h e0 = hash_symbol (names ! (he_symnr e0 - 1))"
    "he_symnr e1 \<noteq> 0 \<longrightarrow> he_h e1 = hash_symbol (names ! (he_symnr e1 - 1))"
    and ch: "chain_is os (bkt_chain ?bkt) (P ?b)" and "distinct (P ?b)"
    and syms: "set (bkt_syms os ?bkt (P ?b)) =
      {i \<in> {1..length names}. home names (length (tbl hm)) i = ?b}"
    by (rule bucket_okE)
  let ?vs = "map (\<lambda>i. ov_symnr (os ! i)) (P ?b)"
  have all: "set (bkt_syms os ?bkt (P ?b)) \<subseteq> {1..length names}" unfolding syms by blast
  have le: "he_symnr e \<le> length names" if "e \<in> {e0, e1}" for e
    using all that e(1) by (auto simp: bkt_syms_def split: if_splits)
  have f: "find_ents d s (hash_symbol s) 0 (bkt_ent ?bkt) = Inr (ents_result names s 0 [e0, e1])"
    unfolding e(1) using e(4,5) le by (intro find_ents_ok [OF vec cs]) auto
  have c: "find_chain d ?b s False None = Inr (pick names s ?vs, d)"
    using all by (intro find_chain_ok [OF vec tab rep ch cs]) (auto simp: bkt_syms_def)
  have pick: "pick names s (bkt_syms os ?bkt (P ?b)) = symnr_of names s"
    by (rule pick_symnr [OF d syms])
  have d0: "d\<lparr>hashtable := Some hm\<rparr> = d" using tab by (cases d) simp
  have "dict_find_hash d s False =
      Inr (case ents_result names s 0 [e0, e1] of Hit n \<Rightarrow> n | Empty _ \<Rightarrow> 0 | Miss \<Rightarrow> pick names s ?vs, d)"
    unfolding dict_find_hash_def Let_def tab option.case d0 sz f
    using c b by (simp add: undef_symnr_def del: ents_result.simps split: ent_result.split)
  also have "(case ents_result names s 0 [e0, e1] of Hit n \<Rightarrow> n | Empty _ \<Rightarrow> 0 | Miss \<Rightarrow> pick names s ?vs)
      = pick names s (bkt_syms os ?bkt (P ?b))"
    using e(1-3) by (auto simp: bkt_syms_def pick_def)
  finally show ?thesis using pick by simp
qed

lemma find_linear_from_ok:
  assumes vec: "vec_rep d names" and cs: "list_all cstring names" "cstring s"
  shows "k \<le> length names \<Longrightarrow>
    find_linear_from d s (Suc k) = Inr (position (drop k names) s (Suc k))"
proof (induction "length names - k" arbitrary: k)
  case 0
  then show ?case using vec_repD(1) [OF vec] by (simp add: find_linear_from.simps undef_symnr_def)
next
  case (Suc m)
  then have k: "k < length names" by simp
  have get: "sv_get d (Suc k) = Inr (names ! k)" using sv_get_name [OF vec, of "Suc k"] k by simp
  have "strcmp s (names ! k) = 0 \<longleftrightarrow> names ! k = s"
    using name_matches(2) [OF vec cs, of "Suc k"] k by simp
  moreover have "drop k names = names ! k # drop (Suc k) names"
    using k by (simp add: Cons_nth_drop_Suc)
  moreover have "find_linear_from d s (Suc (Suc k)) =
      Inr (position (drop (Suc k) names) s (Suc (Suc k)))"
    using Suc k by simp
  ultimately show ?case
    using get k vec_repD(1) [OF vec] by (subst find_linear_from.simps) simp
qed

lemma find_linear_ok:
  assumes "vec_rep d names" "list_all cstring names" "cstring s"
  shows "dict_find_linear d s = Inr (symnr_of names s)"
  using find_linear_from_ok [OF assms, of 0] by (simp add: dict_find_linear_def symnr_of_def)

section \<open>The operations meet the interface\<close>

lemma dict_inv_table:
  assumes "dict_inv d"
  obtains hm os P where
    "(case hashtable d of None \<Rightarrow> d\<lparr>hashtable := Some (hashmap_new 0)\<rparr> | Some _ \<Rightarrow> d)
       = d\<lparr>hashtable := Some hm\<rparr>"
    "map_ok (dict_names d) {1..length (dict_names d)} hm os P"
proof (cases "hashtable d")
  case None
  with assms have "dict_names d = []" by (simp add: dict_inv_def)
  with that [of "hashmap_new 0" "[]" "\<lambda>_. []"] None map_ok_new [of "[]"] show ?thesis by simp
next
  case (Some hm)
  with assms obtain os P where ok: "map_ok (dict_names d) {1..length (dict_names d)} hm os P"
    by (auto simp: dict_inv_def)
  have "d = d\<lparr>hashtable := Some hm\<rparr>" using Some by (cases d) simp
  with that [OF _ ok] Some show ?thesis by simp
qed

lemma dict_find_ok:
  assumes inv: "dict_inv d" and s: "cstring s"
  shows "\<exists>d' hm os P. dict_find d s = Inr (symnr_of (dict_names d) s, d') \<and>
    dict_inv d' \<and> dict_names d' = dict_names d \<and> vec_rep d' (dict_names d) \<and>
    hashtable d' = Some hm \<and> map_ok (dict_names d) {1..length (dict_names d)} hm os P"
proof -
  from dict_inv_table [OF inv] obtain hm os P where
    d1: "(case hashtable d of None \<Rightarrow> d\<lparr>hashtable := Some (hashmap_new 0)\<rparr> | Some _ \<Rightarrow> d)
           = d\<lparr>hashtable := Some hm\<rparr>"
    and ok: "map_ok (dict_names d) {1..length (dict_names d)} hm os P"
    by blast
  let ?d = "d\<lparr>hashtable := Some hm\<rparr>"
  from inv have r: "vec_rep d (dict_names d)" "distinct (dict_names d)"
    "list_all cstring (dict_names d)"
    by (simp_all add: dict_inv_def)
  then have vec: "vec_rep ?d (dict_names d)" by simp
  then have names: "dict_names ?d = dict_names d" by (rule dict_names_rep)
  have tab: "hashtable ?d = Some hm" by simp
  have "dict_find d s = Inr (symnr_of (dict_names d) s, ?d)"
    using find_hash_ok [OF vec tab ok r(2,3) s] find_linear_ok [OF vec r(3) s]
    by (simp add: dict_find_def d1 config_use_hashtable_def)
  moreover have "dict_inv ?d"
    using r vec ok unfolding dict_inv_def names by auto
  ultimately show ?thesis using names vec tab ok by blast
qed

lemma dict_add_ok:
  assumes inv: "dict_inv d" and s: "cstring s"
  shows "\<exists>d'. dict_add d s = Inr (symnr_of (dict_names d') s, d') \<and> dict_inv d' \<and>
    dict_names d' = (if s \<in> set (dict_names d) then dict_names d else dict_names d @ [s])"
proof -
  let ?ns = "dict_names d"
  from inv have r: "distinct ?ns" "list_all cstring ?ns" by (simp_all add: dict_inv_def)
  from dict_find_ok [OF inv s] obtain d1 hm os P where
    d1: "dict_find d s = Inr (symnr_of ?ns s, d1)" "vec_rep d1 ?ns" "hashtable d1 = Some hm"
    and ok: "map_ok ?ns {1..length ?ns} hm os P"
    by blast
  let ?ns' = "if s \<in> set ?ns then ?ns else ?ns @ [s]"
  let ?i = "symnr_of ?ns' s"
  have s': "s \<in> set ?ns'" by simp
  note i = symnr_of_in [OF s']
  obtain d2 where
    d2: "(if symnr_of ?ns s = 0 then dict_append_symbol d1 s else Inr (symnr_of ?ns s, d1))
           = Inr (?i, d2)" "vec_rep d2 ?ns'" "hashtable d2 = Some hm"
  proof (cases "s \<in> set ?ns")
    case True
    then have "symnr_of ?ns s \<noteq> 0" by (simp add: symnr_of_eq_0)
    with True d1 that [of d1] show ?thesis by simp
  next
    case False
    from append_symbol [OF d1(2), of s] obtain d' where
      "dict_append_symbol d1 s = Inr (Suc (length ?ns), d')" "vec_rep d' (?ns @ [s])"
      "hashtable d' = hashtable d1"
      by blast
    with False d1(3) that [of d'] show ?thesis by simp
  qed
  have "map_ok ?ns' {1..length ?ns} hm os P"
    using ok map_ok_names [OF ok] by simp
  from add_hash_ok [OF d2(2,3) this i(1,2)] obtain hm' os' P' where
    h: "dict_symnr_add_hash d2 ?i = Inr (d2\<lparr>hashtable := Some hm'\<rparr>)"
    and ok': "map_ok ?ns' (insert ?i {1..length ?ns}) hm' os' P'"
    by blast
  have all: "insert ?i {1..length ?ns} = {1..length ?ns'}"
    using i(1,2) by auto
  let ?d' = "d2\<lparr>hashtable := Some hm'\<rparr>"
  have vec: "vec_rep ?d' ?ns'" using d2(2) by simp
  then have names: "dict_names ?d' = ?ns'" by (rule dict_names_rep)
  have tab: "hashtable ?d' = Some hm'" by simp
  have "\<exists>os P. map_ok ?ns' {1..length ?ns'} hm' os P"
    using ok' unfolding all by blast
  then have "dict_inv ?d'"
    unfolding dict_inv_def names tab option.case using vec r s by simp
  moreover have "dict_add d s = Inr (?i, ?d')"
    using d1(1) d2(1) h by (simp add: dict_add_def undef_symnr_def config_use_hashtable_def)
  ultimately show ?thesis using names by auto
qed

interpretation dict: symtab dict_new dict_find dict_add dict_getname_nr dict_names dict_inv
proof unfold_locales
  show "dict_inv dict_new" "dict_names dict_new = []"
    by (rule dict_inv_new, rule dict_names_new)
  show "distinct (dict_names d)" "list_all cstring (dict_names d)" if "dict_inv d" for d
    using that by (simp_all add: dict_inv_def)
  show "\<exists>d'. dict_find d s = Inr (symnr_of (dict_names d) s, d') \<and> dict_inv d' \<and>
      dict_names d' = dict_names d" if "dict_inv d" "cstring s" for d s
    using dict_find_ok [OF that] by blast
  show "\<exists>d'. dict_add d s = Inr (symnr_of (dict_names d') s, d') \<and> dict_inv d' \<and>
      dict_names d' = (if s \<in> set (dict_names d) then dict_names d else dict_names d @ [s])"
    if "dict_inv d" "cstring s" for d s
    by (rule dict_add_ok [OF that])
  show "dict_getname_nr d i = Inr (if i = 0 then None else Some (dict_names d ! (i - 1)))"
    if "dict_inv d" "i \<le> length (dict_names d)" for d i
    using that by (intro getname_name) (simp_all add: dict_inv_def)
qed

section \<open>Properties\<close>

text \<open>C10: a string that has been added is found again: \<open>dict_add\<close> and \<open>dict_find\<close> give the same
  number, and \<open>dict_getname_nr\<close> gives the string back.\<close>

theorem dict_add_then_find:
  assumes "dict_inv d" and "cstring s"
  shows "\<exists>n d'. dict_add d s = Inr (n, d') \<and> dict_inv d' \<and> 0 < n \<and> n \<le> length (dict_names d') \<and>
    dict_getname_nr d' n = Inr (Some s) \<and>
    (\<exists>d''. dict_find d' s = Inr (n, d'') \<and> dict_names d'' = dict_names d')"
  by (rule dict.add_lookup [OF assms])

theorem dict_add_then_find_witness:
  "\<exists>n d'. dict_add dict_new ''abc'' = Inr (n, d') \<and> dict_inv d' \<and> 0 < n \<and> n \<le> length (dict_names d') \<and>
    dict_getname_nr d' n = Inr (Some ''abc'') \<and>
    (\<exists>d''. dict_find d' ''abc'' = Inr (n, d'') \<and> dict_names d'' = dict_names d')"
  by (rule dict_add_then_find [OF dict_inv_new]) (simp add: uc_def)

text \<open>C11: the number of a symbol never changes: after any addition it still gives its string.\<close>

theorem dict_numbers_stable:
  assumes "dict_inv d" and "cstring s" and "dict_getname_nr d i = Inr (Some x)"
    and "i \<le> length (dict_names d)" and "dict_add d s = Inr (n, d')"
  shows "dict_getname_nr d' i = Inr (Some x)"
  by (rule dict.add_stable [OF assms])

theorem dict_numbers_stable_witness:
  "\<exists>d1 d2 n. dict_add dict_new ''a'' = Inr (1, d1) \<and> dict_add d1 ''b'' = Inr (n, d2) \<and>
     dict_getname_nr d2 1 = Inr (Some ''a'')"
proof -
  from dict_add_ok [OF dict_inv_new, of "''a''"] obtain d1 where
    d1: "dict_add dict_new ''a'' = Inr (1, d1)" "dict_inv d1" "dict_names d1 = [''a'']"
    by (auto simp: dict_names_new symnr_of_def uc_def)
  from dict_add_ok [OF d1(2), of "''b''"] obtain n d2 where
    d2: "dict_add d1 ''b'' = Inr (n, d2)"
    by (auto simp: uc_def)
  have "dict_getname_nr d2 1 = Inr (Some ''a'')"
    by (rule dict_numbers_stable [OF d1(2) _ _ _ d2])
      (simp_all add: uc_def d1(3) dict.name_spec [OF d1(2)])
  with d1 d2 show ?thesis by blast
qed

text \<open>C12: after adding a list of strings to a new dictionary, the numbers 1, 2, \<open>\<dots>\<close> are those of
  the distinct strings in the order in which they were first added.\<close>

theorem dict_numbering:
  assumes "list_all cstring ss"
  shows "\<exists>d. foldo (\<lambda>d s. andthen (dict_add d s) (\<lambda>(n, d'). Inr d')) dict_new ss = Inr d \<and>
    (\<forall>i < length (insert_all [] ss).
       dict_getname_nr d (i + 1) = Inr (Some (insert_all [] ss ! i)) \<and>
       (\<exists>d'. dict_find d (insert_all [] ss ! i) = Inr (i + 1, d')))"
proof -
  from dict.add_all [OF dict_inv_new assms] obtain d where
    d: "foldo (\<lambda>d s. andthen (dict_add d s) (\<lambda>(n, d'). Inr d')) dict_new ss = Inr d" "dict_inv d"
    "dict_names d = insert_all [] ss"
    by (auto simp: dict_names_new)
  have "\<exists>d'. dict_find d (insert_all [] ss ! i) = Inr (i + 1, d')"
    if i: "i < length (insert_all [] ss)" for i
  proof -
    have "cstring (dict_names d ! i)"
      using dict.cstring_names [OF d(2)] i d(3) by (simp add: list_all_length)
    from dict.find_spec [OF d(2) this] symnr_of_nth [OF dict.distinct_names [OF d(2)], of i] i d(3)
    show ?thesis by auto
  qed
  with d show ?thesis by (auto simp: dict.name_spec)
qed

theorem dict_numbering_witness:
  "\<exists>d. foldo (\<lambda>d s. andthen (dict_add d s) (\<lambda>(n, d'). Inr d')) dict_new [''b'', ''a'', ''b''] = Inr d \<and>
    (\<forall>i < length (insert_all [] [''b'', ''a'', ''b'']).
       dict_getname_nr d (i + 1) = Inr (Some (insert_all [] [''b'', ''a'', ''b''] ! i)) \<and>
       (\<exists>d'. dict_find d (insert_all [] [''b'', ''a'', ''b''] ! i) = Inr (i + 1, d')))"
  by (rule dict_numbering) (simp add: uc_def)

text \<open>C9: the hash table is only a faster search: on every string \<open>dict_find\<close> returns what the
  linear search over all symbols returns, the unknown strings included.\<close>

theorem dict_find_is_linear_search:
  assumes "dict_inv d" and "cstring s"
  shows "\<exists>n d'. dict_find d s = Inr (n, d') \<and> dict_find_linear d s = Inr n \<and>
    (n = undef_symnr \<longleftrightarrow> s \<notin> set (dict_names d)) \<and> dict_inv d' \<and> dict_names d' = dict_names d"
proof -
  from assms(1) have "vec_rep d (dict_names d)" "distinct (dict_names d)"
    "list_all cstring (dict_names d)"
    by (simp_all add: dict_inv_def)
  with dict.find_spec [OF assms] find_linear_ok assms(2) show ?thesis
    by (fastforce simp: symnr_of_eq_0 undef_symnr_def)
qed

theorem dict_find_is_linear_search_witness:
  "\<exists>n d'. dict_find dict_new ''x'' = Inr (n, d') \<and> dict_find_linear dict_new ''x'' = Inr n \<and>
    (n = undef_symnr \<longleftrightarrow> ''x'' \<notin> set (dict_names dict_new)) \<and> dict_inv d' \<and>
    dict_names d' = dict_names dict_new"
  by (rule dict_find_is_linear_search [OF dict_inv_new]) (simp add: uc_def)

end
