(* ===== verification/DictDump.thy ===== *)
theory DictDump
  imports DictSpec
begin

text \<open>
  The rest of src/libincbot/dict.c: the rebuilding of the hash table (\<open>hashmap_delete\<close>,
  \<open>dict_rehash_all\<close>), which is compiled only with \<open>USE_REHASH\<close>, and what the dumps show. On a valid dictionary the dumps return, chains included; rebuilding has
  undefined behaviour on every dictionary that has a hash table.
\<close>

section \<open>Rebuilding the hash table\<close>

text \<open>\<open>hashmap_delete\<close> frees the two arrays of a table; the freed table is not used again.\<close>

fun rehash_ents :: "dict \<Rightarrow> hashent list \<Rightarrow> dict outcome" where
  "rehash_ents d [] = Inr d"
| "rehash_ents d (e # es) = andthen (dict_symnr_add_hash d (he_symnr e)) (\<lambda>d. rehash_ents d es)"

function rehash_from :: "hashmap \<Rightarrow> nat \<Rightarrow> dict \<Rightarrow> dict outcome" where
  "rehash_from oldmap b d =
     (if b \<le> tbl_sz oldmap then
        (if length (tbl oldmap) \<le> b then Inl Undef
         else andthen (rehash_ents d (bkt_ent (tbl oldmap ! b))) (rehash_from oldmap (b + 1)))
      else Inr d)"
  by pat_completeness auto
termination
  by (relation "measure (\<lambda>(hm, b, d). Suc (tbl_sz hm) - b)") auto

declare rehash_from.simps [simp del]

definition dict_rehash_all :: "dict \<Rightarrow> nat \<Rightarrow> dict outcome" where
  "dict_rehash_all d n =
     (let d' = d\<lparr>hashtable := Some (hashmap_new n)\<rparr>
      in case hashtable d of
           None \<Rightarrow> Inr d'
         | Some oldmap \<Rightarrow> rehash_from oldmap 0 d')"

section \<open>The dumps return\<close>

definition symbol_line :: "nat \<Rightarrow> string \<Rightarrow> string" where
  "symbol_line n s = dec_width 7 n @ '' = ['' @ s @ '']'' @ [CHR 0x0A]"

lemma dump_symbols_from_ok:
  assumes "vec_rep d names"
  shows "dump_symbols_from d (Suc k) =
    Inr (concat (map (\<lambda>i. symbol_line (Suc i) (names ! i)) [k..<length names]))"
proof (induction "length names - k" arbitrary: k)
  case 0
  with vec_repD [OF assms] show ?case
    by (simp add: dump_symbols_from.simps [of d])
next
  case (Suc n)
  then have k: "k < length names" by simp
  from Suc.hyps(1) [of "Suc k"] Suc.hyps(2) have "dump_symbols_from d (Suc (Suc k)) =
      Inr (concat (map (\<lambda>i. symbol_line (Suc i) (names ! i)) [Suc k..<length names]))"
    by simp
  with k vec_repD [OF assms] sv_get_name [OF assms, of "Suc k"] show ?case
    by (simp add: dump_symbols_from.simps [of d "Suc k"] upt_conv_Cons symbol_line_def)
qed

lemma dump_walk_chain:
  assumes "ovfl_rep hm os"
  shows "chain_is os e (e # is) \<Longrightarrow>
    dump_walk hm e t = Some (Inr (t @ concat (map (\<lambda>i. ''->'' @ dump_cell i (os ! i)) is)))"
proof (induction "is" arbitrary: e t)
  case Nil
  then show ?case using ovfl_rep_get [OF assms, of e] by (simp add: dump_walk.simps undef_ovflnr_def)
next
  case (Cons i "is")
  then have "ovfl_get hm e = Inr (os ! e)" "ov_next (os ! e) = i" "0 < i"
    "ovfl_get hm i = Inr (os ! i)"
    using ovfl_rep_get [OF assms] by auto
  with Cons show ?case by (subst dump_walk.simps) (auto simp: undef_ovflnr_def)
qed

text \<open>
  How a bucket is to be shown, apart from the loops that print it: its number, the numbers of the
  symbols in its entries, and the cells of its chain, each with its own number and that of its
  symbol.
\<close>

definition inline_numbers :: "hashbkt \<Rightarrow> nat list" where
  "inline_numbers bkt = filter (\<lambda>n. n \<noteq> 0) (map he_symnr (bkt_ent bkt))"

definition chain_cells :: "ovfl_t list \<Rightarrow> nat list \<Rightarrow> (nat \<times> nat) list" where
  "chain_cells os P = map (\<lambda>k. (k, ov_symnr (os ! k))) P"

definition cell_text :: "nat \<times> nat \<Rightarrow> string" where
  "cell_text = (\<lambda>(k, i). ''['' @ dec_nat k @ '']='' @ dec_nat i)"

fun chain_text :: "(nat \<times> nat) list \<Rightarrow> string" where
  "chain_text [] = []"
| "chain_text (c # cs) = ''  => '' @ cell_text c @ concat (map (\<lambda>c. ''->'' @ cell_text c) cs)"

definition bkt_line :: "nat \<Rightarrow> nat list \<Rightarrow> (nat \<times> nat) list \<Rightarrow> string" where
  "bkt_line b ns cs =
     dec_width 7 b @ '') '' @ concat (map (\<lambda>n. '' '' @ dec_width 7 n) ns) @ chain_text cs @ [CHR 0x0A]"

text \<open>In a valid bucket no entry in use follows a free one, where the loop stops.\<close>

lemma dump_ents_inline:
  assumes "bucket_ok names S os bkt P"
  shows "dump_ents (bkt_ent bkt) = concat (map (\<lambda>n. '' '' @ dec_width 7 n) (inline_numbers bkt))"
proof -
  from assms obtain e0 e1 where "bkt_ent bkt = [e0, e1]" "he_symnr e0 = 0 \<longrightarrow> he_symnr e1 = 0"
    by (rule bucket_okE)
  then show ?thesis by (simp add: inline_numbers_def undef_symnr_def)
qed

lemma bkt_syms_shown: "set (bkt_syms os bkt P) = set (inline_numbers bkt @ map snd (chain_cells os P))"
  by (auto simp: bkt_syms_def inline_numbers_def chain_cells_def)

lemma dump_chain_ok:
  assumes "ovfl_rep hm os" and "chain_is os c P"
  shows "dump_chain hm c = Inr (chain_text (chain_cells os P))"
proof (cases P)
  case Nil
  with assms show ?thesis by (simp add: dump_chain_def undef_ovflnr_def chain_cells_def)
next
  case (Cons i "is")
  with assms have c: "c = i" "0 < i" "i < length os" "chain_is os c (c # is)" by auto
  have cells: "map (\<lambda>k. ''->'' @ dump_cell k (os ! k)) is = map (\<lambda>c. ''->'' @ cell_text c) (chain_cells os is)"
    by (simp add: chain_cells_def cell_text_def dump_cell_def)
  from ovfl_rep_get [OF assms(1), of c] dump_walk_chain [OF assms(1) c(4)] Cons c(1-3) show ?thesis
    by (simp add: dump_chain_def undef_ovflnr_def cells) (simp add: chain_cells_def cell_text_def dump_cell_def comp_def)
qed

text \<open>The lines of a table.\<close>

definition bkt_lines :: "hashmap \<Rightarrow> ovfl_t list \<Rightarrow> (nat \<Rightarrow> nat list) \<Rightarrow> nat list \<Rightarrow> string" where
  "bkt_lines hm os P bs =
     concat (map (\<lambda>b. bkt_line b (inline_numbers (tbl hm ! b)) (chain_cells os (P b))) bs)"

lemma dump_bkts_ok:
  assumes "map_ok names S hm os P"
  shows "dump_bkts_from hm b = Inr (bkt_lines hm os P [b..<length (tbl hm)])"
proof (induction "length (tbl hm) - b" arbitrary: b)
  case 0
  with map_okD(2) [OF assms] show ?case by (simp add: dump_bkts_from.simps [of hm] bkt_lines_def)
next
  case (Suc n)
  then have b: "b < length (tbl hm)" by simp
  note bkt = map_okD(4) [OF assms b]
  from bkt have "chain_is os (bkt_chain (tbl hm ! b)) (P b)" by (rule bucket_okE)
  with dump_chain_ok [OF map_okD(1) [OF assms]] have
    "dump_chain hm (bkt_chain (tbl hm ! b)) = Inr (chain_text (chain_cells os (P b)))" by blast
  moreover from Suc.hyps have "dump_bkts_from hm (Suc b) = Inr (bkt_lines hm os P [Suc b..<length (tbl hm)])"
    by simp
  ultimately show ?case using b map_okD(2) [OF assms] dump_ents_inline [OF bkt]
    by (simp add: dump_bkts_from.simps [of hm b] upt_conv_Cons bkt_line_def bkt_lines_def)
qed

section \<open>Properties\<close>

text \<open>C17: on a valid dictionary both dumps return: no chain is followed for ever.
  \<open>dump_symbols\<close> lists every string with its number, in order. \<open>dump_dict_hashtable\<close> writes one
  line for each bucket, with the numbers in its entries and the cells of its chain in their order,
  and the numbers of the line are exactly those of the strings whose hash belongs to the bucket.\<close>

theorem dict_dumps_return:
  assumes "dict_inv d" and "hashtable d = Some hm"
  shows "\<exists>os P. ovfl_rep hm os \<and>
    dump_symbols d = Inr (concat (map (\<lambda>i. symbol_line (Suc i) (dict_names d ! i))
      [0..<length (dict_names d)])) \<and>
    dump_dict_hashtable d = Inr (concat (map
      (\<lambda>b. bkt_line b (inline_numbers (tbl hm ! b)) (chain_cells os (P b))) [0..<length (tbl hm)])) \<and>
    (\<forall>b < length (tbl hm). chain_is os (bkt_chain (tbl hm ! b)) (P b) \<and>
       set (inline_numbers (tbl hm ! b) @ map snd (chain_cells os (P b))) =
       {i \<in> {1..length (dict_names d)}. hash_symbol (dict_names d ! (i - 1)) mod length (tbl hm) = b})"
proof -
  from assms have vec: "vec_rep d (dict_names d)" by (simp add: dict_inv_def)
  from assms obtain os P where ok: "map_ok (dict_names d) {1..length (dict_names d)} hm os P"
    by (auto simp: dict_inv_def)
  from map_okD(4) [OF ok] have "set (bkt_syms os (tbl hm ! b) (P b)) =
      {i \<in> {1..length (dict_names d)}. hash_symbol (dict_names d ! (i - 1)) mod length (tbl hm) = b}"
    and "chain_is os (bkt_chain (tbl hm ! b)) (P b)"
    if "b < length (tbl hm)" for b
    using that unfolding bucket_ok_def home_def by blast+
  with dump_symbols_from_ok [OF vec, of 0] dump_bkts_ok [OF ok, of 0] assms(2) map_okD(1) [OF ok] show ?thesis
    by (intro exI [of _ os] exI [of _ P])
      (simp add: dump_symbols_def dump_dict_hashtable_def bkt_lines_def bkt_syms_shown)
qed

lemma map_ok_empty: "map_ok names {} (hashmap_new n) [] (\<lambda>_. [])"
  by (auto simp: map_ok_def bucket_ok_def hashmap_new_def ovfl_rep_def bkt_syms_def dict_consts
      numeral_2_eq_2 Let_def)

lemma dict_inv_hashed:
  "dict_inv (dict_new\<lparr>hashtable := Some (hashmap_new 0)\<rparr>)"
  "dict_names (dict_new\<lparr>hashtable := Some (hashmap_new 0)\<rparr>) = []"
proof -
  let ?d = "dict_new\<lparr>hashtable := Some (hashmap_new 0)\<rparr>"
  have vec: "vec_rep ?d []" using vec_rep_new by simp
  show names: "dict_names ?d = []" by (rule dict_names_rep [OF vec])
  show "dict_inv ?d" unfolding dict_inv_def names using vec map_ok_empty [of "[]" 0] by auto
qed

text \<open>A dictionary with one string: it is listed, and it is shown in the bucket of its hash.\<close>

theorem dict_dumps_return_witness:
  "\<exists>d hm os P. dict_add dict_new ''a'' = Inr (1, d) \<and> hashtable d = Some hm \<and>
    dump_symbols d = Inr (symbol_line 1 ''a'') \<and>
    dump_dict_hashtable d = Inr (concat (map
      (\<lambda>b. bkt_line b (inline_numbers (tbl hm ! b)) (chain_cells os (P b))) [0..<length (tbl hm)])) \<and>
    (\<forall>b < length (tbl hm). set (inline_numbers (tbl hm ! b) @ map snd (chain_cells os (P b))) =
       (if hash_symbol ''a'' mod length (tbl hm) = b then {1} else {}))"
proof -
  from dict_add_ok [OF dict_inv_new, of "''a''"] obtain d where
    d: "dict_add dict_new ''a'' = Inr (1, d)" "dict_inv d" "dict_names d = [''a'']"
    by (auto simp: dict_names_new uc_def symnr_of_def)
  then obtain hm where hm: "hashtable d = Some hm" by (auto simp: dict_inv_def split: option.splits)
  have "{i \<in> {1..length [''a'']}. hash_symbol ([''a''] ! (i - 1)) mod n = b} =
      (if hash_symbol ''a'' mod n = b then {1} else {})" for n b
    by auto
  with dict_dumps_return [OF d(2) hm, unfolded d(3)] obtain os P where
    "dump_symbols d = Inr (symbol_line 1 ''a'')"
    "dump_dict_hashtable d = Inr (concat (map
      (\<lambda>b. bkt_line b (inline_numbers (tbl hm ! b)) (chain_cells os (P b))) [0..<length (tbl hm)]))"
    "\<forall>b < length (tbl hm). set (inline_numbers (tbl hm ! b) @ map snd (chain_cells os (P b))) =
       (if hash_symbol ''a'' mod length (tbl hm) = b then {1} else {})"
    by auto
  with d(1) hm show ?thesis by blast
qed

text \<open>Rebuilding adds numbers to a new table until it meets a free entry or the end of the table.\<close>

lemma rehash_ents_ok:
  assumes "vec_rep d names" and "hashtable d = Some hm" and "map_ok names S hm os P"
    and "\<forall>e \<in> set es. he_symnr e \<le> length names"
  shows "rehash_ents d es = Inl Undef \<or>
    (\<exists>hm' S' os' P'. rehash_ents d es = Inr (d\<lparr>hashtable := Some hm'\<rparr>) \<and> map_ok names S' hm' os' P')"
  using assms
proof (induction es arbitrary: d hm S os P)
  case Nil
  have "d\<lparr>hashtable := Some hm\<rparr> = d" using Nil.prems(2) by (cases d) simp
  with Nil.prems(3) show ?case by (auto intro!: exI [of _ hm])
next
  case (Cons e es)
  show ?case
  proof (cases "he_symnr e = 0")
    case True
    have "dict_getname_nr d 0 = Inr None" using getname_name [OF Cons.prems(1), of 0] by simp
    with True Cons.prems(2) show ?thesis by (simp add: dict_symnr_add_hash_def)
  next
    case False
    with Cons.prems(4) have i: "0 < he_symnr e" "he_symnr e \<le> length names" by auto
    from add_hash_ok [OF Cons.prems(1-3) i] obtain hm' os' P' where
      h: "dict_symnr_add_hash d (he_symnr e) = Inr (d\<lparr>hashtable := Some hm'\<rparr>)"
      "map_ok names (insert (he_symnr e) S) hm' os' P'" by blast
    from Cons.IH [of "d\<lparr>hashtable := Some hm'\<rparr>" hm', OF _ _ h(2)] Cons.prems(1,4) h(1) show ?thesis
      by simp
  qed
qed

lemma rehash_from_undefined:
  assumes old: "map_ok names {1..length names} oldmap os0 P0"
    and "vec_rep d names" and "hashtable d = Some hm" and "map_ok names S hm os P"
    and "b \<le> tbl_sz oldmap"
  shows "rehash_from oldmap b d = Inl Undef"
  using assms(2-)
proof (induction "tbl_sz oldmap - b" arbitrary: b d hm S os P)
  case 0
  with map_okD(2) [OF old] show ?case by (simp add: rehash_from.simps [of oldmap])
next
  case (Suc n)
  then have b: "b < length (tbl oldmap)" using map_okD(2) [OF old] by simp
  have "he_symnr e \<le> length names" if "e \<in> set (bkt_ent (tbl oldmap ! b))" for e
  proof (cases "he_symnr e = 0")
    case False
    with that have "he_symnr e \<in> set (bkt_syms os0 (tbl oldmap ! b) (P0 b))"
      by (auto simp: bkt_syms_def)
    with in_bucket_in [OF old b] show ?thesis by auto
  qed simp
  with rehash_ents_ok [OF Suc.prems(1-3)] consider (undef) "rehash_ents d (bkt_ent (tbl oldmap ! b)) = Inl Undef"
    | (ok) hm' S' os' P' where "rehash_ents d (bkt_ent (tbl oldmap ! b)) = Inr (d\<lparr>hashtable := Some hm'\<rparr>)"
      "map_ok names S' hm' os' P'"
    by blast
  then show ?case
  proof cases
    case undef
    with b Suc.prems(4) show ?thesis by (simp add: rehash_from.simps [of oldmap b])
  next
    case ok
    have "rehash_from oldmap (b + 1) (d\<lparr>hashtable := Some hm'\<rparr>) = Inl Undef"
      using Suc.hyps(2) Suc.prems(1) ok(2) by (intro Suc.hyps(1) [of _ _ hm' S' os' P']) simp_all
    with ok(1) b Suc.prems(4) show ?thesis by (simp add: rehash_from.simps [of oldmap b])
  qed
qed

text \<open>\<open>dict_rehash_all\<close> has undefined behaviour on every valid dictionary that has a hash table:
  it takes the number 0 of a free entry for a symbol and hashes its null name, or, if no entry is
  free, reads the bucket after the last one.\<close>

theorem dict_rehash_undefined:
  assumes "dict_inv d" and "hashtable d = Some hm"
  shows "dict_rehash_all d n = Inl Undef"
proof -
  from assms have vec: "vec_rep d (dict_names d)" by (simp add: dict_inv_def)
  from assms obtain os P where ok: "map_ok (dict_names d) {1..length (dict_names d)} hm os P"
    by (auto simp: dict_inv_def)
  have "rehash_from hm 0 (d\<lparr>hashtable := Some (hashmap_new n)\<rparr>) = Inl Undef"
    using vec by (intro rehash_from_undefined [OF ok _ _ map_ok_empty]) simp_all
  with assms(2) show ?thesis by (simp add: dict_rehash_all_def)
qed

theorem dict_rehash_undefined_witness:
  "dict_rehash_all (dict_new\<lparr>hashtable := Some (hashmap_new 0)\<rparr>) 23 = Inl Undef"
  by (rule dict_rehash_undefined [OF dict_inv_hashed(1)]) simp

end
