(* ===== verification/IdTable.thy ===== *)
theory IdTable
  imports DictSpec
begin

text \<open>
  The identifier table of src/libincbot/incbot.c: the state of the library (two dictionaries
  and two growing arrays), the types of identifiers, the reader of id-table files, the check
  that the table and its dictionary are in step, and the lookup of an identifier.

  The state starts as C's static storage does: the pointers to the dictionaries are null
  (\<open>None\<close>) and the arrays have no cells until \<open>init_tables\<close>. What is printed to \<open>errprint_fh\<close>
  is kept in \<open>errprint_text\<close>, what is printed to \<open>dbgprint_fh\<close> in \<open>dbgprint_text\<close>, the trace that
  \<open>id_find\<close> writes to \<open>stderr\<close> in \<open>stderr_text\<close> and the generated directives in \<open>stdout_text\<close>. Where
  the library exits or aborts no state is left; the text that the function prints to say why goes
  with the \<open>halt\<close>. The \<open>type\<close> of an identifier is an \<open>int\<close> used as a set of bits, and -1 has all of
  them: it is a \<open>32 word\<close>.
\<close>

section \<open>Data\<close>

definition TYPE_UNKNOWN :: "32 word" where "TYPE_UNKNOWN = 0x01"
definition TYPE_FUNCTION :: "32 word" where "TYPE_FUNCTION = 0x02"
definition TYPE_TYPEDEF :: "32 word" where "TYPE_TYPEDEF = 0x04"
definition TYPE_KEYWORD :: "32 word" where "TYPE_KEYWORD = 0x08"
definition TYPE_CONSTANT :: "32 word" where "TYPE_CONSTANT = 0x10"
definition TYPE_VAR :: "32 word" where "TYPE_VAR = 0x20"
definition TYPE_STRUCT :: "32 word" where "TYPE_STRUCT = 0x40"

definition TYPE_ALL :: "32 word" where
  "TYPE_ALL = TYPE_UNKNOWN OR TYPE_FUNCTION OR TYPE_TYPEDEF OR TYPE_KEYWORD OR TYPE_CONSTANT
     OR TYPE_VAR OR TYPE_STRUCT"

lemmas type_defs =
  TYPE_UNKNOWN_def TYPE_FUNCTION_def TYPE_TYPEDEF_def TYPE_KEYWORD_def TYPE_CONSTANT_def
  TYPE_VAR_def TYPE_STRUCT_def

record idinfo =
  id_sym :: nat
  id_type :: "32 word"
  id_src1 :: nat
  id_standard1 :: nat
  id_standard2 :: nat
  id_man_sect :: nat
  id_man_path :: nat
  id_declare :: nat
  id_trace :: bool

record incref =
  ref_sym :: nat
  inc_sym :: nat
  ref_idnr :: nat
  ref_lnr :: nat

text \<open>\<open>(size_t)(-1)\<close>.\<close>

definition undef_idnr :: nat where "undef_idnr = 2 ^ 64 - 1"

definition virgin_idinfo :: idinfo where
  "virgin_idinfo =
     \<lparr>id_sym = 0, id_type = 0, id_src1 = 0, id_standard1 = 0, id_standard2 = 0,
      id_man_sect = 0, id_man_path = 0, id_declare = 0, id_trace = False\<rparr>"

definition id_table_segment_size :: nat where "id_table_segment_size = 64"
definition ref_inc_table_segment_size :: nat where "ref_inc_table_segment_size = 64"
definition fsep :: int where "fsep = 59"

record incbot =
  id_symtable :: "dict option"
  strtable :: "dict option"
  id_table :: "idinfo option list"
  id_table_sz :: nat
  id_table_len :: nat
  ref_inc_table :: "incref option list"
  ref_inc_table_sz :: nat
  ref_inc_table_len :: nat
  stderr_text :: string
  stdout_text :: string
  errprint_text :: string
  debug :: bool
  dbgprint_text :: string

definition static_incbot :: incbot where
  "static_incbot =
     \<lparr>id_symtable = None, strtable = None, id_table = [], id_table_sz = 0, id_table_len = 0,
      ref_inc_table = [], ref_inc_table_sz = 0, ref_inc_table_len = 0,
      stderr_text = [], stdout_text = [], errprint_text = [],
      debug = False, dbgprint_text = []\<rparr>"

definition eprintf :: "string \<Rightarrow> incbot \<Rightarrow> incbot" where
  "eprintf s st = st\<lparr>errprint_text := errprint_text st @ s\<rparr>"

text \<open>
  The macro \<open>dbg_printf\<close>, with the global variable \<open>debug\<close>, and an argument of it for \<open>%s\<close>, which
  must not be a null pointer. Its stream is set before \<open>debug\<close> can be true.
\<close>

definition dbg_printf :: "string \<Rightarrow> incbot \<Rightarrow> incbot" where
  "dbg_printf s st = (if debug st then st\<lparr>dbgprint_text := dbgprint_text st @ s\<rparr> else st)"

definition dbg_arg :: "incbot \<Rightarrow> string option \<Rightarrow> string outcome" where
  "dbg_arg st x =
     (if debug st then (case x of None \<Rightarrow> Inl Undef | Some s \<Rightarrow> Inr s) else Inr [])"

definition init_tables :: "incbot \<Rightarrow> incbot" where
  "init_tables st =
     st\<lparr>id_table_sz := id_table_segment_size, id_table_len := 0,
        id_table := arr_new id_table_segment_size,
        ref_inc_table_sz := ref_inc_table_segment_size, ref_inc_table_len := 0,
        ref_inc_table := arr_new ref_inc_table_segment_size,
        id_symtable := Some dict_new, strtable := Some dict_new\<rparr>"

definition id_table_grow :: "incbot \<Rightarrow> incbot" where
  "id_table_grow st =
     st\<lparr>id_table_sz := id_table_sz st + id_table_segment_size,
        id_table := id_table st @ arr_new id_table_segment_size\<rparr>"

definition ref_inc_table_grow :: "incbot \<Rightarrow> incbot" where
  "ref_inc_table_grow st =
     st\<lparr>ref_inc_table_sz := ref_inc_table_sz st + ref_inc_table_segment_size,
        ref_inc_table := ref_inc_table st @ arr_new ref_inc_table_segment_size\<rparr>"

section \<open>Types of identifiers\<close>

definition encode_id_type :: "string \<Rightarrow> 32 word" where
  "encode_id_type s =
     (let t = (case s of [c] \<Rightarrow> sc c | _ \<Rightarrow> -1)
      in if t = 99 then TYPE_CONSTANT
         else if t = 102 then TYPE_FUNCTION
         else if t = 107 then TYPE_KEYWORD
         else if t = 115 then TYPE_STRUCT
         else if t = 116 then TYPE_TYPEDEF
         else if t = 118 then TYPE_VAR
         else if t = 63 then TYPE_UNKNOWN
         else -1)"

definition decode_id_type :: "32 word \<Rightarrow> string" where
  "decode_id_type t0 =
     (let t = (if t0 = -1 then 0 else t0)
      in (if t0 = -1 then ''?'' else '''')
         @ (if t AND TYPE_CONSTANT \<noteq> 0 then ''c'' else '''')
         @ (if t AND TYPE_FUNCTION \<noteq> 0 then ''f'' else '''')
         @ (if t AND TYPE_KEYWORD \<noteq> 0 then ''k'' else '''')
         @ (if t AND TYPE_STRUCT \<noteq> 0 then ''s'' else '''')
         @ (if t AND TYPE_TYPEDEF \<noteq> 0 then ''t'' else '''')
         @ (if t AND TYPE_VAR \<noteq> 0 then ''v'' else '''')
         @ (if t AND TYPE_UNKNOWN \<noteq> 0 then ''?'' else ''''))"

definition annotate_type :: "32 word \<Rightarrow> string" where
  "annotate_type t =
     (if t = TYPE_CONSTANT then ''constant''
      else if t = TYPE_FUNCTION then ''function''
      else if t = TYPE_KEYWORD then ''keyword''
      else if t = TYPE_STRUCT then ''struct''
      else if t = TYPE_TYPEDEF then ''type''
      else if t = TYPE_VAR then ''var''
      else if t = TYPE_UNKNOWN then ''unknown''
      else ''?'')"

text \<open>
  The loop over the bits of the mask, from the highest bit of a \<open>size_t\<close> down; the mask is
  sign-extended to that type first.
\<close>

function typemask_loop :: "64 word \<Rightarrow> 64 word \<Rightarrow> nat \<Rightarrow> string" where
  "typemask_loop tm m mcnt =
     (if m \<noteq> 0 then
        (if tm AND m \<noteq> 0 then
           (if mcnt \<noteq> 0 then ''|'' else ''{'') @ annotate_type (ucast m)
             @ typemask_loop tm (drop_bit 1 m) (mcnt + 1)
         else typemask_loop tm (drop_bit 1 m) mcnt)
      else if mcnt \<noteq> 0 then ''}'' else '''')"
  by pat_completeness auto
termination
proof (relation "measure (\<lambda>(tm, m, mcnt). unat m)")
  have "unat (drop_bit 1 m) < unat m" if "m \<noteq> 0" for m :: "64 word"
  proof -
    have "0 < unat m" using that by (simp add: unat_gt_0)
    moreover have "unat (drop_bit 1 m) = unat m div 2"
      by (simp add: unat_div drop_bit_eq_div)
    ultimately show ?thesis by simp
  qed
  then show "((tm, drop_bit 1 m, mcnt + 1), tm, m, mcnt) \<in> measure (\<lambda>(tm, m, mcnt). unat m)"
    and "((tm, drop_bit 1 m, mcnt), tm, m, mcnt) \<in> measure (\<lambda>(tm, m, mcnt). unat m)"
    if "m \<noteq> 0" for tm m :: "64 word" and mcnt
    using that by auto
qed auto

declare typemask_loop.simps [simp del]

definition fshow_typemask :: "32 word \<Rightarrow> string" where
  "fshow_typemask type_mask =
     (if type_mask = 0 then ''''
      else typemask_loop (scast type_mask) (NOT (-1 AND drop_bit 1 (-1))) 0)"

section \<open>Lookup\<close>

text \<open>
  The loop of \<open>verify_idtable\<close> with what it prints; it gives up at the tenth error. The text that
  the function prints before it exits is the last word of the program.
\<close>

definition sync_line :: "nat \<Rightarrow> nat \<Rightarrow> string" where
  "sync_line pos symnr =
     ''id_table[pos=='' @ dec_nat pos @ ''].sym == '' @ dec_nat symnr @ ''.'' @ [CHR 0x0A]"

definition not_in_sync :: string where
  "not_in_sync =
     ''The following assumption does not hold:'' @ [CHR 0x0A]
       @ ''    id_table is in sync with id_symtable.'' @ [CHR 0x0A]"

function verify_from :: "incbot \<Rightarrow> nat \<Rightarrow> nat \<Rightarrow> (string \<times> nat) outcome" where
  "verify_from st pos err_count =
     (if pos < id_table_len st then
        andthen (arr_get (id_table st) pos) (\<lambda>e.
          if id_sym e \<noteq> pos + 1 then
            (let line = sync_line pos (id_sym e)
             in if 10 \<le> err_count + 1 then Inr (line, err_count + 1)
                else andthen (verify_from st (pos + 1) (err_count + 1)) (\<lambda>(t, n). Inr (line @ t, n)))
          else verify_from st (pos + 1) err_count)
      else Inr ([], err_count))"
  by pat_completeness auto
termination
  by (relation "measure (\<lambda>(st, pos, n). id_table_len st - pos)") auto

declare verify_from.simps [simp del]

definition verify_idtable :: "incbot \<Rightarrow> unit outcome" where
  "verify_idtable st =
     andthen (verify_from st 0 0) (\<lambda>(t, err_count).
       if err_count \<noteq> 0 then Inl (Exit 2 (t @ not_in_sync)) else Inr ())"

text \<open>Marked obsolete in the source.\<close>

function id_search_from :: "incbot \<Rightarrow> dict \<Rightarrow> string \<Rightarrow> 32 word \<Rightarrow> nat \<Rightarrow> nat outcome" where
  "id_search_from st d s type_mask pos =
     (if pos < id_table_len st then
        andthen (arr_get (id_table st) pos) (\<lambda>e.
          andthen (dict_getname_nr d (id_sym e)) (\<lambda>name.
            if (case name of None \<Rightarrow> False | Some t \<Rightarrow> strcmp s t = 0) \<and> id_type e AND type_mask \<noteq> 0
            then Inr pos
            else id_search_from st d s type_mask (pos + 1)))
      else Inr undef_idnr)"
  by pat_completeness auto
termination
  by (relation "measure (\<lambda>(st, d, s, m, pos). id_table_len st - pos)") auto

declare id_search_from.simps [simp del]

definition id_find_linear_search :: "incbot \<Rightarrow> string \<Rightarrow> 32 word \<Rightarrow> nat outcome" where
  "id_find_linear_search st s type_mask =
     (if id_table_len st = 0 then Inr undef_idnr
      else case id_symtable st of
             None \<Rightarrow> Inl Undef
           | Some d \<Rightarrow> id_search_from st d s type_mask 0)"

definition trace_text :: "string \<Rightarrow> 32 word \<Rightarrow> 32 word \<Rightarrow> string" where
  "trace_text s type_mask t =
     ''id_find:'' @ [CHR 0x0A] @ ''  id=['' @ s @ '']'' @ [CHR 0x0A]
       @ ''  type_mask='' @ hex_nat (unat type_mask) @ ''='' @ fshow_typemask type_mask
       @ [CHR 0x0A] @ ''  type('' @ s @ '')='' @ hex_nat (unat t) @ ''='' @ annotate_type t
       @ [CHR 0x0A]"

definition id_find :: "incbot \<Rightarrow> string \<Rightarrow> 32 word \<Rightarrow> (nat \<times> incbot) outcome" where
  "id_find st s type_mask =
     (case id_symtable st of
        None \<Rightarrow> Inl Undef
      | Some d0 \<Rightarrow>
          andthen (dict_find d0 s) (\<lambda>(symnr, d).
            let st = st\<lparr>id_symtable := Some d\<rparr>
            in if symnr = undef_symnr then Inr (undef_idnr, st)
               else
                 (let id_pos = symnr - 1
                  in andthen (arr_get (id_table st) id_pos) (\<lambda>e.
                       let t = id_type e;
                           st = (if id_trace e
                                 then st\<lparr>stderr_text := stderr_text st @ trace_text s type_mask t\<rparr>
                                 else st)
                       in Inr (if t AND type_mask = 0 then undef_idnr else id_pos, st)))))"

definition trace_identifier :: "incbot \<Rightarrow> string \<Rightarrow> (int \<times> incbot) outcome" where
  "trace_identifier st s =
     andthen (id_find st s TYPE_ALL) (\<lambda>(idnr, st).
       if idnr = undef_idnr then Inr (ENOENT, st)
       else
         andthen (arr_get (id_table st) idnr) (\<lambda>e.
           andthen (arr_set (id_table st) idnr (e\<lparr>id_trace := True\<rparr>)) (\<lambda>a.
             Inr (0, st\<lparr>id_table := a\<rparr>))))"

section \<open>Building the tables\<close>

text \<open>\<open>dict_add\<close> on one of the two dictionaries of the state.\<close>

definition strtable_add :: "incbot \<Rightarrow> string \<Rightarrow> (nat \<times> incbot) outcome" where
  "strtable_add st s =
     (case strtable st of None \<Rightarrow> Inl Undef
      | Some d0 \<Rightarrow> andthen (dict_add d0 s) (\<lambda>(n, d). Inr (n, st\<lparr>strtable := Some d\<rparr>)))"

definition symtable_add :: "incbot \<Rightarrow> string \<Rightarrow> (nat \<times> incbot) outcome" where
  "symtable_add st s =
     (case id_symtable st of None \<Rightarrow> Inl Undef
      | Some d0 \<Rightarrow> andthen (dict_add d0 s) (\<lambda>(n, d). Inr (n, st\<lparr>id_symtable := Some d\<rparr>)))"

text \<open>
  An assignment to one field of \<open>*id_ent\<close>. In C it may precede the assignment of the whole
  structure; in the program it never does, since field 0 comes first, and the model treats it
  as the use of memory that was not written.
\<close>

definition id_ent_update :: "incbot \<Rightarrow> (idinfo \<Rightarrow> idinfo) \<Rightarrow> incbot outcome" where
  "id_ent_update st f =
     andthen (arr_get (id_table st) (id_table_len st)) (\<lambda>e.
       andthen (arr_set (id_table st) (id_table_len st) (f e)) (\<lambda>a.
         Inr (st\<lparr>id_table := a\<rparr>)))"

definition field_note :: "nat \<Rightarrow> nat \<Rightarrow> string \<Rightarrow> string" where
  "field_note entnr fidx fld_str =
     ''add_id_field: @'' @ dec_nat entnr @ '': field['' @ dec_nat fidx @ ''] = '' @ [CHR 0x27]
       @ fld_str @ [CHR 0x27, CHR 0x0A]"

text \<open>The \<open>switch\<close> on the number of the field.\<close>

definition set_id_field :: "incbot \<Rightarrow> string \<Rightarrow> nat \<Rightarrow> incbot outcome" where
  "set_id_field st fld_str fidx =
     (if fidx = 0 then
        andthen (arr_set (id_table st) (id_table_len st)
            (virgin_idinfo\<lparr>id_type := encode_id_type fld_str\<rparr>))
          (\<lambda>a. Inr (st\<lparr>id_table := a\<rparr>))
      else if fidx = 1 then
        andthen (strtable_add st fld_str) (\<lambda>(n, st). id_ent_update st (id_man_sect_update (\<lambda>_. n)))
      else if fidx = 2 then
        andthen (symtable_add st fld_str) (\<lambda>(n, st). id_ent_update st (id_sym_update (\<lambda>_. n)))
      else if fidx = 3 then
        andthen (strtable_add st fld_str) (\<lambda>(n, st). id_ent_update st (id_src1_update (\<lambda>_. n)))
      else if fidx = 4 then
        andthen (strtable_add st fld_str) (\<lambda>(n, st). id_ent_update st (id_standard1_update (\<lambda>_. n)))
      else if fidx = 5 then
        andthen (strtable_add st fld_str) (\<lambda>(n, st). id_ent_update st (id_standard2_update (\<lambda>_. n)))
      else if fidx = 6 then
        andthen (strtable_add st fld_str) (\<lambda>(n, st). id_ent_update st (id_man_path_update (\<lambda>_. n)))
      else if fidx = 7 then
        (if fld_str \<noteq> [] then
           andthen (strtable_add st fld_str) (\<lambda>(n, st). id_ent_update st (id_declare_update (\<lambda>_. n)))
         else Inr st)
      else Inr st)"

definition add_id_field :: "incbot \<Rightarrow> string \<Rightarrow> nat \<Rightarrow> incbot outcome" where
  "add_id_field st fld_str fidx =
     (let st = (if id_table_sz st \<le> id_table_len st then id_table_grow st else st);
          st = dbg_printf (field_note (id_table_len st) fidx fld_str) st
      in set_id_field st fld_str fidx)"

definition add_ref_inc_pair :: "incbot \<Rightarrow> nat \<Rightarrow> nat \<Rightarrow> nat \<Rightarrow> nat \<Rightarrow> incbot outcome" where
  "add_ref_inc_pair st inc_symnr ref_symnr id_ent lnr =
     (let st = (if ref_inc_table_sz st \<le> ref_inc_table_len st then ref_inc_table_grow st else st)
      in andthen (arr_set (ref_inc_table st) (ref_inc_table_len st)
             \<lparr>ref_sym = ref_symnr, inc_sym = inc_symnr, ref_idnr = id_ent, ref_lnr = lnr\<rparr>)
           (\<lambda>a. Inr (st\<lparr>ref_inc_table := a, ref_inc_table_len := ref_inc_table_len st + 1\<rparr>)))"

section \<open>Reading an id-table file\<close>

definition ERR_LIMIT :: nat where "ERR_LIMIT = 10"
definition NFLD :: nat where "NFLD = 8"
definition FBUF_SZ :: nat where "FBUF_SZ = 1024"

text \<open>The local variables of \<open>read_id_table_stream\<close>; \<open>fbuf_len\<close> is the length of \<open>fbuf\<close>.\<close>

record tbl_loc =
  fbuf :: string
  tl_lnr :: nat
  fidx :: nat
  lcol :: nat
  tl_errs :: nat

definition tbl_loc0 :: tbl_loc where
  "tbl_loc0 = \<lparr>fbuf = [], tl_lnr = 0, fidx = 0, lcol = 0, tl_errs = 0\<rparr>"

text \<open>
  The two inner loops: to the end of a comment line, and over the rest of a field that is too
  long. Each gives the character it stopped at and the rest of the file.
\<close>

fun skip_comment :: "string \<Rightarrow> int \<times> string" where
  "skip_comment [] = (EOF, [])"
| "skip_comment (c # cs) = (if uc c = chNL then (uc c, cs) else skip_comment cs)"

fun skip_field :: "string \<Rightarrow> int \<times> string" where
  "skip_field [] = (EOF, [])"
| "skip_field (c # cs) = (if uc c = fsep \<or> uc c = chNL then (uc c, cs) else skip_field cs)"

lemma skip_comment_shorter: "(c, f) = skip_comment cs \<Longrightarrow> length f \<le> length cs"
  by (induction cs) (auto split: if_splits)

lemma skip_field_shorter: "(c, f) = skip_field cs \<Longrightarrow> length f \<le> length cs"
  by (induction cs) (auto split: if_splits)

text \<open>The bytes of a buffer up to the first zero: what a string function sees of it.\<close>

definition c_str :: "string \<Rightarrow> string" where
  "c_str s = takeWhile (\<lambda>c. uc c \<noteq> 0) s"

lemma cstring_c_str [simp]: "cstring (c_str s)"
  by (auto simp: c_str_def cstring_def dest: set_takeWhileD)

lemma c_str_cstring: "cstring s \<Longrightarrow> c_str s = s"
  by (auto simp: c_str_def cstring_def)

text \<open>The messages for a row with too many fields and for a field that does not fit the buffer.\<close>

definition too_many_fields :: "string \<Rightarrow> nat \<Rightarrow> string" where
  "too_many_fields fname lnr =
     ''More than '' @ dec_nat NFLD @ '' fields per line.'' @ [CHR 0x0A]
       @ ''Extra fields will be ignored.'' @ [CHR 0x0A]
       @ ''File: '' @ fname @ [CHR 0x0A] @ ''Line '' @ dec_nat lnr @ ''.'' @ [CHR 0x0A]"

definition field_too_long :: "string \<Rightarrow> nat \<Rightarrow> string" where
  "field_too_long fname lnr =
     ''field too long.'' @ [CHR 0x0A]
       @ ''File: '' @ fname @ [CHR 0x0A] @ ''Line '' @ dec_nat lnr @ ''.'' @ [CHR 0x0A]"

definition bailing_out :: string where
  "bailing_out = ''Too many errors.  Bailing out.'' @ [CHR 0x0A]"

text \<open>
  The end of a field, at a separator or at the end of a line. \<open>Inl\<close> in the result is the early
  \<open>return (2)\<close>.
\<close>

definition end_field ::
  "incbot \<Rightarrow> string \<Rightarrow> tbl_loc \<Rightarrow> int \<Rightarrow> (int \<times> incbot + incbot \<times> tbl_loc) outcome" where
  "end_field st fname l c =
     (if FBUF_SZ \<le> length (fbuf l) then Inl Undef
      else
        andthen (add_id_field st (c_str (fbuf l)) (fidx l)) (\<lambda>st.
          let l = l\<lparr>fbuf := []\<rparr>
          in if c = chNL then
               (let st = (if NFLD \<le> fidx l then eprintf (too_many_fields fname (tl_lnr l)) st else st);
                    l = (if NFLD \<le> fidx l then l\<lparr>tl_errs := tl_errs l + 1\<rparr> else l)
                in if NFLD \<le> fidx l \<and> ERR_LIMIT < tl_errs l
                   then Inr (Inl (2, eprintf bailing_out st))
                   else
                     (let st = (if id_table_sz st \<le> id_table_len st then id_table_grow st else st)
                      in Inr (Inr (st\<lparr>id_table_len := id_table_len st + 1\<rparr>, l))))
             else Inr (Inr (st, l\<lparr>fidx := fidx l + 1\<rparr>))))"

text \<open>The bookkeeping at the end of the body of the loop.\<close>

definition count_col :: "tbl_loc \<Rightarrow> int \<Rightarrow> tbl_loc" where
  "count_col l c =
     (if c = chNL then l\<lparr>tl_lnr := tl_lnr l + 1, fidx := 0, lcol := 0\<rparr>
      else l\<lparr>lcol := lcol l + 1\<rparr>)"

function read_loop :: "incbot \<Rightarrow> string \<Rightarrow> tbl_loc \<Rightarrow> string \<Rightarrow> (int \<times> incbot) outcome" where
  "read_loop st fname l [] = Inr (if tl_errs l \<noteq> 0 then 1 else 0, st)"
| "read_loop st fname l (x # xs) =
     (let (c, f) = (if uc x = chHASH \<and> lcol l = 0 then skip_comment xs else (uc x, xs))
      in if c = chNL \<and> lcol l \<noteq> 0 \<or> c = fsep then
           andthen (end_field st fname l c) (\<lambda>r.
             (case r of
                Inl rv \<Rightarrow> Inr rv
              | Inr (st, l) \<Rightarrow> read_loop st fname (count_col l c) f))
         else if c \<noteq> EOF \<and> c \<noteq> chNL then
           (if length (fbuf l) < FBUF_SZ then
              read_loop st fname (count_col (l\<lparr>fbuf := fbuf l @ [to_char c]\<rparr>) c) f
            else
              (let st = eprintf (field_too_long fname (tl_lnr l)) st; (c, f) = skip_field f
               in read_loop st fname (count_col l c) f))
         else read_loop st fname (count_col l c) f)"
  by pat_completeness auto
termination
  by (relation "measure (\<lambda>(st, fname, l, f). length f)")
    (fastforce simp: less_Suc_eq_le split: if_splits
      dest: skip_comment_shorter skip_field_shorter intro: order_trans)+

declare read_loop.simps [simp del]

definition read_id_table_stream :: "incbot \<Rightarrow> string \<Rightarrow> string \<Rightarrow> (int \<times> incbot) outcome" where
  "read_id_table_stream st f fname =
     (let st = (if id_table_sz st = 0 then init_tables st else st)
      in read_loop st fname tbl_loc0 f)"

section \<open>The name of the table on the standard error\<close>

text \<open>
  \<open>vischar_r\<close> into a buffer of \<open>bufsz\<close> bytes, which \<open>snprintf\<close> does not overrun; \<open>fshow_path\<close>
  gives it four, so that an escape loses its last digits.
\<close>

definition vischar_path :: "nat \<Rightarrow> int \<Rightarrow> string" where
  "vischar_path bufsz c = (if c_isprint c then [to_char c] else take (bufsz - 1) (escape c))"

definition fshow_path :: "string \<Rightarrow> string" where
  "fshow_path path = concat (map (\<lambda>c. if c_isprint (sc c) then [c] else vischar_path 4 (sc c)) path)"

definition fshow_quoted_path :: "string \<Rightarrow> string" where
  "fshow_quoted_path path = [CHR 0x27] @ fshow_path path @ [CHR 0x27]"

text \<open>The block of \<open>read_id_table_file\<close> for \<open>verbose\<close>.\<close>

definition announce_table :: "bool \<Rightarrow> string \<Rightarrow> incbot \<Rightarrow> incbot" where
  "announce_table verb fname st =
     (if verb
      then st\<lparr>stderr_text := stderr_text st @ ''id_table='' @ fshow_quoted_path fname @ [CHR 0x0A]\<rparr>
      else st)"

section \<open>id-table files\<close>

text \<open>
  \<open>verb\<close> is the global \<open>verbose\<close>, and \<open>fopen\<close> is given by its result: the contents of the file, or
  the error number.
\<close>

definition open_failed :: "string \<Rightarrow> string" where
  "open_failed fname = ''open('' @ [CHR 0x27] @ fname @ [CHR 0x27] @ '', r) failed.'' @ [CHR 0x0A]"

definition read_id_table_file ::
  "bool \<Rightarrow> incbot \<Rightarrow> string \<Rightarrow> int + string \<Rightarrow> (int \<times> incbot) outcome" where
  "read_id_table_file verb st fname src =
     (let st = announce_table verb fname st
      in case src of
           Inl e \<Rightarrow> Inr (e, eprintf (open_failed fname) st)
         | Inr f \<Rightarrow>
             andthen (read_id_table_stream st f fname) (\<lambda>(rv, st).
               andthen (verify_idtable st) (\<lambda>_. Inr (rv, st))))"

end
