(* ===== verification/IdTableSpec.thy ===== *)
theory IdTableSpec
  imports IdTable
begin

text \<open>
  What the reader of id-table files does: the representation of the tables, the entry of a row
  of fields, and the round trip from the rows of a file to the tables.
\<close>

section \<open>The tables in memory\<close>

lemma arr_rep_le: "arr_rep a xs n \<Longrightarrow> length xs \<le> n"
  by (simp add: arr_rep_def)

definition dict_is :: "dict option \<Rightarrow> string list \<Rightarrow> bool" where
  "dict_is t ns \<longleftrightarrow> (\<exists>d. t = Some d \<and> dict_inv d \<and> dict_names d = ns)"

text \<open>
  \<open>tables st ids cur ns ss\<close>: the table holds the entries \<open>ids\<close>, and the cell after them holds
  the entry under construction, if \<open>cur\<close> has one; the dictionaries hold the names \<open>ns\<close> of the
  identifiers and the strings \<open>ss\<close>.
\<close>

definition tables ::
  "incbot \<Rightarrow> idinfo list \<Rightarrow> idinfo list \<Rightarrow> string list \<Rightarrow> string list \<Rightarrow> bool" where
  "tables st ids cur ns ss \<longleftrightarrow>
     length cur \<le> 1 \<and> 0 < id_table_sz st \<and> id_table_len st = length ids \<and>
     arr_rep (id_table st) (ids @ cur) (id_table_sz st) \<and>
     dict_is (id_symtable st) ns \<and> dict_is (strtable st) ss"

text \<open>The rest of the state.\<close>

definition others :: "incbot \<Rightarrow> incref option list \<times> nat \<times> nat \<times> string \<times> string \<times> string \<times> bool" where
  "others st = (ref_inc_table st, ref_inc_table_sz st, ref_inc_table_len st,
                stderr_text st, stdout_text st, errprint_text st, debug st)"

definition refs_are :: "incbot \<Rightarrow> incref list \<Rightarrow> bool" where
  "refs_are st rs \<longleftrightarrow>
     ref_inc_table_len st = length rs \<and> arr_rep (ref_inc_table st) rs (ref_inc_table_sz st)"

lemma refs_are_others: "others st' = others st \<Longrightarrow> refs_are st' rs = refs_are st rs"
  by (simp add: others_def refs_are_def)

text \<open>Messages change nothing else.\<close>

lemma eprintf_simps [simp]:
  "tables (eprintf s st) ids cur ns ss = tables st ids cur ns ss"
  "refs_are (eprintf s st) rs = refs_are st rs"
  "eprintf t (eprintf s st) = eprintf (s @ t) st" "eprintf [] st = st"
  by (simp_all add: tables_def refs_are_def eprintf_def)

lemma dbg_printf_simps [simp]:
  "tables (dbg_printf s st) ids cur ns ss = tables st ids cur ns ss"
  "refs_are (dbg_printf s st) rs = refs_are st rs" "others (dbg_printf s st) = others st"
  by (simp_all add: tables_def refs_are_def others_def dbg_printf_def)

lemma others_eprintf: "others st' = others st \<Longrightarrow> others (eprintf s st') = others (eprintf s st)"
  by (simp add: others_def eprintf_def)

lemma tables_init: "tables (init_tables st) [] [] [] []" "refs_are (init_tables st) []"
  by (auto simp: tables_def refs_are_def init_tables_def dict_is_def
      dict.inv_new dict.names_new id_table_segment_size_def)

definition add_name :: "string list \<Rightarrow> string \<Rightarrow> string list" where
  "add_name ns s = (if s \<in> set ns then ns else ns @ [s])"

lemma add_name_simps [simp]:
  "s \<in> set (add_name ns s)" "set ns \<subseteq> set (add_name ns s)"
  "x \<in> set ns \<Longrightarrow> x \<in> set (add_name ns s)"
  "x \<in> set ns \<Longrightarrow> symnr_of (add_name ns s) x = symnr_of ns x"
  by (auto simp: add_name_def)

lemma dict_is_add:
  assumes "dict_is t ns" and "cstring s"
  obtains d d' where "t = Some d" "dict_add d s = Inr (symnr_of (add_name ns s) s, d')"
    "dict_is (Some d') (add_name ns s)"
proof -
  from assms obtain d where "t = Some d" "dict_inv d" "dict_names d = ns"
    by (auto simp: dict_is_def)
  with dict_add_ok [of d s] assms(2) that show ?thesis
    by (auto simp: dict_is_def add_name_def)
qed

lemma strtable_add_ok:
  assumes "tables st ids cur ns ss" and "cstring s"
  shows "\<exists>st'. strtable_add st s = Inr (symnr_of (add_name ss s) s, st') \<and>
    tables st' ids cur ns (add_name ss s) \<and> others st' = others st"
proof -
  from assms obtain d d' where "strtable st = Some d"
    "dict_add d s = Inr (symnr_of (add_name ss s) s, d')" "dict_is (Some d') (add_name ss s)"
    by (auto simp: tables_def elim: dict_is_add)
  with assms(1) show ?thesis by (simp add: strtable_add_def tables_def others_def)
qed

lemma symtable_add_ok:
  assumes "tables st ids cur ns ss" and "cstring s"
  shows "\<exists>st'. symtable_add st s = Inr (symnr_of (add_name ns s) s, st') \<and>
    tables st' ids cur (add_name ns s) ss \<and> others st' = others st"
proof -
  from assms obtain d d' where "id_symtable st = Some d"
    "dict_add d s = Inr (symnr_of (add_name ns s) s, d')" "dict_is (Some d') (add_name ns s)"
    by (auto simp: tables_def elim: dict_is_add)
  with assms(1) show ?thesis by (simp add: symtable_add_def tables_def others_def)
qed

lemma id_ent_update_ok:
  assumes "tables st ids [e] ns ss"
  shows "\<exists>st'. id_ent_update st f = Inr st' \<and> tables st' ids [f e] ns ss \<and> others st' = others st"
proof -
  have r: "arr_rep (id_table st) (ids @ [e]) (id_table_sz st)" and l: "id_table_len st = length ids"
    using assms by (simp_all add: tables_def)
  show ?thesis
    using assms arr_rep_get [OF r, of "length ids"] arr_rep_set [OF r, of "length ids" "f e"]
    by (simp add: id_ent_update_def l tables_def others_def)
qed

text \<open>Room for one more entry.\<close>

definition id_room :: "incbot \<Rightarrow> incbot" where
  "id_room st = (if id_table_sz st \<le> id_table_len st then id_table_grow st else st)"

lemma id_room_ok:
  assumes "tables st ids cur ns ss"
  shows "tables (id_room st) ids cur ns ss" "length ids < id_table_sz (id_room st)"
    "others (id_room st) = others st"
  using assms arr_rep_grow [of "id_table st" "ids @ cur" "id_table_sz st"]
    arr_rep_le [of "id_table st" "ids @ cur" "id_table_sz st"]
  by (auto simp: id_room_def id_table_grow_def tables_def others_def id_table_segment_size_def)

lemma new_entry_ok:
  assumes "tables st ids cur ns ss" and "length ids < id_table_sz st"
  shows "\<exists>a. arr_set (id_table st) (id_table_len st) e = Inr a \<and>
    tables (st\<lparr>id_table := a\<rparr>) ids [e] ns ss \<and> others (st\<lparr>id_table := a\<rparr>) = others st"
proof (cases cur)
  case Nil
  with assms arr_rep_push [of "id_table st" ids "id_table_sz st" e] show ?thesis
    by (simp add: tables_def others_def)
next
  case (Cons x xs)
  with assms have r: "arr_rep (id_table st) (ids @ [x]) (id_table_sz st)" "xs = []"
    by (auto simp: tables_def)
  with assms Cons arr_rep_set [OF r(1), of "length ids" e]
  show ?thesis by (simp add: tables_def others_def)
qed

section \<open>The entry of a row\<close>

definition nr_at :: "string list \<Rightarrow> string list \<Rightarrow> nat \<Rightarrow> nat" where
  "nr_at xs fs i = (if i < length fs then symnr_of xs (fs ! i) else 0)"

definition entry :: "string list \<Rightarrow> string list \<Rightarrow> string list \<Rightarrow> idinfo" where
  "entry ns ss fs =
     \<lparr>id_sym = nr_at ns fs 2, id_type = encode_id_type (fs ! 0), id_src1 = nr_at ss fs 3,
      id_standard1 = nr_at ss fs 4, id_standard2 = nr_at ss fs 5, id_man_sect = nr_at ss fs 1,
      id_man_path = nr_at ss fs 6,
      id_declare = (if 7 < length fs \<and> fs ! 7 = [] then 0 else nr_at ss fs 7),
      id_trace = False\<rparr>"

text \<open>The strings field number \<open>i\<close> adds to each dictionary.\<close>

definition id_strs :: "nat \<Rightarrow> string \<Rightarrow> string list" where
  "id_strs i s = (if i = 2 then [s] else [])"

definition str_strs :: "nat \<Rightarrow> string \<Rightarrow> string list" where
  "str_strs i s = (if i \<in> {1, 3, 4, 5, 6} \<or> i = 7 \<and> s \<noteq> [] then [s] else [])"

definition row_ids :: "string list \<Rightarrow> string list" where
  "row_ids fs = concat (map (\<lambda>i. id_strs i (fs ! i)) [0..<length fs])"

definition row_strs :: "string list \<Rightarrow> string list" where
  "row_strs fs = concat (map (\<lambda>i. str_strs i (fs ! i)) [0..<length fs])"

lemma upt_snoc_map:
  "concat (map (\<lambda>i. f i ((fs @ [s]) ! i)) [0..<length (fs @ [s])]) =
   concat (map (\<lambda>i. f i (fs ! i)) [0..<length fs]) @ f (length fs) s"
proof -
  have "map (\<lambda>i. f i ((fs @ [s]) ! i)) [0..<length fs] = map (\<lambda>i. f i (fs ! i)) [0..<length fs]"
    by (simp add: nth_append)
  then have "concat (map (\<lambda>i. f i ((fs @ [s]) ! i)) [0..<length fs]) =
      concat (map (\<lambda>i. f i (fs ! i)) [0..<length fs])"
    by (rule arg_cong)
  then show ?thesis by simp
qed

lemma row_strs_snoc:
  "row_ids (fs @ [s]) = row_ids fs @ id_strs (length fs) s"
  "row_strs (fs @ [s]) = row_strs fs @ str_strs (length fs) s"
  unfolding row_ids_def row_strs_def by (rule upt_snoc_map)+

lemma insert_all_snoc: "insert_all ns (ss @ [s]) = add_name (insert_all ns ss) s"
  by (induction ns ss rule: insert_all.induct) (auto simp: add_name_def)

lemma insert_all_append: "insert_all ns (ss @ ts) = insert_all (insert_all ns ss) ts"
  by (induction ns ss rule: insert_all.induct) auto

lemma insert_all_mono: "x \<in> set ns \<Longrightarrow> x \<in> set (insert_all ns ss)"
  by (induction ns ss rule: insert_all.induct) auto

lemma set_insert_all: "set (insert_all ns ss) = set ns \<union> set ss"
  by (induction ns ss rule: insert_all.induct) auto

lemma symnr_of_insert_all: "x \<in> set ns \<Longrightarrow> symnr_of (insert_all ns ss) x = symnr_of ns x"
  by (induction ns ss rule: insert_all.induct) auto

lemma row_ids_in: "2 < length fs \<Longrightarrow> fs ! 2 \<in> set (row_ids fs)"
  by (auto simp: row_ids_def id_strs_def)

lemma row_strs_in:
  "i < length fs \<Longrightarrow> i \<in> {1, 3, 4, 5, 6} \<or> i = 7 \<and> fs ! i \<noteq> [] \<Longrightarrow> fs ! i \<in> set (row_strs fs)"
  by (auto simp: row_strs_def str_strs_def)

text \<open>Numbers given out do not change: the entry of a row is the same in a larger table.\<close>

lemma entry_mono:
  assumes "set (row_ids fs) \<subseteq> set ns" and "set (row_strs fs) \<subseteq> set ss"
  shows "entry (insert_all ns ns') (insert_all ss ss') fs = entry ns ss fs"
proof -
  have "nr_at (insert_all ns ns') fs 2 = nr_at ns fs 2"
    using assms(1) row_ids_in [of fs] by (auto simp: nr_at_def intro!: symnr_of_insert_all)
  moreover have "nr_at (insert_all ss ss') fs i = nr_at ss fs i"
    if "i \<in> {1, 3, 4, 5, 6} \<or> i = 7 \<and> fs ! i \<noteq> []" for i
  proof (cases "i < length fs")
    case True
    then have "fs ! i \<in> set ss" using row_strs_in [OF True that] assms(2) by blast
    then show ?thesis by (simp add: nr_at_def symnr_of_insert_all)
  qed (simp add: nr_at_def)
  ultimately show ?thesis by (cases "fs ! 7 = []") (simp_all add: entry_def nr_at_def)
qed

section \<open>One field\<close>

lemma nr_at_snoc:
  "nr_at xs (fs @ [s]) i = (if i = length fs then symnr_of xs s else nr_at xs fs i)"
  by (simp add: nr_at_def nth_append)

lemma add_name_as_insert: "add_name ns s = insert_all ns [s]"
  by (simp add: add_name_def)

text \<open>The state in which the \<open>switch\<close> of \<open>add_id_field\<close> is entered.\<close>

definition field_room :: "incbot \<Rightarrow> nat \<Rightarrow> string \<Rightarrow> incbot" where
  "field_room st i s = dbg_printf (field_note (id_table_len (id_room st)) i s) (id_room st)"

lemma add_id_field_room: "add_id_field st s i = set_id_field (field_room st i s) s i"
  by (simp only: add_id_field_def field_room_def id_room_def [symmetric] Let_def)

lemma field_room_ok:
  assumes "tables st ids cur ns ss"
  shows "tables (field_room st i s) ids cur ns ss" "length ids < id_table_sz (field_room st i s)"
    "others (field_room st i s) = others st"
  using id_room_ok [OF assms] by (simp_all add: field_room_def) (simp add: dbg_printf_def)

lemma row_start:
  assumes "tables st ids cur ns ss"
  shows "\<exists>st'. add_id_field st s 0 = Inr st' \<and> tables st' ids [entry ns ss [s]] ns ss \<and>
    others st' = others st"
proof -
  note r = field_room_ok [OF assms, of 0 s]
  have "virgin_idinfo\<lparr>id_type := encode_id_type s\<rparr> = entry ns ss [s]"
    by (simp add: virgin_idinfo_def entry_def nr_at_def)
  with new_entry_ok [OF r(1,2), of "entry ns ss [s]"] r(3) show ?thesis
    by (auto simp: add_id_field_room set_id_field_def)
qed

definition row_in :: "string list \<Rightarrow> string list \<Rightarrow> string list \<Rightarrow> bool" where
  "row_in ns ss fs \<longleftrightarrow> set (row_ids fs) \<subseteq> set ns \<and> set (row_strs fs) \<subseteq> set ss"

lemmas fld =
  add_id_field_room set_id_field_def id_strs_def str_strs_def add_name_as_insert entry_def
  nr_at_snoc

lemma row_field:
  assumes t: "tables st ids [entry ns ss fs] ns ss" and "fs \<noteq> []" and s: "cstring s"
    and "row_in ns ss fs"
  shows "\<exists>st' ns' ss'. add_id_field st s (length fs) = Inr st' \<and>
    ns' = insert_all ns (id_strs (length fs) s) \<and> ss' = insert_all ss (str_strs (length fs) s) \<and>
    tables st' ids [entry ns' ss' (fs @ [s])] ns' ss' \<and> others st' = others st"
proof -
  note r = field_room_ok [OF t, of "length fs" s]
  let ?k = "length fs"
  have hd: "(fs @ [s]) ! 0 = fs ! 0" using assms(2) by (simp add: nth_append)
  have mono: "entry (insert_all ns ns') (insert_all ss ss') fs = entry ns ss fs" for ns' ss'
    using assms(4) by (intro entry_mono) (simp_all add: row_in_def)
  have str: "\<exists>st'. andthen (strtable_add (field_room st (length fs) s) s) (\<lambda>(n, st). id_ent_update st (upd (\<lambda>_. n))) = Inr st' \<and>
      tables st' ids [upd (\<lambda>_. symnr_of (add_name ss s) s) (entry ns ss fs)] ns (add_name ss s) \<and>
      others st' = others st" for upd :: "(nat \<Rightarrow> nat) \<Rightarrow> idinfo \<Rightarrow> idinfo"
  proof -
    from strtable_add_ok [OF r(1) s] obtain st1 where
      st1: "strtable_add (field_room st (length fs) s) s = Inr (symnr_of (add_name ss s) s, st1)"
      "tables st1 ids [entry ns ss fs] ns (add_name ss s)" "others st1 = others st"
      using r(3) by auto
    with id_ent_update_ok [OF st1(2)] show ?thesis by auto
  qed
  have sym: "\<exists>st'. andthen (symtable_add (field_room st (length fs) s) s) (\<lambda>(n, st). id_ent_update st (id_sym_update (\<lambda>_. n))) = Inr st' \<and>
      tables st' ids [id_sym_update (\<lambda>_. symnr_of (add_name ns s) s) (entry ns ss fs)] (add_name ns s) ss \<and>
      others st' = others st"
  proof -
    from symtable_add_ok [OF r(1) s] obtain st1 where
      st1: "symtable_add (field_room st (length fs) s) s = Inr (symnr_of (add_name ns s) s, st1)"
      "tables st1 ids [entry ns ss fs] (add_name ns s) ss" "others st1 = others st"
      using r(3) by auto
    with id_ent_update_ok [OF st1(2)] show ?thesis by auto
  qed
  have "?k \<noteq> 0" using assms(2) by simp
  then consider "?k = 1" | "?k = 2" | "?k = 3" | "?k = 4" | "?k = 5" | "?k = 6" | "?k = 7" | "7 < ?k"
    by arith
  then show ?thesis
  proof cases
    case 1
    with str [of id_man_sect_update] mono [of "[]" "[s]"] hd show ?thesis by (simp add: fld)
  next
    case 2
    with sym mono [of "[s]" "[]"] hd show ?thesis by (simp add: fld)
  next
    case 3
    with str [of id_src1_update] mono [of "[]" "[s]"] hd show ?thesis by (simp add: fld)
  next
    case 4
    with str [of id_standard1_update] mono [of "[]" "[s]"] hd show ?thesis by (simp add: fld)
  next
    case 5
    with str [of id_standard2_update] mono [of "[]" "[s]"] hd show ?thesis by (simp add: fld)
  next
    case 6
    with str [of id_man_path_update] mono [of "[]" "[s]"] hd show ?thesis by (simp add: fld)
  next
    case 7
    then have "(fs @ [s]) ! 7 = s" "nr_at xs fs 7 = 0" for xs
      by (simp_all add: nth_append nr_at_def)
    with 7 str [of id_declare_update] mono [of "[]" "[s]"] hd r show ?thesis
      by (cases "s = []") (simp_all add: fld)
  next
    case 8
    then have "add_id_field st s ?k = Inr (field_room st ?k s)"
      by (auto simp: add_id_field_room set_id_field_def)
    moreover have "entry ns ss (fs @ [s]) = entry ns ss fs"
      using 8 hd by (simp add: entry_def nr_at_snoc nth_append)
    ultimately show ?thesis using 8 r by (simp add: id_strs_def str_strs_def)
  qed
qed

text \<open>
  \<open>row_so_far st ids ns0 ss0 fs\<close>: the fields \<open>fs\<close> of the current row have been stored, over
  dictionaries that held \<open>ns0\<close> and \<open>ss0\<close> at the start of the row.
\<close>

definition row_so_far ::
  "incbot \<Rightarrow> idinfo list \<Rightarrow> string list \<Rightarrow> string list \<Rightarrow> string list \<Rightarrow> bool" where
  "row_so_far st ids ns0 ss0 fs \<longleftrightarrow>
     (\<exists>cur. tables st ids cur (insert_all ns0 (row_ids fs)) (insert_all ss0 (row_strs fs)) \<and>
        (fs = [] \<or>
         cur = [entry (insert_all ns0 (row_ids fs)) (insert_all ss0 (row_strs fs)) fs]))"

lemma row_so_far_field:
  assumes "row_so_far st ids ns0 ss0 fs" and "cstring s"
  obtains st' where "add_id_field st s (length fs) = Inr st'" "row_so_far st' ids ns0 ss0 (fs @ [s])"
    "others st' = others st"
proof (cases "fs = []")
  case True
  then obtain cur where t: "tables st ids cur ns0 ss0"
    using assms(1) by (auto simp: row_so_far_def row_ids_def row_strs_def)
  from row_start [OF t, of s] True show ?thesis
    using that by (auto simp: row_so_far_def row_ids_def row_strs_def id_strs_def str_strs_def)
next
  case False
  let ?ns = "insert_all ns0 (row_ids fs)" and ?ss = "insert_all ss0 (row_strs fs)"
  from assms(1) False have t: "tables st ids [entry ?ns ?ss fs] ?ns ?ss"
    by (auto simp: row_so_far_def)
  have "row_in ?ns ?ss fs" by (simp add: row_in_def set_insert_all)
  from row_field [OF t False assms(2) this] show ?thesis
    using that by (auto simp: row_so_far_def row_strs_snoc insert_all_append)
qed

section \<open>The loop of the reader\<close>

definition field_ok :: "string \<Rightarrow> bool" where
  "field_ok f \<longleftrightarrow> length f < FBUF_SZ \<and> (\<forall>c \<in> set f. uc c \<noteq> fsep \<and> uc c \<noteq> chNL \<and> uc c \<noteq> 0)"

lemma field_ok_cstring: "field_ok f \<Longrightarrow> cstring f"
  by (simp add: field_ok_def cstring_def)

lemma read_chars:
  assumes "\<forall>c \<in> set s. uc c \<noteq> fsep \<and> uc c \<noteq> chNL" and "length (fbuf l) + length s \<le> FBUF_SZ"
    and "lcol l \<noteq> 0 \<or> s = [] \<or> uc (hd s) \<noteq> chHASH"
  shows "read_loop st fname l (s @ rest) =
    read_loop st fname (l\<lparr>fbuf := fbuf l @ s, lcol := lcol l + length s\<rparr>) rest"
  using assms
proof (induction s arbitrary: l)
  case Nil
  then show ?case by simp
next
  case (Cons c cs)
  let ?l = "l\<lparr>fbuf := fbuf l @ [c], lcol := lcol l + 1\<rparr>"
  have "read_loop st fname l ((c # cs) @ rest) = read_loop st fname ?l (cs @ rest)"
    using Cons.prems by (auto simp: read_loop.simps(2) count_col_def)
  also have "\<dots> = read_loop st fname (?l\<lparr>fbuf := fbuf ?l @ cs, lcol := lcol ?l + length cs\<rparr>) rest"
    using Cons.prems by (intro Cons.IH) auto
  finally show ?case by simp
qed

definition sep_char :: char where "sep_char = CHR 0x3B"
definition nl_char :: char where "nl_char = CHR 0x0A"

lemma uc_seps [simp]: "uc sep_char = fsep" "uc nl_char = chNL"
  by (simp_all add: sep_char_def nl_char_def fsep_def uc_def)

lemma fsep_neq [simp]: "fsep \<noteq> chNL" "fsep \<noteq> chHASH" "chNL \<noteq> fsep" "chHASH \<noteq> fsep"
  by (simp_all add: fsep_def)

lemma read_sep:
  assumes "field_ok (fbuf l)" and "add_id_field st (fbuf l) (fidx l) = Inr st'"
  shows "read_loop st fname l (sep_char # rest) =
    read_loop st' fname (l\<lparr>fbuf := [], fidx := fidx l + 1, lcol := lcol l + 1\<rparr>) rest"
  using assms c_str_cstring [OF field_ok_cstring [OF assms(1)]]
  by (simp add: read_loop.simps(2) end_field_def count_col_def field_ok_def)

definition next_row :: "incbot \<Rightarrow> incbot" where
  "next_row st = (id_room st)\<lparr>id_table_len := id_table_len (id_room st) + 1\<rparr>"

definition next_line :: "tbl_loc \<Rightarrow> tbl_loc" where
  "next_line l = l\<lparr>fbuf := [], tl_lnr := tl_lnr l + 1, fidx := 0, lcol := 0,
     tl_errs := (if NFLD \<le> fidx l then tl_errs l + 1 else tl_errs l)\<rparr>"

text \<open>What is reported at the end of a row.\<close>

definition row_report :: "string \<Rightarrow> nat \<Rightarrow> nat \<Rightarrow> string" where
  "row_report fname n lnr = (if NFLD < n then too_many_fields fname lnr else [])"

lemma read_nl:
  assumes "field_ok (fbuf l)" and "add_id_field st (fbuf l) (fidx l) = Inr st'" and "lcol l \<noteq> 0"
  shows "read_loop st fname l (nl_char # rest) =
    (let st' = eprintf (row_report fname (Suc (fidx l)) (tl_lnr l)) st'
     in if NFLD \<le> fidx l \<and> ERR_LIMIT \<le> tl_errs l then Inr (2, eprintf bailing_out st')
        else read_loop (next_row st') fname (next_line l) rest)"
  using assms c_str_cstring [OF field_ok_cstring [OF assms(1)]]
  by (cases l; cases "NFLD \<le> fidx l") (simp_all add: read_loop.simps(2) end_field_def count_col_def
      field_ok_def Let_def less_Suc_eq_le row_report_def next_row_def next_line_def
      id_room_def)

section \<open>Lines\<close>

text \<open>A line of an id-table file: a row of fields, a comment or an empty line.\<close>

datatype tline = Row "string list" | Comment string | Blank

fun join_fields :: "string list \<Rightarrow> string" where
  "join_fields [] = []"
| "join_fields [f] = f"
| "join_fields (f # g # fs) = f @ sep_char # join_fields (g # fs)"

fun line_text :: "tline \<Rightarrow> string" where
  "line_text (Row fs) = join_fields fs @ [nl_char]"
| "line_text (Comment s) = CHR 0x23 # s @ [nl_char]"
| "line_text Blank = [nl_char]"

fun line_ok :: "tline \<Rightarrow> bool" where
  "line_ok (Row fs) \<longleftrightarrow> fs \<noteq> [] \<and> fs \<noteq> [[]] \<and> list_all field_ok fs \<and>
     (hd fs = [] \<or> uc (hd (hd fs)) \<noteq> chHASH)"
| "line_ok (Comment s) \<longleftrightarrow> (\<forall>c \<in> set s. uc c \<noteq> chNL)"
| "line_ok Blank \<longleftrightarrow> True"

fun rows_of :: "tline list \<Rightarrow> string list list" where
  "rows_of [] = []"
| "rows_of (Row fs # ls) = fs # rows_of ls"
| "rows_of (_ # ls) = rows_of ls"

text \<open>The columns of a row read so far, and whether the cursor may be at the start of the line.\<close>

definition in_row :: "tbl_loc \<Rightarrow> string list \<Rightarrow> bool" where
  "in_row l fs \<longleftrightarrow> fbuf l = [] \<and> fidx l = length fs \<and> (lcol l = 0 \<longleftrightarrow> fs = [])"

lemma row_so_far_eprintf [simp]:
  "row_so_far (eprintf s st) ids ns0 ss0 fs = row_so_far st ids ns0 ss0 fs"
  by (simp add: row_so_far_def)

lemma read_fields:
  assumes "row_so_far st ids ns0 ss0 gs" and "in_row l gs"
    and "list_all field_ok (f # fs)" and "gs \<noteq> [] \<or> f = [] \<or> uc (hd f) \<noteq> chHASH"
    and "gs @ f # fs \<noteq> [[]]"
  shows "\<exists>st' l'. read_loop st fname l (join_fields (f # fs) @ nl_char # rest) =
      (if NFLD \<le> length (gs @ fs) \<and> ERR_LIMIT \<le> tl_errs l then Inr (2, eprintf bailing_out st')
       else read_loop (next_row st') fname l' rest) \<and>
    row_so_far st' ids ns0 ss0 (gs @ f # fs) \<and>
    others st' = others (eprintf (row_report fname (length (gs @ f # fs)) (tl_lnr l)) st) \<and>
    in_row l' [] \<and> tl_lnr l' = tl_lnr l + 1 \<and>
    tl_errs l' = (if NFLD \<le> length (gs @ fs) then tl_errs l + 1 else tl_errs l)"
  using assms
proof (induction fs arbitrary: st l gs f)
  case Nil
  let ?l = "l\<lparr>fbuf := f, lcol := lcol l + length f\<rparr>"
  let ?msg = "row_report fname (Suc (length gs)) (tl_lnr l)"
  have f: "field_ok f" and b: "fbuf l = []" "fidx l = length gs"
    using Nil.prems by (simp_all add: in_row_def)
  from row_so_far_field [OF Nil.prems(1) field_ok_cstring [OF f]] obtain st' where
    st': "add_id_field st f (length gs) = Inr st'" "row_so_far st' ids ns0 ss0 (gs @ [f])"
    "others st' = others st" .
  have "read_loop st fname l (f @ nl_char # rest) = read_loop st fname ?l (nl_char # rest)"
    using read_chars [of f l st fname "nl_char # rest"] f Nil.prems b by (auto simp: field_ok_def in_row_def)
  also have "\<dots> = (if NFLD \<le> length gs \<and> ERR_LIMIT \<le> tl_errs l then Inr (2, eprintf bailing_out (eprintf ?msg st'))
      else read_loop (next_row (eprintf ?msg st')) fname (next_line ?l) rest)"
    using read_nl [of ?l st st' fname rest] f st'(1) b Nil.prems by (auto simp: in_row_def Let_def)
  finally show ?case
    using st' b others_eprintf [OF st'(3)]
    by (intro exI [of _ "eprintf ?msg st'"] exI [of _ "next_line ?l"])
      (auto simp: in_row_def next_line_def simp del: eprintf_simps(3))
next
  case (Cons g fs)
  let ?l = "l\<lparr>fbuf := f, lcol := lcol l + length f\<rparr>"
  let ?l1 = "?l\<lparr>fbuf := [], fidx := fidx ?l + 1, lcol := lcol ?l + 1\<rparr>"
  have f: "field_ok f" and b: "fbuf l = []" "fidx l = length gs"
    using Cons.prems by (simp_all add: in_row_def)
  from row_so_far_field [OF Cons.prems(1) field_ok_cstring [OF f]] obtain st1 where
    st1: "add_id_field st f (length gs) = Inr st1" "row_so_far st1 ids ns0 ss0 (gs @ [f])"
    "others st1 = others st" .
  let ?rest = "join_fields (g # fs) @ nl_char # rest"
  have "read_loop st fname l (join_fields (f # g # fs) @ nl_char # rest)
      = read_loop st fname ?l (sep_char # ?rest)"
    using read_chars [of f l st fname "sep_char # ?rest"] f Cons.prems b
    by (auto simp: field_ok_def in_row_def)
  also have "\<dots> = read_loop st1 fname ?l1 ?rest"
    using read_sep [of ?l st st1 fname ?rest] f st1(1) b by simp
  finally have r: "read_loop st fname l (join_fields (f # g # fs) @ nl_char # rest)
      = read_loop st1 fname ?l1 ?rest" .
  have l1: "in_row ?l1 (gs @ [f])" "tl_errs ?l1 = tl_errs l" "tl_lnr ?l1 = tl_lnr l"
    "list_all field_ok (g # fs)"
    using b Cons.prems(3) by (simp_all add: in_row_def)
  from Cons.IH [OF st1(2) l1(1,4)] obtain st' l' where
    "read_loop st1 fname ?l1 ?rest =
      (if NFLD \<le> length (gs @ g # fs) \<and> ERR_LIMIT \<le> tl_errs l then Inr (2, eprintf bailing_out st')
       else read_loop (next_row st') fname l' rest)"
    "row_so_far st' ids ns0 ss0 (gs @ f # g # fs)"
    "others st' = others (eprintf (row_report fname (length (gs @ f # g # fs)) (tl_lnr l)) st1)"
    "in_row l' []" "tl_lnr l' = tl_lnr l + 1"
    "tl_errs l' = (if NFLD \<le> length (gs @ g # fs) then tl_errs l + 1 else tl_errs l)"
    by (auto simp: l1)
  then show ?case using r others_eprintf [OF st1(3)] by metis
qed

section \<open>Files\<close>

definition names_of :: "string list list \<Rightarrow> string list" where
  "names_of rows = insert_all [] (concat (map row_ids rows))"

definition strs_of :: "string list list \<Rightarrow> string list" where
  "strs_of rows = insert_all [] (concat (map row_strs rows))"

text \<open>The tables hold the rows that have been read.\<close>

definition holds :: "incbot \<Rightarrow> string list list \<Rightarrow> bool" where
  "holds st rows \<longleftrightarrow>
     (\<exists>cur. tables st (map (entry (names_of rows) (strs_of rows)) rows) cur
        (names_of rows) (strs_of rows))"

definition long_rows :: "string list list \<Rightarrow> nat" where
  "long_rows rows = length (filter (\<lambda>fs. NFLD < length fs) rows)"

definition file_text :: "tline list \<Rightarrow> string" where
  "file_text ls = concat (map line_text ls)"

lemma names_of_snoc:
  "names_of (rows @ [fs]) = insert_all (names_of rows) (row_ids fs)"
  "strs_of (rows @ [fs]) = insert_all (strs_of rows) (row_strs fs)"
  by (simp_all add: names_of_def strs_of_def insert_all_append)

lemma row_in_of:
  "fs \<in> set rows \<Longrightarrow> set (row_ids fs) \<subseteq> set (names_of rows)"
  "fs \<in> set rows \<Longrightarrow> set (row_strs fs) \<subseteq> set (strs_of rows)"
  by (auto simp: names_of_def strs_of_def set_insert_all)

lemma holds_next_row:
  assumes "holds st0 rows"
    and "row_so_far st (map (entry (names_of rows) (strs_of rows)) rows)
           (names_of rows) (strs_of rows) fs"
    and "fs \<noteq> []"
  shows "holds (next_row st) (rows @ [fs])"
proof -
  let ?ns = "names_of (rows @ [fs])" and ?ss = "strs_of (rows @ [fs])"
  have e: "map (entry (names_of rows) (strs_of rows)) rows = map (entry ?ns ?ss) rows"
    by (simp add: names_of_snoc entry_mono row_in_of)
  from assms(2,3) have "tables st (map (entry ?ns ?ss) rows) [entry ?ns ?ss fs] ?ns ?ss"
    by (auto simp: row_so_far_def e names_of_snoc [symmetric])
  from id_room_ok(1) [OF this] show ?thesis
    by (auto simp: holds_def tables_def next_row_def intro!: exI [of _ "[]"])
qed

lemma others_next_row [simp]: "others (next_row st) = others st"
  by (simp add: next_row_def others_def id_room_def id_table_grow_def)

lemma row_so_far_start:
  "holds st rows \<Longrightarrow> row_so_far st (map (entry (names_of rows) (strs_of rows)) rows)
     (names_of rows) (strs_of rows) []"
  by (auto simp: holds_def row_so_far_def row_ids_def row_strs_def)

lemma skip_comment_line:
  "\<forall>c \<in> set s. uc c \<noteq> chNL \<Longrightarrow> skip_comment (s @ nl_char # rest) = (chNL, rest)"
  by (induction s) auto

lemma next_line_row: "in_row (next_line l) []"
  by (simp add: in_row_def next_line_def)

lemma read_comment:
  assumes "in_row l []" and "\<forall>c \<in> set s. uc c \<noteq> chNL"
  shows "read_loop st fname l (line_text (Comment s) @ rest) = read_loop st fname (next_line l) rest"
    and "read_loop st fname l (line_text Blank @ rest) = read_loop st fname (next_line l) rest"
    and "tl_errs (next_line l) = tl_errs l"
proof -
  have h: "uc (CHR 0x23) = chHASH" by (simp add: uc_def)
  show "read_loop st fname l (line_text (Comment s) @ rest) = read_loop st fname (next_line l) rest"
    "read_loop st fname l (line_text Blank @ rest) = read_loop st fname (next_line l) rest"
    "tl_errs (next_line l) = tl_errs l"
    using assms skip_comment_line [OF assms(2)]
    by (cases l; simp add: read_loop.simps(2) h count_col_def in_row_def next_line_def NFLD_def)+
qed

text \<open>The result of the reader, by the number of rows that are too long.\<close>

definition table_rc :: "nat \<Rightarrow> int" where
  "table_rc n = (if ERR_LIMIT < n then 2 else if n \<noteq> 0 then 1 else 0)"

text \<open>The messages for the lines of a file, numbered from \<open>lnr\<close> on.\<close>

fun line_report :: "string \<Rightarrow> nat \<Rightarrow> tline \<Rightarrow> string" where
  "line_report fname lnr (Row fs) = row_report fname (length fs) lnr"
| "line_report fname lnr x = []"

fun row_reports :: "string \<Rightarrow> nat \<Rightarrow> tline list \<Rightarrow> string" where
  "row_reports fname lnr [] = []"
| "row_reports fname lnr (x # ls) = line_report fname lnr x @ row_reports fname (lnr + 1) ls"

lemma read_lines:
  assumes "holds st rows" and "in_row l []" and "list_all line_ok ls"
    and "tl_errs l \<le> ERR_LIMIT"
  shows "\<exists>st'. read_loop st fname l (file_text ls) =
      Inr (table_rc (tl_errs l + long_rows (rows_of ls)), st') \<and>
    (tl_errs l + long_rows (rows_of ls) \<le> ERR_LIMIT \<longrightarrow>
       holds st' (rows @ rows_of ls) \<and> others st' = others (eprintf (row_reports fname (tl_lnr l) ls) st))"
  using assms
proof (induction ls arbitrary: st rows l)
  case Nil
  then show ?case by (simp add: file_text_def long_rows_def read_loop.simps(1) table_rc_def)
next
  case (Cons x ls)
  have ft: "file_text (x # ls) = line_text x @ file_text ls" by (simp add: file_text_def)
  have skip: ?case if "x = Comment s \<and> (\<forall>c \<in> set s. uc c \<noteq> chNL) \<or> x = Blank" for s
  proof -
    have "read_loop st fname l (file_text (x # ls)) = read_loop st fname (next_line l) (file_text ls)"
      using that read_comment(1) [OF Cons.prems(2), of s st fname "file_text ls"]
        read_comment(2) [OF Cons.prems(2), of "[]" st fname "file_text ls"] by (auto simp: ft)
    moreover have "tl_errs (next_line l) = tl_errs l" "rows_of (x # ls) = rows_of ls"
      "tl_lnr (next_line l) = tl_lnr l + 1" "line_report fname (tl_lnr l) x = []"
      using that read_comment(3) [OF Cons.prems(2), of "[]"] by (auto simp: next_line_def)
    ultimately show ?thesis
      using Cons.IH [OF Cons.prems(1) next_line_row, of l] Cons.prems(3,4) by simp
  qed
  show ?case
  proof (cases x)
    case (Row fs)
    then obtain f gs where fs: "fs = f # gs" using Cons.prems(3) by (cases fs) auto
    let ?long = "NFLD \<le> length gs"
    let ?msg = "row_report fname (length fs) (tl_lnr l)"
    have "list_all field_ok (f # gs)" "f = [] \<or> uc (hd f) \<noteq> chHASH" "[] @ f # gs \<noteq> [[]]"
      using Cons.prems(3) by (auto simp: Row fs)
    from read_fields [OF row_so_far_start [OF Cons.prems(1)] Cons.prems(2) this(1) _ this(3),
        of fname "file_text ls"] this(2) obtain st1 l1 where
      st1: "read_loop st fname l (join_fields (f # gs) @ nl_char # file_text ls) =
        (if ?long \<and> ERR_LIMIT \<le> tl_errs l then Inr (2, eprintf bailing_out st1)
         else read_loop (next_row st1) fname l1 (file_text ls))"
      "row_so_far st1 (map (entry (names_of rows) (strs_of rows)) rows) (names_of rows)
         (strs_of rows) (f # gs)"
      "others st1 = others (eprintf ?msg st)" "in_row l1 []" "tl_lnr l1 = tl_lnr l + 1"
      and errs: "tl_errs l1 = (if ?long then tl_errs l + 1 else tl_errs l)"
      by (auto simp: fs)
    have long: "long_rows (rows_of (x # ls)) = (if ?long then 1 else 0) + long_rows (rows_of ls)"
      by (simp add: Row fs long_rows_def less_Suc_eq_le)
    have f: "file_text (x # ls) = join_fields (f # gs) @ nl_char # file_text ls"
      by (simp add: file_text_def Row fs)
    show ?thesis
    proof (cases "?long \<and> ERR_LIMIT \<le> tl_errs l")
      case True
      with st1(1) have "read_loop st fname l (file_text (x # ls)) = Inr (2, eprintf bailing_out st1)"
        by (simp only: f simp_thms if_True)
      moreover have "ERR_LIMIT < tl_errs l + long_rows (rows_of (x # ls))"
        using True long by simp
      ultimately show ?thesis by (simp add: table_rc_def)
    next
      case False
      have h: "holds (next_row st1) (rows @ [fs])"
        using holds_next_row [OF Cons.prems(1)] st1(2) by (simp add: fs)
      have "read_loop st fname l (file_text (x # ls)) = read_loop (next_row st1) fname l1 (file_text ls)"
        using st1(1) False by (simp only: f if_False)
      moreover have "tl_errs l1 + long_rows (rows_of ls) = tl_errs l + long_rows (rows_of (x # ls))"
        by (simp add: errs long)
      moreover have "tl_errs l1 \<le> ERR_LIMIT" using False Cons.prems(4) errs by auto
      moreover have "others (eprintf t (next_row st1)) = others (eprintf (?msg @ t) st)" for t
        using others_eprintf [of "next_row st1" "eprintf ?msg st" t] st1(3) by simp
      ultimately show ?thesis
        using Cons.IH [OF h st1(4)] Cons.prems(3) st1(5) by (simp add: Row)
    qed
  qed (use skip Cons.prems(3) in auto)
qed

section \<open>The table and its dictionary in step\<close>

definition in_step :: "idinfo list \<Rightarrow> bool" where
  "in_step ids \<longleftrightarrow> (\<forall>i < length ids. id_sym (ids ! i) = i + 1)"

text \<open>The positions that are out of step, each with the number found there, and the messages.\<close>

definition off_step :: "nat \<Rightarrow> nat list \<Rightarrow> (nat \<times> nat) list" where
  "off_step pos nrs = filter (\<lambda>(i, n). n \<noteq> i + 1) (enumerate pos nrs)"

lemma off_step_simps [simp]:
  "off_step pos [] = []"
  "off_step pos (n # ns) = (if n = pos + 1 then off_step (Suc pos) ns else (pos, n) # off_step (Suc pos) ns)"
  by (simp_all add: off_step_def)

definition sync_lines :: "(nat \<times> nat) list \<Rightarrow> string" where
  "sync_lines ps = concat (map (\<lambda>(pos, n). sync_line pos n) ps)"

definition out_of_sync :: "nat list \<Rightarrow> string" where
  "out_of_sync nrs = sync_lines (take 10 (off_step 0 nrs)) @ not_in_sync"

lemma in_step_off: "in_step ids \<longleftrightarrow> off_step 0 (map id_sym ids) = []"
  by (auto simp: in_step_def off_step_def filter_empty_conv in_set_enumerate_eq)

lemma verify_from_ok:
  assumes "tables st ids cur ns ss" and "k < 10"
  shows "verify_from st pos k =
    (let bad = take (10 - k) (off_step pos (map id_sym (drop pos ids)))
     in Inr (sync_lines bad, k + length bad))"
  using assms
proof (induction st pos k rule: verify_from.induct)
  case (1 st pos k)
  have l: "id_table_len st = length ids" and r: "arr_rep (id_table st) (ids @ cur) (id_table_sz st)"
    using "1.prems" by (simp_all add: tables_def)
  show ?case
  proof (cases "pos < length ids")
    case False
    then show ?thesis by (simp add: verify_from.simps [of st pos] l sync_lines_def)
  next
    case True
    have g: "arr_get (id_table st) pos = Inr (ids ! pos)"
      using arr_rep_get [OF r, of pos] True by (simp add: nth_append)
    have d: "drop pos ids = ids ! pos # drop (Suc pos) ids"
      using True by (simp add: Cons_nth_drop_Suc)
    consider (step) "id_sym (ids ! pos) = pos + 1"
      | (last) "id_sym (ids ! pos) \<noteq> pos + 1" "k = 9"
      | (off) "id_sym (ids ! pos) \<noteq> pos + 1" "k + 1 < 10"
      using "1.prems"(2) by linarith
    then show ?thesis
    proof cases
      case step
      with "1.IH"(2) [of "ids ! pos"] "1.prems" g True show ?thesis
        by (subst verify_from.simps) (simp add: l d)
    next
      case last
      with g True show ?thesis
        by (subst verify_from.simps) (simp add: l d sync_lines_def)
    next
      case off
      then have "10 - k = Suc (10 - (k + 1))" by simp
      with "1.IH"(1) [of "ids ! pos" "sync_line pos (id_sym (ids ! pos))"] "1.prems"(1) g True off
      show ?thesis
        by (subst verify_from.simps) (simp add: l d sync_lines_def Let_def)
    qed
  qed
qed

lemma verify_ok:
  assumes "tables st ids cur ns ss"
  shows "verify_idtable st =
    (if in_step ids then Inr () else Inl (Exit 2 (out_of_sync (map id_sym ids))))"
  using verify_from_ok [OF assms, of 0 0]
  by (auto simp: verify_idtable_def in_step_off out_of_sync_def sync_lines_def Let_def)

text \<open>When the table of a file is in step: every row has an identifier, no two rows the same.\<close>

definition row_id :: "string list \<Rightarrow> string" where
  "row_id fs = (if 2 < length fs then fs ! 2 else [])"

lemma row_ids_eq: "row_ids fs = (if 2 < length fs then [row_id fs] else [])"
proof (induction fs rule: rev_induct)
  case Nil
  then show ?case by (simp add: row_ids_def)
next
  case (snoc s fs)
  then show ?case by (auto simp: row_strs_snoc id_strs_def row_id_def nth_append)
qed

lemma insert_all_distinct:
  "distinct (ns @ ss) \<Longrightarrow> insert_all ns ss = ns @ ss"
  by (induction ns ss rule: insert_all.induct) auto

lemma names_of_distinct:
  assumes "\<forall>fs \<in> set rows. 2 < length fs" and "distinct (map row_id rows)"
  shows "names_of rows = map row_id rows"
proof -
  have "concat (map row_ids rows) = map row_id rows"
    using assms(1) by (induction rows) (auto simp: row_ids_eq)
  then show ?thesis using assms(2) by (simp add: names_of_def insert_all_distinct)
qed

lemma distinct_insert_all: "distinct ns \<Longrightarrow> distinct (insert_all ns ss)"
  by (induction ns ss rule: insert_all.induct) auto

text \<open>The number of the identifier of each row.\<close>

definition row_nrs :: "string list list \<Rightarrow> nat list" where
  "row_nrs rows = map (\<lambda>fs. nr_at (names_of rows) fs 2) rows"

lemma row_nrs_entries: "map id_sym (map (entry (names_of rows) ss) rows) = row_nrs rows"
  by (simp add: row_nrs_def entry_def)

lemma in_step_iff:
  "in_step (map (entry (names_of rows) ss) rows) \<longleftrightarrow>
     (\<forall>fs \<in> set rows. 2 < length fs) \<and> distinct (map row_id rows)"
proof
  assume ok: "(\<forall>fs \<in> set rows. 2 < length fs) \<and> distinct (map row_id rows)"
  then have n: "names_of rows = map row_id rows" by (simp add: names_of_distinct)
  show "in_step (map (entry (names_of rows) ss) rows)"
    unfolding in_step_def
  proof (intro allI impI)
    fix i assume "i < length (map (entry (names_of rows) ss) rows)"
    then have i: "i < length rows" "2 < length (rows ! i)" using ok by simp_all
    with symnr_of_nth [of "map row_id rows" i] ok
    show "id_sym (map (entry (names_of rows) ss) rows ! i) = i + 1"
      by (simp add: entry_def nr_at_def n row_id_def)
  qed
next
  assume "in_step (map (entry (names_of rows) ss) rows)"
  then have s: "nr_at (names_of rows) (rows ! i) 2 = Suc i" if "i < length rows" for i
    using that by (simp add: in_step_def entry_def)
  have l: "2 < length (rows ! i)" if "i < length rows" for i
    using s [OF that] by (auto simp: nr_at_def split: if_splits)
  have "distinct (map row_id rows)"
  proof (subst distinct_conv_nth, intro allI impI)
    fix i j assume ij: "i < length (map row_id rows)" "j < length (map row_id rows)" "i \<noteq> j"
    with s [of i] s [of j] l [of i] l [of j] show "map row_id rows ! i \<noteq> map row_id rows ! j"
      by (auto simp: nr_at_def row_id_def)
  qed
  with l show "(\<forall>fs \<in> set rows. 2 < length fs) \<and> distinct (map row_id rows)"
    by (auto simp: set_conv_nth)
qed

lemma holds_init: "holds (init_tables st) []"
  using tables_init [of st] by (auto simp: holds_def names_of_def strs_of_def)

text \<open>
  A file is read into tables that hold the rows of the files before it. The first one finds no
  tables, and the reader makes them.
\<close>

definition begin_tables :: "incbot \<Rightarrow> incbot" where
  "begin_tables st = (if id_table_sz st = 0 then init_tables st else st)"

definition ready :: "incbot \<Rightarrow> string list list \<Rightarrow> bool" where
  "ready st rows \<longleftrightarrow> holds (begin_tables st) rows"

lemma ready_static: "ready static_incbot []"
  by (simp add: ready_def begin_tables_def holds_init static_incbot_def)

lemma holds_sz: "holds st rows \<Longrightarrow> 0 < id_table_sz st"
  by (auto simp: holds_def tables_def)

lemma holds_ready: "holds st rows \<Longrightarrow> ready st rows"
  using holds_sz [of st rows] by (simp add: ready_def begin_tables_def)

lemma begin_tables_sz [simp]: "holds st rows \<Longrightarrow> begin_tables st = st"
  using holds_sz [of st rows] by (simp add: begin_tables_def)

lemma holds_text [simp]:
  "holds (st\<lparr>stderr_text := t\<rparr>) rows = holds st rows" "holds (eprintf t st) rows = holds st rows"
  by (simp_all add: holds_def tables_def eprintf_def)

lemma announce_begin:
  "begin_tables (announce_table verb fname st) = announce_table verb fname (begin_tables st)"
  by (simp add: begin_tables_def announce_table_def init_tables_def)

lemma announce_ready [simp]: "ready (announce_table verb fname st) rows = ready st rows"
  by (simp add: ready_def announce_begin) (simp add: announce_table_def)

lemma read_stream_ok:
  assumes "ready st rows" and "list_all line_ok ls" and "long_rows (rows_of ls) \<le> ERR_LIMIT"
  shows "\<exists>st'. read_id_table_stream st (file_text ls) fname =
      Inr (if long_rows (rows_of ls) \<noteq> 0 then 1 else 0, st') \<and>
    holds st' (rows @ rows_of ls) \<and>
    others st' = others (eprintf (row_reports fname 0 ls) (begin_tables st))"
proof -
  have "in_row tbl_loc0 []" "tl_errs tbl_loc0 = 0" "tl_lnr tbl_loc0 = 0"
    by (simp_all add: in_row_def tbl_loc0_def)
  with read_lines [OF assms(1) [unfolded ready_def] this(1) assms(2)] assms(3) show ?thesis
    by (simp add: read_id_table_stream_def begin_tables_def [symmetric] table_rc_def)
qed

lemma read_stream_bails:
  assumes "ready st rows" and "list_all line_ok ls" and "ERR_LIMIT < long_rows (rows_of ls)"
  shows "\<exists>st'. read_id_table_stream st (file_text ls) fname = Inr (2, st')"
proof -
  have "in_row tbl_loc0 []" "tl_errs tbl_loc0 = 0" by (simp_all add: in_row_def tbl_loc0_def)
  with read_lines [OF assms(1) [unfolded ready_def] this(1) assms(2), of fname] assms(3) show ?thesis
    by (auto simp: read_id_table_stream_def begin_tables_def [symmetric] table_rc_def)
qed

lemma read_file_ok:
  assumes "ready st rows0" and "list_all line_ok ls" and "long_rows (rows_of ls) \<le> ERR_LIMIT"
    and "rows = rows0 @ rows_of ls"
  shows "if (\<forall>fs \<in> set rows. 2 < length fs) \<and> distinct (map row_id rows)
    then \<exists>st'. read_id_table_file verb st fname (Inr (file_text ls)) =
        Inr (if long_rows (rows_of ls) \<noteq> 0 then 1 else 0, st') \<and>
      holds st' rows \<and>
      others st' = others (eprintf (row_reports fname 0 ls) (announce_table verb fname (begin_tables st)))
    else read_id_table_file verb st fname (Inr (file_text ls)) = Inl (Exit 2 (out_of_sync (row_nrs rows)))"
proof -
  have "ready (announce_table verb fname st) rows0" using assms(1) by simp
  from read_stream_ok [OF this assms(2,3)] assms(4) obtain st' where
    st': "read_id_table_stream (announce_table verb fname st) (file_text ls) fname =
      Inr (if long_rows (rows_of ls) \<noteq> 0 then 1 else 0, st')"
    "holds st' rows"
    "others st' = others (eprintf (row_reports fname 0 ls) (announce_table verb fname (begin_tables st)))"
    by (auto simp: announce_begin)
  from st'(2) obtain cur where
    "tables st' (map (entry (names_of rows) (strs_of rows)) rows) cur (names_of rows) (strs_of rows)"
    by (auto simp: holds_def)
  from verify_ok [OF this, unfolded row_nrs_entries] st' show ?thesis
    by (simp add: read_id_table_file_def in_step_iff Let_def)
qed

section \<open>Lookup\<close>

text \<open>
  A state whose table and dictionary are in step, with the entries \<open>ids\<close>, their names \<open>ns\<close> and
  the other strings \<open>ss\<close>.
\<close>

definition loaded ::
  "incbot \<Rightarrow> idinfo list \<Rightarrow> string list \<Rightarrow> string list \<Rightarrow> bool" where
  "loaded st ids ns ss \<longleftrightarrow>
     (\<exists>cur. tables st ids cur ns ss) \<and> length ns = length ids \<and> in_step ids \<and>
     length ids \<le> undef_idnr"

lemma length_names_of:
  "\<forall>fs \<in> set rows. 2 < length fs \<Longrightarrow> distinct (map row_id rows) \<Longrightarrow>
   length (names_of rows) = length rows"
  by (simp add: names_of_distinct)

lemma holds_loaded:
  assumes "holds st rows" and "\<forall>fs \<in> set rows. 2 < length fs" and "distinct (map row_id rows)"
    and "length rows \<le> undef_idnr"
  shows "loaded st (map (entry (names_of rows) (strs_of rows)) rows) (names_of rows) (strs_of rows)"
  using assms in_step_iff [of rows "strs_of rows"]
  by (auto simp: loaded_def holds_def length_names_of)

text \<open>What \<open>id_find\<close> computes, and what it prints for an identifier that is traced.\<close>

definition find_spec :: "idinfo list \<Rightarrow> string list \<Rightarrow> string \<Rightarrow> 32 word \<Rightarrow> nat" where
  "find_spec ids ns s msk =
     (if s \<in> set ns \<and> id_type (ids ! (symnr_of ns s - 1)) AND msk \<noteq> 0
      then symnr_of ns s - 1 else undef_idnr)"

definition find_trace :: "idinfo list \<Rightarrow> string list \<Rightarrow> string \<Rightarrow> 32 word \<Rightarrow> string" where
  "find_trace ids ns s msk =
     (if s \<in> set ns \<and> id_trace (ids ! (symnr_of ns s - 1))
      then trace_text s msk (id_type (ids ! (symnr_of ns s - 1))) else [])"

lemma id_find_ok:
  assumes L: "loaded st ids ns ss" and s: "cstring s"
  shows "\<exists>st'. id_find st s msk = Inr (find_spec ids ns s msk, st') \<and> loaded st' ids ns ss \<and>
    ref_inc_table st' = ref_inc_table st \<and> ref_inc_table_sz st' = ref_inc_table_sz st \<and>
    ref_inc_table_len st' = ref_inc_table_len st \<and> stdout_text st' = stdout_text st \<and>
    stderr_text st' = stderr_text st @ find_trace ids ns s msk \<and> errprint_text st' = errprint_text st"
proof -
  from L obtain cur where t: "tables st ids cur ns ss" and l: "length ns = length ids"
    and rest: "in_step ids" "length ids \<le> undef_idnr"
    by (auto simp: loaded_def)
  from t obtain d where d: "id_symtable st = Some d" "dict_inv d" "dict_names d = ns"
    by (auto simp: tables_def dict_is_def)
  from dict.find_spec [OF d(2) s] d(3) obtain d' where
    d': "dict_find d s = Inr (symnr_of ns s, d')" "dict_inv d'" "dict_names d' = ns"
    by auto
  let ?st = "st\<lparr>id_symtable := Some d'\<rparr>"
  have L': "loaded ?st ids ns ss" "loaded (?st\<lparr>stderr_text := x\<rparr>) ids ns ss" for x
    using t l rest d' by (auto simp: loaded_def tables_def dict_is_def)
  show ?thesis
  proof (cases "s \<in> set ns")
    case False
    then show ?thesis
      using d d' L' by (auto simp: id_find_def find_spec_def find_trace_def undef_symnr_def)
  next
    case True
    note n = symnr_of_in [OF True]
    have "arr_rep (id_table st) (ids @ cur) (id_table_sz st)" using t by (simp add: tables_def)
    from arr_rep_get [OF this, of "symnr_of ns s - 1"] n l
    have "arr_get (id_table st) (symnr_of ns s - 1) = Inr (ids ! (symnr_of ns s - 1))"
      by (auto simp: nth_append)
    with n d d' L' True show ?thesis
      by (simp add: id_find_def find_spec_def find_trace_def undef_symnr_def Let_def)
  qed
qed

lemma trace_identifier_ok:
  assumes L: "loaded st ids ns ss" and s: "cstring s"
  shows "\<exists>st'. trace_identifier st s =
      Inr (if find_spec ids ns s TYPE_ALL = undef_idnr then ENOENT else 0, st') \<and>
    loaded st' (if find_spec ids ns s TYPE_ALL = undef_idnr then ids
                else ids[symnr_of ns s - 1 := (ids ! (symnr_of ns s - 1))\<lparr>id_trace := True\<rparr>]) ns ss \<and>
    ref_inc_table st' = ref_inc_table st \<and> ref_inc_table_sz st' = ref_inc_table_sz st \<and>
    ref_inc_table_len st' = ref_inc_table_len st \<and> stdout_text st' = stdout_text st \<and>
    stderr_text st' = stderr_text st @ find_trace ids ns s TYPE_ALL \<and>
    errprint_text st' = errprint_text st"
proof -
  from id_find_ok [OF L s, of TYPE_ALL] obtain st1 where
    st1: "id_find st s TYPE_ALL = Inr (find_spec ids ns s TYPE_ALL, st1)" "loaded st1 ids ns ss"
    and same: "ref_inc_table st1 = ref_inc_table st" "ref_inc_table_sz st1 = ref_inc_table_sz st"
      "ref_inc_table_len st1 = ref_inc_table_len st" "stdout_text st1 = stdout_text st"
      "stderr_text st1 = stderr_text st @ find_trace ids ns s TYPE_ALL"
      "errprint_text st1 = errprint_text st"
    by blast
  show ?thesis
  proof (cases "find_spec ids ns s TYPE_ALL = undef_idnr")
    case True
    with st1 same show ?thesis by (auto simp: trace_identifier_def)
  next
    case False
    let ?i = "symnr_of ns s - 1"
    from False have f: "s \<in> set ns" "find_spec ids ns s TYPE_ALL = ?i"
      by (auto simp: find_spec_def split: if_splits)
    from st1(2) obtain cur where t: "tables st1 ids cur ns ss" and l: "length ns = length ids"
      and rest: "in_step ids" "length ids \<le> undef_idnr"
      by (auto simp: loaded_def)
    have i: "?i < length ids" using symnr_of_in [OF f(1)] l by auto
    have r: "arr_rep (id_table st1) (ids @ cur) (id_table_sz st1)"
      using t by (simp add: tables_def)
    let ?e = "(ids ! ?i)\<lparr>id_trace := True\<rparr>"
    have g: "arr_get (id_table st1) ?i = Inr (ids ! ?i)"
      using arr_rep_get [OF r, of ?i] i by (simp add: nth_append)
    have u: "arr_set (id_table st1) ?i ?e = Inr ((id_table st1)[?i := Some ?e])"
      "arr_rep ((id_table st1)[?i := Some ?e]) (ids[?i := ?e] @ cur) (id_table_sz st1)"
      using arr_rep_set [OF r, of ?i ?e] i by (simp_all add: list_update_append)
    have "loaded (st1\<lparr>id_table := (id_table st1)[?i := Some ?e]\<rparr>) (ids[?i := ?e]) ns ss"
      using t l rest u(2) i by (auto simp: loaded_def tables_def in_step_def nth_list_update)
    with st1 same f False g u show ?thesis by (simp add: trace_identifier_def)
  qed
qed

section \<open>The obsolete linear search\<close>

lemma id_search_from_ok:
  assumes t: "tables st ids cur ns ss" and l: "length ns = length ids" "in_step ids"
    and d: "dict_inv d" "dict_names d = ns" and s: "cstring s"
  shows "id_search_from st d s m pos =
    Inr (if s \<in> set ns \<and> pos < symnr_of ns s \<and> id_type (ids ! (symnr_of ns s - 1)) AND m \<noteq> 0
         then symnr_of ns s - 1 else undef_idnr)"
proof (induction "length ids - pos" arbitrary: pos)
  case 0
  with l have "s \<in> set ns \<Longrightarrow> \<not> pos < symnr_of ns s" using symnr_of_le [of ns s] by simp
  with 0 t show ?case by (auto simp: id_search_from.simps [of st d s m pos] tables_def)
next
  case (Suc k)
  then have pos: "pos < length ids" by simp
  have dist: "distinct ns" "list_all cstring ns"
    using dict.distinct_names [OF d(1)] dict.cstring_names [OF d(1)] d(2) by simp_all
  have g: "arr_get (id_table st) pos = Inr (ids ! pos)"
    using t pos arr_rep_get [of "id_table st" "ids @ cur" "id_table_sz st" pos]
    by (simp add: tables_def nth_append)
  have name: "dict_getname_nr d (id_sym (ids ! pos)) = Inr (Some (ns ! pos))"
    using dict.name_spec [OF d(1), of "pos + 1"] d(2) l pos by (simp add: in_step_def)
  have cmp: "strcmp s (ns ! pos) = 0 \<longleftrightarrow> ns ! pos = s"
    using strcmp_eq_0 [OF s, of "ns ! pos"] dist(2) pos l(1) by (auto simp: list_all_length)
  have nr: "symnr_of ns (ns ! pos) = Suc pos" using symnr_of_nth [OF dist(1)] pos l(1) by simp
  have at: "symnr_of ns s = Suc pos \<Longrightarrow> s \<in> set ns \<Longrightarrow> ns ! pos = s"
    using symnr_of_in(3) [of s ns] by simp
  have IH: "id_search_from st d s m (pos + 1) =
    Inr (if s \<in> set ns \<and> pos + 1 < symnr_of ns s \<and> id_type (ids ! (symnr_of ns s - 1)) AND m \<noteq> 0
         then symnr_of ns s - 1 else undef_idnr)"
    using Suc by simp
  have step: "id_search_from st d s m pos =
      (if ns ! pos = s \<and> id_type (ids ! pos) AND m \<noteq> 0 then Inr pos
       else id_search_from st d s m (pos + 1))"
    using t pos by (subst id_search_from.simps) (simp add: tables_def g name cmp)
  show ?case
  proof (cases "ns ! pos = s")
    case True
    then have "symnr_of ns s = Suc pos" "s \<in> set ns" using nr pos l(1) by auto
    with True step IH show ?thesis by simp
  next
    case False
    with at have "s \<in> set ns \<Longrightarrow> pos + 1 < symnr_of ns s \<longleftrightarrow> pos < symnr_of ns s"
      by (metis Suc_eq_plus1 Suc_lessI lessI less_trans)
    with False step IH show ?thesis by auto
  qed
qed

section \<open>Sets of types as text\<close>

definition bit_name :: "nat \<Rightarrow> string" where
  "bit_name i = annotate_type (ucast (2 ^ i :: 64 word))"

fun join_bar :: "string list \<Rightarrow> string" where
  "join_bar [] = []"
| "join_bar [x] = x"
| "join_bar (x # y # xs) = x @ ''|'' @ join_bar (y # xs)"

lemma join_bar_Cons: "join_bar (x # xs) = x @ concat (map (\<lambda>y. ''|'' @ y) xs)"
  by (induction xs arbitrary: x) auto

definition bits_down :: "64 word \<Rightarrow> nat \<Rightarrow> nat list" where
  "bits_down tm k = filter (bit tm) (rev [0..<k])"

lemma bits_down_Suc: "bits_down tm (Suc k) = (if bit tm k then [k] else []) @ bits_down tm k"
  by (simp add: bits_down_def)

lemma half_bit:
  "k < 63 \<Longrightarrow> drop_bit 1 (2 ^ Suc k :: 64 word) = 2 ^ k"
  "drop_bit 1 (2 ^ 0 :: 64 word) = 0"
  by (simp_all add: drop_bit_exp_eq del: power_Suc power_0)

lemma typemask_step:
  assumes "k < 64"
  shows "typemask_loop tm (2 ^ k) n =
    (if bit tm k
     then (if n \<noteq> 0 then ''|'' else ''{'') @ bit_name k @ typemask_loop tm (drop_bit 1 (2 ^ k)) (n + 1)
     else typemask_loop tm (drop_bit 1 (2 ^ k)) n)"
proof -
  have "(2 :: 64 word) ^ k \<noteq> 0" using assms by (simp add: exp_eq_zero_iff)
  moreover have "tm AND 2 ^ k \<noteq> 0 \<longleftrightarrow> bit tm k" by (simp add: and_exp_eq_0_iff_not_bit)
  ultimately show ?thesis by (subst typemask_loop.simps) (simp add: bit_name_def)
qed

lemma typemask_rest:
  "k < 64 \<Longrightarrow> n \<noteq> 0 \<Longrightarrow> typemask_loop tm (2 ^ k) n =
     concat (map (\<lambda>i. ''|'' @ bit_name i) (bits_down tm (Suc k))) @ ''}''"
proof (induction k arbitrary: n)
  case 0
  then show ?case
    by (subst typemask_step)
      (simp_all add: half_bit(2) [unfolded One_nat_def] typemask_loop.simps [of tm 0] bits_down_def del: power_0)
next
  case (Suc k)
  then show ?case
    by (subst typemask_step) (simp_all add: half_bit(1) [unfolded One_nat_def] bits_down_Suc [of tm "Suc k"] del: power_Suc)
qed

lemma typemask_first:
  "k < 64 \<Longrightarrow> typemask_loop tm (2 ^ k) 0 =
     (if bits_down tm (Suc k) = [] then []
      else ''{'' @ join_bar (map bit_name (bits_down tm (Suc k))) @ ''}'')"
proof (induction k)
  case 0
  then show ?case
    by (subst typemask_step)
      (simp_all add: half_bit(2) [unfolded One_nat_def] typemask_loop.simps [of tm 0] bits_down_def del: power_0)
next
  case (Suc k)
  then show ?case
    by (subst typemask_step)
      (simp_all add: half_bit(1) [unfolded One_nat_def] bits_down_Suc [of tm "Suc k"] typemask_rest join_bar_Cons comp_def
        del: power_Suc)
qed

section \<open>Properties\<close>

text \<open>
  What the tables show of a row, through the operations of the dictionaries: the name behind
  every number of an entry is the field of the row, and there is none for a field the row does
  not have.
\<close>

definition field_name :: "dict option \<Rightarrow> nat \<Rightarrow> string list \<Rightarrow> nat \<Rightarrow> bool" where
  "field_name t n fs i \<longleftrightarrow>
     (\<exists>d. t = Some d \<and> dict_getname_nr d n = Inr (if i < length fs then Some (fs ! i) else None))"

definition entry_shows :: "incbot \<Rightarrow> idinfo \<Rightarrow> string list \<Rightarrow> bool" where
  "entry_shows st e fs \<longleftrightarrow>
     id_type e = encode_id_type (fs ! 0) \<and> \<not> id_trace e \<and>
     field_name (id_symtable st) (id_sym e) fs 2 \<and>
     field_name (strtable st) (id_man_sect e) fs 1 \<and>
     field_name (strtable st) (id_src1 e) fs 3 \<and>
     field_name (strtable st) (id_standard1 e) fs 4 \<and>
     field_name (strtable st) (id_standard2 e) fs 5 \<and>
     field_name (strtable st) (id_man_path e) fs 6 \<and>
     (if 7 < length fs \<and> fs ! 7 = [] then id_declare e = 0
      else field_name (strtable st) (id_declare e) fs 7)"

lemma field_name_nr:
  assumes "dict_is t xs" and "i < length fs \<Longrightarrow> fs ! i \<in> set xs"
  shows "field_name t (nr_at xs fs i) fs i"
proof -
  from assms(1) obtain d where d: "t = Some d" "dict_inv d" "dict_names d = xs"
    by (auto simp: dict_is_def)
  show ?thesis
  proof (cases "i < length fs")
    case True
    note n = symnr_of_in [OF assms(2) [OF True]]
    with dict.name_spec [OF d(2), of "symnr_of xs (fs ! i)"] d True show ?thesis
      by (auto simp: field_name_def nr_at_def)
  next
    case False
    with dict.name_spec [OF d(2), of 0] d show ?thesis by (simp add: field_name_def nr_at_def)
  qed
qed

lemma entry_shows_entry:
  assumes "dict_is (id_symtable st) ns" and "dict_is (strtable st) ss"
    and "set (row_ids fs) \<subseteq> set ns" and "set (row_strs fs) \<subseteq> set ss"
  shows "entry_shows st (entry ns ss fs) fs"
proof -
  have id: "2 < length fs \<Longrightarrow> fs ! 2 \<in> set ns" using row_ids_in [of fs] assms(3) by blast
  have str: "i < length fs \<Longrightarrow> i \<in> {1, 3, 4, 5, 6} \<or> i = 7 \<and> fs ! i \<noteq> [] \<Longrightarrow> fs ! i \<in> set ss" for i
    using row_strs_in [of i fs] assms(4) by blast
  show ?thesis
    using field_name_nr [OF assms(1) id]
      field_name_nr [OF assms(2) str, of 1] field_name_nr [OF assms(2) str, of 3]
      field_name_nr [OF assms(2) str, of 4] field_name_nr [OF assms(2) str, of 5]
      field_name_nr [OF assms(2) str, of 6] field_name_nr [OF assms(2) str, of 7]
    by (simp add: entry_shows_def entry_def)
qed

text \<open>C5: an id-table file is read back, into tables that may hold the rows of files before it: the
  result is 0, or 1 if some row has too many fields, the table has one entry for each row of all
  files, in order, and each entry shows the fields of its row.
  Comment lines and empty lines are skipped. One message is printed for each row that is too long,
  with the name of the file and the number of the line, counted from 0, and no other message.\<close>

theorem read_table_roundtrip:
  assumes "ready st0 rows0" and "list_all line_ok ls" and "long_rows (rows_of ls) \<le> ERR_LIMIT"
    and "rows = rows0 @ rows_of ls"
    and "\<forall>fs \<in> set rows. 2 < length fs" and "distinct (map row_id rows)"
  shows "\<exists>st. read_id_table_file verb st0 fname (Inr (file_text ls)) =
      Inr (if long_rows (rows_of ls) \<noteq> 0 then 1 else 0, st) \<and> ready st rows \<and>
    id_table_len st = length rows \<and> errprint_text st = errprint_text st0 @ row_reports fname 0 ls \<and>
    (\<forall>i < length rows. \<exists>e. arr_get (id_table st) i = Inr e \<and> entry_shows st e (rows ! i))"
proof -
  from read_file_ok [OF assms(1-4), of verb fname] assms(5,6) obtain st where
    st: "read_id_table_file verb st0 fname (Inr (file_text ls)) =
      Inr (if long_rows (rows_of ls) \<noteq> 0 then 1 else 0, st)" and h: "holds st rows"
    and o: "others st = others (eprintf (row_reports fname 0 ls) (announce_table verb fname (begin_tables st0)))"
    by auto
  have e: "errprint_text st = errprint_text st0 @ row_reports fname 0 ls"
    using o by (simp add: others_def eprintf_def begin_tables_def init_tables_def announce_table_def split: if_splits)
  from h obtain cur where
    t: "tables st (map (entry (names_of rows) (strs_of rows)) rows) cur (names_of rows) (strs_of rows)"
    by (auto simp: holds_def)
  have "arr_get (id_table st) i = Inr (entry (names_of rows) (strs_of rows) (rows ! i)) \<and>
      entry_shows st (entry (names_of rows) (strs_of rows) (rows ! i)) (rows ! i)"
    if i: "i < length rows" for i
    using t i arr_rep_get [of "id_table st" _ "id_table_sz st" i] row_in_of [of "rows ! i" rows]
    by (auto simp: tables_def nth_append intro!: entry_shows_entry)
  with st t e holds_ready [OF h] show ?thesis by (auto simp: tables_def)
qed

theorem read_table_roundtrip_witness:
  "let ls = [Comment ''x'', Row [''f'', ''2'', ''open'', ''fcntl.h'', [], [], [], []], Blank,
             Row [''t'', ''3'', ''FILE'']]
   in \<exists>st. read_id_table_file True static_incbot ''t'' (Inr (file_text ls)) =
      Inr (if long_rows (rows_of ls) \<noteq> 0 then 1 else 0, st) \<and> ready st (rows_of ls) \<and>
    id_table_len st = length (rows_of ls) \<and> errprint_text st = errprint_text static_incbot @ row_reports ''t'' 0 ls \<and>
    (\<forall>i < length (rows_of ls). \<exists>e. arr_get (id_table st) i = Inr e \<and> entry_shows st e (rows_of ls ! i))"
  unfolding Let_def
  by (rule read_table_roundtrip [OF ready_static])
    (simp_all add: uc_def field_ok_def FBUF_SZ_def fsep_def long_rows_def NFLD_def row_id_def)

text \<open>C27: a table with two rows for the same identifier, in one file or in two, or with a row that
  has no identifier, is refused: the program exits with status 2, and its last words are the first
  ten positions whose identifier does not have the number that belongs to the position, each with
  the number it has.\<close>

theorem read_table_duplicates:
  assumes "ready st rows0" and "list_all line_ok ls" and "long_rows (rows_of ls) \<le> ERR_LIMIT"
    and "rows = rows0 @ rows_of ls"
    and "(\<exists>fs \<in> set rows. length fs \<le> 2) \<or> \<not> distinct (map row_id rows)"
  shows "read_id_table_file verb st fname (Inr (file_text ls)) = Inl (Exit 2 (out_of_sync (row_nrs rows)))"
  using read_file_ok [OF assms(1-4)] assms(5) by (metis not_le)

theorem read_table_duplicates_witness:
  "read_id_table_file False static_incbot ''t''
     (Inr (file_text [Row [''f'', ''2'', ''open''], Row [''v'', ''3'', ''open'']])) =
   Inl (Exit 2 (sync_line 1 1 @ not_in_sync))"
proof -
  let ?ls = "[Row [''f'', ''2'', ''open''], Row [''v'', ''3'', ''open'']]"
  have "out_of_sync (row_nrs (rows_of ?ls)) = sync_line 1 1 @ not_in_sync"
    by (simp add: row_nrs_def nr_at_def names_of_def row_ids_eq row_id_def symnr_of_def
        out_of_sync_def sync_lines_def)
  moreover have "read_id_table_file False static_incbot ''t'' (Inr (file_text ?ls)) =
      Inl (Exit 2 (out_of_sync (row_nrs (rows_of ?ls))))"
    by (rule read_table_duplicates [OF ready_static])
      (simp_all add: uc_def field_ok_def FBUF_SZ_def fsep_def long_rows_def NFLD_def row_id_def)
  ultimately show ?thesis by simp
qed

text \<open>After more than ten rows with more than eight fields the reader gives up with result 2.\<close>

theorem read_table_bails_out:
  assumes "list_all line_ok ls" and "ERR_LIMIT < long_rows (rows_of ls)"
  shows "\<exists>st. read_id_table_stream static_incbot (file_text ls) fname = Inr (2, st)"
  by (rule read_stream_bails [OF ready_static assms])

theorem read_table_bails_out_witness:
  "\<exists>st. read_id_table_stream static_incbot
     (file_text (replicate 11 (Row [''f'', ''2'', ''x'', [], [], [], [], [], []]))) ''t'' = Inr (2, st)"
  by (rule read_table_bails_out)
    (simp_all add: uc_def field_ok_def FBUF_SZ_def fsep_def long_rows_def NFLD_def ERR_LIMIT_def
      numeral_eq_Suc)

text \<open>C37: a field of exactly 1024 characters, at the start of a line, makes the reader write one
  byte past the end of its buffer.\<close>

theorem read_table_long_field:
  assumes "length s = FBUF_SZ" and "\<forall>c \<in> set s. uc c \<noteq> fsep \<and> uc c \<noteq> chNL" and "uc (hd s) \<noteq> chHASH"
  shows "read_id_table_stream static_incbot (s @ sep_char # rest) fname = Inl Undef"
proof -
  have "read_loop st fname tbl_loc0 (s @ sep_char # rest) =
      read_loop st fname (tbl_loc0\<lparr>fbuf := s, lcol := FBUF_SZ\<rparr>) (sep_char # rest)" for st
    using read_chars [of s tbl_loc0 st fname "sep_char # rest"] assms by (simp add: tbl_loc0_def)
  then show ?thesis
    using assms(1) by (simp add: read_id_table_stream_def read_loop.simps(2) end_field_def)
qed

theorem read_table_long_field_witness:
  "read_id_table_stream static_incbot (replicate FBUF_SZ CHR ''a'' @ sep_char # ''x'') ''t'' = Inl Undef"
  by (rule read_table_long_field) (simp_all add: uc_def fsep_def FBUF_SZ_def numeral_eq_Suc)

text \<open>C19: in a table of distinct identifiers, \<open>id_find\<close> gives the row of an identifier if its type
  is among those asked for, and \<open>undef_idnr\<close> otherwise and for any other string; it prints
  nothing.\<close>

theorem id_find_row:
  assumes "holds st rows" and "\<forall>fs \<in> set rows. 2 < length fs" and "distinct (map row_id rows)"
    and "length rows \<le> undef_idnr" and "cstring s"
  shows "\<exists>n st'. id_find st s m = Inr (n, st') \<and> stderr_text st' = stderr_text st \<and>
    (\<forall>i < length rows. row_id (rows ! i) = s \<longrightarrow>
       n = (if encode_id_type (rows ! i ! 0) AND m \<noteq> 0 then i else undef_idnr)) \<and>
    (s \<notin> row_id ` set rows \<longrightarrow> n = undef_idnr)"
proof -
  let ?ids = "map (entry (names_of rows) (strs_of rows)) rows"
  have ns: "names_of rows = map row_id rows" by (rule names_of_distinct [OF assms(2,3)])
  have off: "\<not> id_trace (?ids ! i)" if "i < length rows" for i using that by (simp add: entry_def)
  from id_find_ok [OF holds_loaded [OF assms(1-4)] assms(5), of m] obtain st' where
    st': "id_find st s m = Inr (find_spec ?ids (names_of rows) s m, st')"
    "stderr_text st' = stderr_text st @ find_trace ?ids (names_of rows) s m"
    by blast
  have "find_trace ?ids (names_of rows) s m = []"
    using off symnr_of_in [of s "names_of rows"] by (auto simp: find_trace_def ns)
  moreover have "find_spec ?ids (names_of rows) s m =
      (if encode_id_type (rows ! i ! 0) AND m \<noteq> 0 then i else undef_idnr)"
    if i: "i < length rows" "row_id (rows ! i) = s" for i
  proof -
    have "symnr_of (map row_id rows) (map row_id rows ! i) = Suc i"
      using i by (intro symnr_of_nth [OF assms(3)]) simp
    then have "symnr_of (names_of rows) s = Suc i" "s \<in> set (names_of rows)" using i by (auto simp: ns)
    then show ?thesis using i by (simp add: find_spec_def entry_def)
  qed
  moreover have "find_spec ?ids (names_of rows) s m = undef_idnr" if "s \<notin> row_id ` set rows"
    using that by (simp add: find_spec_def ns)
  ultimately show ?thesis using st' by auto
qed

theorem id_find_row_witness:
  "\<exists>st n st'. holds st [[''f'', ''2'', ''open'']] \<and> id_find st ''open'' TYPE_FUNCTION = Inr (n, st') \<and> n = 0"
proof -
  let ?rs = "[[''f'', ''2'', ''open'']]"
  have "\<exists>st. holds st ?rs"
    using read_stream_ok [OF ready_static, of "map Row ?rs"]
    by (auto simp: uc_def field_ok_def FBUF_SZ_def fsep_def long_rows_def NFLD_def)
  then obtain st where "holds st ?rs" by blast
  moreover from id_find_row [OF this, of "''open''" TYPE_FUNCTION] obtain n st' where
    "id_find st ''open'' TYPE_FUNCTION = Inr (n, st')" "n = 0"
    by (force simp: row_id_def undef_idnr_def uc_def encode_id_type_def sc_def type_defs)
  ultimately show ?thesis by blast
qed

text \<open>C20: \<open>id_find\<close> returns what the obsolete linear search returns, on any table that is in step
  with its dictionary.\<close>

theorem id_find_is_linear_search:
  assumes "loaded st ids ns ss" and "cstring s"
  shows "\<exists>n st'. id_find st s m = Inr (n, st') \<and> id_find_linear_search st s m = Inr n"
proof -
  from assms(1) obtain cur d where t: "tables st ids cur ns ss" "length ns = length ids" "in_step ids"
    "id_symtable st = Some d" "dict_inv d" "dict_names d = ns"
    by (auto simp: loaded_def tables_def dict_is_def)
  have "id_find_linear_search st s m = Inr (find_spec ids ns s m)"
  proof (cases "id_table_len st = 0")
    case True
    with t(1,2) show ?thesis by (auto simp: id_find_linear_search_def tables_def find_spec_def)
  next
    case False
    then show ?thesis
      using id_search_from_ok [OF t(1-3,5,6) assms(2), of m 0] symnr_of_in(1) [of s ns]
      by (auto simp: id_find_linear_search_def t(4) find_spec_def)
  qed
  with id_find_ok [OF assms, of m] show ?thesis by blast
qed

theorem id_find_is_linear_search_witness:
  "\<exists>n st'. id_find (init_tables static_incbot) ''x'' TYPE_ALL = Inr (n, st') \<and>
     id_find_linear_search (init_tables static_incbot) ''x'' TYPE_ALL = Inr n"
  by (rule id_find_is_linear_search [of _ "[]" "[]" "[]"])
    (use tables_init(1) in \<open>auto simp: loaded_def in_step_def uc_def\<close>)

text \<open>A list of lookups, one after the other, with their results.\<close>

fun find_each :: "incbot \<Rightarrow> (string \<times> 32 word) list \<Rightarrow> (nat list \<times> incbot) outcome" where
  "find_each st [] = Inr ([], st)"
| "find_each st ((s, m) # qs) =
     andthen (id_find st s m) (\<lambda>(n, st). andthen (find_each st qs) (\<lambda>(ns, st). Inr (n # ns, st)))"

text \<open>What is to be reported of a lookup: the name, the types asked for and the type of the entry.\<close>

definition report :: "string \<Rightarrow> 32 word \<Rightarrow> 32 word \<Rightarrow> string" where
  "report s m t = concat (map (\<lambda>l. l @ [CHR 0x0A])
     [''id_find:'',
      ''  id=['' @ s @ '']'',
      ''  type_mask='' @ hex_nat (unat m) @ ''='' @ fshow_typemask m,
      ''  type('' @ s @ '')='' @ hex_nat (unat t) @ ''='' @ annotate_type t])"

lemma trace_text_report: "trace_text s m t = report s m t"
  by (simp add: trace_text_def report_def)

abbreviation entry_of :: "idinfo list \<Rightarrow> string list \<Rightarrow> string \<Rightarrow> idinfo" where
  "entry_of ids ns s \<equiv> ids ! (symnr_of ns s - 1)"

lemma find_each_ok:
  assumes "loaded st ids ns ss" and "\<forall>q \<in> set qs. cstring (fst q)"
  shows "\<exists>st'. find_each st qs = Inr (map (\<lambda>(q, m). find_spec ids ns q m) qs, st') \<and>
    stderr_text st' = stderr_text st @ concat (map (\<lambda>(q, m). find_trace ids ns q m) qs)"
  using assms
proof (induction qs arbitrary: st)
  case Nil
  then show ?case by simp
next
  case (Cons x qs)
  obtain q m where x: "x = (q, m)" by (cases x)
  with Cons.prems have "cstring q" by simp
  from id_find_ok [OF Cons.prems(1) this, of m] obtain st1 where
    st1: "id_find st q m = Inr (find_spec ids ns q m, st1)" "loaded st1 ids ns ss"
      "stderr_text st1 = stderr_text st @ find_trace ids ns q m"
    by blast
  from Cons.IH [OF st1(2)] Cons.prems(2) obtain st' where
    "find_each st1 qs = Inr (map (\<lambda>(q, m). find_spec ids ns q m) qs, st')"
    "stderr_text st' = stderr_text st1 @ concat (map (\<lambda>(q, m). find_trace ids ns q m) qs)"
    by auto
  with st1(1,3) show ?case by (simp add: x)
qed

text \<open>Setting the mark of an entry changes what is reported of it, and no result of a lookup.\<close>

lemma marked_entry:
  assumes "length ns = length ids" and "s \<in> set ns"
    and "ids' = ids[symnr_of ns s - 1 := (entry_of ids ns s)\<lparr>id_trace := True\<rparr>]"
  shows "find_spec ids' ns q m = find_spec ids ns q m"
    and "find_trace ids' ns q m =
      (if q \<in> set ns \<and> (q = s \<or> id_trace (entry_of ids ns q)) then report q m (id_type (entry_of ids ns q)) else [])"
proof -
  have "id_type (entry_of ids' ns q) = id_type (entry_of ids ns q)"
    and "id_trace (entry_of ids' ns q) \<longleftrightarrow> q = s \<or> id_trace (entry_of ids ns q)" if "q \<in> set ns"
    using symnr_of_in [OF that] symnr_of_in [OF assms(2)] assms(1)
    unfolding assms(3) by (auto simp: nth_list_update)
  then show "find_spec ids' ns q m = find_spec ids ns q m"
    and "find_trace ids' ns q m =
      (if q \<in> set ns \<and> (q = s \<or> id_trace (entry_of ids ns q)) then report q m (id_type (entry_of ids ns q)) else [])"
    by (auto simp: find_spec_def find_trace_def trace_text_report)
qed

text \<open>C26: after \<open>trace_identifier\<close> on a known identifier, whatever is looked up, with whatever
  types and however often, each lookup of it is reported on the standard error, with the types
  asked for and its own, and so is each lookup of one that was traced before, and no other; the
  results of the lookups are those without tracing. On an unknown identifier the result is
  \<open>ENOENT\<close>, and nothing more is reported than before.\<close>

theorem trace_then_find:
  assumes "loaded st ids ns ss" and "cstring s" and "\<forall>q \<in> set qs. cstring (fst q)"
  shows "\<exists>rv st1 st2. trace_identifier st s = Inr (rv, st1) \<and>
    rv = (if s \<in> set ns \<and> id_type (entry_of ids ns s) AND TYPE_ALL \<noteq> 0 then 0 else ENOENT) \<and>
    find_each st1 qs = Inr (map (\<lambda>(q, m). find_spec ids ns q m) qs, st2) \<and>
    stderr_text st2 = stderr_text st1 @ concat (map (\<lambda>(q, m).
      if q \<in> set ns \<and> (q = s \<and> rv = 0 \<or> id_trace (entry_of ids ns q))
      then report q m (id_type (entry_of ids ns q)) else []) qs)"
proof -
  let ?known = "s \<in> set ns \<and> id_type (entry_of ids ns s) AND TYPE_ALL \<noteq> 0"
  let ?i = "symnr_of ns s - 1"
  have len: "length ns = length ids" "length ids \<le> undef_idnr" using assms(1) by (simp_all add: loaded_def)
  have "s \<in> set ns \<Longrightarrow> ?i < length ids" using symnr_of_in [of s ns] len by auto
  then have known: "find_spec ids ns s TYPE_ALL = undef_idnr \<longleftrightarrow> \<not> ?known"
    using len by (auto simp: find_spec_def)
  let ?ids = "if ?known then ids[?i := (ids ! ?i)\<lparr>id_trace := True\<rparr>] else ids"
  from trace_identifier_ok [OF assms(1,2)] obtain st1 where
    st1: "trace_identifier st s = Inr (if ?known then 0 else ENOENT, st1)" "loaded st1 ?ids ns ss"
    unfolding known by (cases ?known) auto
  from find_each_ok [OF st1(2) assms(3)] obtain st2 where
    st2: "find_each st1 qs = Inr (map (\<lambda>(q, m). find_spec ?ids ns q m) qs, st2)"
    "stderr_text st2 = stderr_text st1 @ concat (map (\<lambda>(q, m). find_trace ?ids ns q m) qs)"
    by blast
  have "find_spec ?ids ns q m = find_spec ids ns q m \<and> find_trace ?ids ns q m =
      (if q \<in> set ns \<and> (q = s \<and> ?known \<or> id_trace (entry_of ids ns q))
       then report q m (id_type (entry_of ids ns q)) else [])" for q m
  proof (cases ?known)
    case True
    note marked_entry [OF len(1) conjunct1 [OF True] refl, of q m]
    then show ?thesis by (simp only: True simp_thms if_True)
  next
    case False
    then show ?thesis by (simp only: simp_thms if_False find_trace_def trace_text_report)
  qed
  then have same: "find_spec ?ids ns q m = find_spec ids ns q m"
    and seen: "find_trace ?ids ns q m = (if q \<in> set ns \<and> (q = s \<and> ?known \<or> id_trace (entry_of ids ns q))
       then report q m (id_type (entry_of ids ns q)) else [])" for q m by blast+
  have rv: "(if ?known then 0 else ENOENT) = 0 \<longleftrightarrow> ?known" by (simp add: ENOENT_def)
  show ?thesis
    by (intro exI [of _ "if ?known then 0 else ENOENT"] exI [of _ st1] exI [of _ st2] conjI)
      (use st1(1) st2 in \<open>simp_all only: same seen rv\<close>)
qed

text \<open>Three lookups after tracing \<open>open\<close>, one of another name: two are reported.\<close>

theorem trace_then_find_witness:
  "\<exists>st st1 st2. holds st [[''f'', ''2'', ''open'']] \<and> trace_identifier st ''open'' = Inr (0, st1) \<and>
    find_each st1 [(''open'', TYPE_FUNCTION), (''x'', TYPE_ALL), (''open'', TYPE_TYPEDEF)] =
      Inr ([0, undef_idnr, undef_idnr], st2) \<and>
    stderr_text st2 = stderr_text st1 @ report ''open'' TYPE_FUNCTION TYPE_FUNCTION @
      report ''open'' TYPE_TYPEDEF TYPE_FUNCTION"
proof -
  let ?rs = "[[''f'', ''2'', ''open'']]"
  have "\<exists>st. holds st ?rs"
    using read_stream_ok [OF ready_static, of "map Row ?rs"]
    by (auto simp: uc_def field_ok_def FBUF_SZ_def fsep_def long_rows_def NFLD_def)
  then obtain st where st: "holds st ?rs" by blast
  have "loaded st (map (entry (names_of ?rs) (strs_of ?rs)) ?rs) (names_of ?rs) (strs_of ?rs)"
    using st by (rule holds_loaded) (simp_all add: undef_idnr_def)
  moreover have "names_of ?rs = [''open'']" by (subst names_of_distinct) (simp_all add: row_id_def)
  ultimately have L: "loaded st [entry [''open''] (strs_of ?rs) (hd ?rs)] [''open''] (strs_of ?rs)" by simp
  let ?e = "entry [''open''] (strs_of ?rs) [''f'', ''2'', ''open'']"
  let ?qs = "[(''open'', TYPE_FUNCTION), (''x'', TYPE_ALL), (''open'', TYPE_TYPEDEF)]"
  have e: "id_type ?e = TYPE_FUNCTION" "\<not> id_trace ?e" by (simp_all add: entry_def encode_id_type_def sc_def uc_def type_defs)
  have t: "TYPE_FUNCTION AND TYPE_ALL \<noteq> 0" "TYPE_FUNCTION AND TYPE_FUNCTION \<noteq> 0" "TYPE_FUNCTION AND TYPE_TYPEDEF = 0"
    by (simp_all add: TYPE_ALL_def type_defs)
  have "cstring ''open''" "\<forall>q \<in> set ?qs. cstring (fst q)" by (simp_all add: uc_def)
  from trace_then_find [OF L this] obtain rv st1 st2 where
    r: "trace_identifier st ''open'' = Inr (rv, st1)" "rv = 0"
      "find_each st1 ?qs = Inr ([0, undef_idnr, undef_idnr], st2)"
    and "stderr_text st2 = stderr_text st1 @ report ''open'' TYPE_FUNCTION TYPE_FUNCTION @
      report ''open'' TYPE_TYPEDEF TYPE_FUNCTION"
    using e t by (simp add: find_spec_def symnr_of_def) blast
  with st show ?thesis by blast
qed

text \<open>C29: the letters of types are read and written alike, and any other string stands for all
  types at once: \<open>encode_id_type\<close> gives -1, which has every bit, and \<open>decode_id_type\<close> writes a
  question mark.\<close>

theorem type_letters:
  "decode_id_type (encode_id_type s) =
     (if s \<in> {''c'', ''f'', ''k'', ''s'', ''t'', ''v'', ''?''} then s else ''?'') \<and>
   (s \<notin> {''c'', ''f'', ''k'', ''s'', ''t'', ''v'', ''?''} \<longleftrightarrow> encode_id_type s = -1)"
proof (cases "\<exists>c. s = [c]")
  case False
  then have "encode_id_type s = -1" by (auto simp: encode_id_type_def split: list.splits)
  with False show ?thesis by (auto simp: decode_id_type_def)
next
  case True
  then obtain c where s: "s = [c]" by blast
  have sc: "sc c = uc (CHR ''c'') \<longleftrightarrow> c = CHR ''c''" "sc c = uc (CHR ''f'') \<longleftrightarrow> c = CHR ''f''"
    "sc c = uc (CHR ''k'') \<longleftrightarrow> c = CHR ''k''" "sc c = uc (CHR ''s'') \<longleftrightarrow> c = CHR ''s''"
    "sc c = uc (CHR ''t'') \<longleftrightarrow> c = CHR ''t''" "sc c = uc (CHR ''v'') \<longleftrightarrow> c = CHR ''v''"
    "sc c = uc (CHR ''?'') \<longleftrightarrow> c = CHR ''?''"
    unfolding uc_inject [symmetric] using uc_range [of c] by (auto simp: sc_def uc_def)
  have n: "uc (CHR ''c'') = 99" "uc (CHR ''f'') = 102" "uc (CHR ''k'') = 107" "uc (CHR ''s'') = 115"
    "uc (CHR ''t'') = 116" "uc (CHR ''v'') = 118" "uc (CHR ''?'') = 63"
    by (simp_all add: uc_def)
  have decode: "decode_id_type TYPE_CONSTANT = ''c''" "decode_id_type TYPE_FUNCTION = ''f''"
    "decode_id_type TYPE_KEYWORD = ''k''" "decode_id_type TYPE_STRUCT = ''s''"
    "decode_id_type TYPE_TYPEDEF = ''t''" "decode_id_type TYPE_VAR = ''v''"
    "decode_id_type TYPE_UNKNOWN = ''?''" "decode_id_type (-1) = ''?''"
    by (simp_all add: decode_id_type_def type_defs)
  have e: "encode_id_type s =
      (if c = CHR ''c'' then TYPE_CONSTANT else if c = CHR ''f'' then TYPE_FUNCTION
       else if c = CHR ''k'' then TYPE_KEYWORD else if c = CHR ''s'' then TYPE_STRUCT
       else if c = CHR ''t'' then TYPE_TYPEDEF else if c = CHR ''v'' then TYPE_VAR
       else if c = CHR ''?'' then TYPE_UNKNOWN else -1)"
    by (simp only: s encode_id_type_def list.case Let_def sc [unfolded n])
  have neg: "TYPE_CONSTANT \<noteq> -1" "TYPE_FUNCTION \<noteq> -1" "TYPE_KEYWORD \<noteq> -1" "TYPE_STRUCT \<noteq> -1"
    "TYPE_TYPEDEF \<noteq> -1" "TYPE_VAR \<noteq> -1" "TYPE_UNKNOWN \<noteq> -1"
    by (simp_all add: type_defs)
  show ?thesis unfolding e by (simp add: s decode neg)
qed

lemma bit_power: "k < 64 \<Longrightarrow> bit (2 ^ k :: 64 word) n \<longleftrightarrow> n = k"
  by (auto simp: bit_exp_iff)

lemma high_bit: "(NOT (-1 AND drop_bit 1 (-1)) :: 64 word) = 2 ^ 63"
proof (rule bit_word_eqI)
  fix n
  assume "n < LENGTH(64)"
  then have "bit (NOT (-1 AND drop_bit 1 (-1)) :: 64 word) n \<longleftrightarrow> n = 63"
    by (auto simp: bit_simps)
  moreover have "bit (2 ^ 63 :: 64 word) n \<longleftrightarrow> n = 63" by (rule bit_power) simp
  ultimately show "bit (NOT (-1 AND drop_bit 1 (-1)) :: 64 word) n \<longleftrightarrow> bit (2 ^ 63 :: 64 word) n"
    by (simp only:)
qed

text \<open>C30: \<open>fshow_typemask\<close> writes the names of the types in the mask from the highest bit down,
  separated by bars, in braces, and nothing for the empty mask.\<close>

theorem typemask_names:
  "fshow_typemask m =
     (if m = 0 then []
      else ''{'' @ join_bar (map bit_name (filter (bit (scast m :: 64 word)) (rev [0..<64]))) @ ''}'')"
proof (cases "m = 0")
  case True
  then show ?thesis by (simp add: fshow_typemask_def)
next
  case False
  have "m = 0" if "\<forall>i < 32. \<not> bit m i"
    by (rule bit_word_eqI) (use that in simp)
  with False have "\<exists>i < 32. bit m i" by blast
  then obtain i where i: "i < 32" "bit m i" by blast
  then have "bit (scast m :: 64 word) i" by (simp add: bit_signed_iff)
  then have "i \<in> set (bits_down (scast m) (Suc 63))" using i by (simp add: bits_down_def)
  then have "bits_down (scast m) (Suc 63) \<noteq> []" by (metis empty_iff empty_set)
  with False typemask_first [of 63 "scast m"] show ?thesis
    unfolding fshow_typemask_def high_bit bits_down_def by simp
qed

end
