(* ===== verification/CfLex.thy ===== *)
theory CfLex
  imports CfText
begin

text \<open>
  libcf against a reference lexer. \<open>c_lex\<close> classifies any text, terminated or not, by cutting off one
  token after the other, as the C language has them: a literal ends at the first quote that is not
  escaped, a comment at its end mark, and every other character is code. The newline that ends a
  line comment counts as a part of it, as in libcf. The machine of libcf agrees with \<open>c_lex\<close> exactly
  on the texts in which no literal follows a slash.
\<close>

section \<open>The reference lexer\<close>

text \<open>The body of a literal after its opening quote, and the rest from the closing quote on.\<close>

fun lit_body :: "int \<Rightarrow> int list \<Rightarrow> int list \<times> int list" where
  "lit_body q [] = ([], [])"
| "lit_body q (c # cs) =
     (if c = q then ([], c # cs)
      else if c = chBSL then
        (case cs of [] \<Rightarrow> ([c], []) | d # ds \<Rightarrow> let (b, r) = lit_body q ds in (c # d # b, r))
      else let (b, r) = lit_body q cs in (c # b, r))"

text \<open>The bodies of comments, with the end mark, and the rest of the text.\<close>

fun block_body :: "int list \<Rightarrow> int list \<times> int list" where
  "block_body [] = ([], [])"
| "block_body (c # cs) =
     (if c = chSTAR \<and> cs \<noteq> [] \<and> hd cs = chSLASH then ([c, chSLASH], tl cs)
      else let (b, r) = block_body cs in (c # b, r))"

fun line_body :: "int list \<Rightarrow> int list \<times> int list" where
  "line_body [] = ([], [])"
| "line_body (c # cs) = (if c = chNL then ([c], cs) else let (b, r) = line_body cs in (c # b, r))"

lemma lit_body_length: "lit_body q cs = (b, r) \<Longrightarrow> length b + length r = length cs"
  by (induction q cs arbitrary: b r rule: lit_body.induct) (auto split: if_splits list.splits prod.splits)

lemma block_body_length: "block_body cs = (b, r) \<Longrightarrow> length b + length r = length cs"
  by (induction cs arbitrary: b r rule: block_body.induct) (auto split: if_splits prod.splits simp: neq_Nil_conv)

lemma line_body_length: "line_body cs = (b, r) \<Longrightarrow> length b + length r = length cs"
  by (induction cs arbitrary: b r rule: line_body.induct) (auto split: if_splits prod.splits)

lemmas body_shorter = lit_body_length [OF sym] block_body_length [OF sym] line_body_length [OF sym]

function c_lex :: "int list \<Rightarrow> ccl_t list" where
  "c_lex [] = []"
| "c_lex (c # cs) =
     (if c = chDQ \<or> c = chSQ then
        (let outer = (if c = chDQ then CC_OUTER_STRING else CC_OUTER_CHAR);
             inner = (if c = chDQ then CC_INNER_STRING else CC_INNER_CHAR);
             (b, r) = lit_body c cs
         in sup outer c # map (sup inner) b @ (case r of [] \<Rightarrow> [] | d # r' \<Rightarrow> sup outer d # c_lex r'))
      else if c = chSLASH \<and> cs \<noteq> [] \<and> (hd cs = chSLASH \<or> hd cs = chSTAR) then
        (let (b, r) = (if hd cs = chSLASH then line_body (tl cs) else block_body (tl cs))
         in sup CC_OUTER_COMMENT c # sup CC_OUTER_COMMENT (hd cs) # map (sup CC_INNER_COMMENT) b @ c_lex r)
      else sup CC_CODE c # c_lex cs)"
  by pat_completeness auto
termination
  by (relation "measure length")
    (auto dest!: body_shorter split: if_splits simp: neq_Nil_conv)

declare c_lex.simps(2) [simp del]

section \<open>The machine as a lexer\<close>

text \<open>What the machine delivers for the rest of a text, a slash held back at its end included.\<close>

definition delivers :: "cf_state \<Rightarrow> int list \<Rightarrow> ccl_t list" where
  "delivers s cs = fst (cf_run s cs) @ map (sup CC_CODE) (held (snd (cf_run s cs)))"

lemma delivers_simps:
  "delivers s [] = map (sup CC_CODE) (held s)"
  "delivers s (c # cs) = fst (cf_step s c) @ delivers (snd (cf_step s c)) cs"
  by (simp_all add: delivers_def split_beta)

lemma delivers_string:
  "delivers S_START_DQUOTE cs = (case lit_body chDQ cs of (b, r) \<Rightarrow>
     map (sup CC_INNER_STRING) b @ (case r of [] \<Rightarrow> [] | d # r' \<Rightarrow> sup CC_OUTER_STRING d # delivers S_START r'))"
proof (induction "chDQ :: int" cs rule: lit_body.induct)
  case 1
  show ?case by (simp add: delivers_simps held_def)
next
  case (2 c cs)
  consider (quote) "c = chDQ" | (escape) "c = chBSL" | (other) "c \<noteq> chDQ" "c \<noteq> chBSL" by blast
  then show ?case
  proof cases
    case quote
    then show ?thesis by (simp add: delivers_simps)
  next
    case escape
    then show ?thesis
      using "2.hyps"(1) by (cases cs) (simp_all add: delivers_simps held_def split_beta)
  next
    case other
    then show ?thesis using "2.hyps"(2) by (simp add: delivers_simps split_beta)
  qed
qed

lemma delivers_char:
  "delivers S_START_SQUOTE cs = (case lit_body chSQ cs of (b, r) \<Rightarrow>
     map (sup CC_INNER_CHAR) b @ (case r of [] \<Rightarrow> [] | d # r' \<Rightarrow> sup CC_OUTER_CHAR d # delivers S_START r'))"
proof (induction "chSQ :: int" cs rule: lit_body.induct)
  case 1
  show ?case by (simp add: delivers_simps held_def)
next
  case (2 c cs)
  consider (quote) "c = chSQ" | (escape) "c = chBSL" | (other) "c \<noteq> chSQ" "c \<noteq> chBSL" by blast
  then show ?case
  proof cases
    case quote
    then show ?thesis by (simp add: delivers_simps)
  next
    case escape
    then show ?thesis
      using "2.hyps"(1) by (cases cs) (simp_all add: delivers_simps held_def split_beta)
  next
    case other
    then show ?thesis using "2.hyps"(2) by (simp add: delivers_simps split_beta)
  qed
qed

lemma delivers_line:
  "delivers S_COMMENT_EOL cs = (case line_body cs of (b, r) \<Rightarrow>
     map (sup CC_INNER_COMMENT) b @ delivers S_START r)"
  by (induction cs rule: line_body.induct) (auto simp: delivers_simps held_def split: prod.split)

text \<open>After a star inside a block comment a slash ends it.\<close>

lemma delivers_block:
  "delivers S_SLASH_STAR cs = (case block_body cs of (b, r) \<Rightarrow>
     map (sup CC_INNER_COMMENT) b @ delivers S_START r)"
  "sup CC_INNER_COMMENT chSTAR # delivers S_SLASH_STAR_STAR cs = (case block_body (chSTAR # cs) of (b, r) \<Rightarrow>
     map (sup CC_INNER_COMMENT) b @ delivers S_START r)"
proof (induction cs)
  case Nil
  { case 1 show ?case by (simp add: delivers_simps held_def) }
  { case 2 show ?case by (simp add: delivers_simps held_def) }
next
  case (Cons c cs)
  { case 1
    show ?case
      using Cons.IH by (cases "c = chSTAR") (auto simp: delivers_simps split: prod.split) }
  { case 2
    show ?case
      using Cons.IH by (cases "c = chSTAR"; cases "c = chSLASH") (auto simp: delivers_simps split: prod.split) }
qed

section \<open>Where the two agree\<close>

text \<open>Somewhere a literal follows a slash in the code at once.\<close>

fun slash_meets_literal :: "ccl_t list \<Rightarrow> bool" where
  "slash_meets_literal (x # y # zs) \<longleftrightarrow>
     x = sup CC_CODE chSLASH \<and> (ccl y = CC_OUTER_STRING \<or> ccl y = CC_OUTER_CHAR) \<or>
     slash_meets_literal (y # zs)"
| "slash_meets_literal _ \<longleftrightarrow> False"

lemma class_neq [simp]:
  "CC_OUTER_STRING \<noteq> CC_CODE" "CC_OUTER_CHAR \<noteq> CC_CODE" "CC_INNER_STRING \<noteq> CC_CODE"
  "CC_INNER_CHAR \<noteq> CC_CODE" "CC_OUTER_COMMENT \<noteq> CC_CODE" "CC_INNER_COMMENT \<noteq> CC_CODE"
  "CC_CODE \<noteq> CC_OUTER_STRING" "CC_CODE \<noteq> CC_OUTER_CHAR"
  by (simp_all add: cc_defs)

lemma meets_Cons:
  "slash_meets_literal (x # ys) \<longleftrightarrow>
     x = sup CC_CODE chSLASH \<and> ys \<noteq> [] \<and> (ccl (hd ys) = CC_OUTER_STRING \<or> ccl (hd ys) = CC_OUTER_CHAR) \<or>
     slash_meets_literal ys"
  by (cases ys) auto

lemma meets_not_code:
  "ccl x \<noteq> CC_CODE \<Longrightarrow> slash_meets_literal (x # ys) = slash_meets_literal ys"
  "k \<noteq> CC_CODE \<Longrightarrow> slash_meets_literal (map (sup k) cs @ ys) = slash_meets_literal ys"
proof -
  show *: "slash_meets_literal (x # ys) = slash_meets_literal ys" if "ccl x \<noteq> CC_CODE" for x ys
    using that by (auto simp: meets_Cons)
  show "slash_meets_literal (map (sup k) cs @ ys) = slash_meets_literal ys" if "k \<noteq> CC_CODE"
    using that by (induction cs) (auto simp: *)
qed

lemma delivers_lex: "delivers S_START t = c_lex t \<longleftrightarrow> \<not> slash_meets_literal (c_lex t)"
proof (induction t rule: length_induct)
  case (1 t)
  have IH: "delivers S_START r = c_lex r \<longleftrightarrow> \<not> slash_meets_literal (c_lex r)" if "length r < length t" for r
    using 1 that by blast
  show ?case
  proof (cases t)
    case Nil
    then show ?thesis by (simp add: delivers_simps held_def)
  next
    case (Cons c cs)
    consider (string) "c = chDQ" | (char) "c = chSQ"
      | (line) ds where "c = chSLASH" "cs = chSLASH # ds" | (block) ds where "c = chSLASH" "cs = chSTAR # ds"
      | (last) "c = chSLASH" "cs = []" | (slash) d ds where "c = chSLASH" "cs = d # ds" "d \<noteq> chSLASH" "d \<noteq> chSTAR"
      | (code) "c \<noteq> chDQ" "c \<noteq> chSQ" "c \<noteq> chSLASH"
      by (cases cs) auto
    then show ?thesis
    proof cases
      case string
      obtain b r where b: "lit_body chDQ cs = (b, r)" by force
      then show ?thesis using string Cons IH [of "tl r"] lit_body_length [OF b]
        by (cases r) (simp_all add: delivers_simps delivers_string c_lex.simps(2) meets_not_code
            meets_not_code(2) [of _ _ "[]", simplified])
    next
      case char
      obtain b r where b: "lit_body chSQ cs = (b, r)" by force
      then show ?thesis using char Cons IH [of "tl r"] lit_body_length [OF b]
        by (cases r) (simp_all add: delivers_simps delivers_char c_lex.simps(2) meets_not_code
            meets_not_code(2) [of _ _ "[]", simplified])
    next
      case line
      obtain b r where b: "line_body ds = (b, r)" by force
      then show ?thesis using line Cons IH [of r] line_body_length [OF b]
        by (simp add: delivers_simps delivers_line c_lex.simps(2) meets_not_code)
    next
      case block
      obtain b r where b: "block_body ds = (b, r)" by force
      then show ?thesis using block Cons IH [of r] block_body_length [OF b]
        by (simp add: delivers_simps delivers_block(1) c_lex.simps(2) meets_not_code)
    next
      case last
      then show ?thesis using Cons by (simp add: delivers_simps held_def c_lex.simps(2))
    next
      case slash
      then show ?thesis using Cons IH [of ds]
        by (cases "d = chDQ \<or> d = chSQ")
          (auto simp: delivers_simps c_lex.simps(2) meets_Cons Let_def split: prod.splits)
    next
      case code
      then show ?thesis using Cons IH [of cs]
        by (auto simp: delivers_simps c_lex.simps(2) meets_Cons)
    qed
  qed
qed

text \<open>
  The texts that libcf classifies like the lexer to the last character: also no slash is held back
  when the text ends. \<open>c_code\<close> is the code in a text.
\<close>

definition libcf_exact :: "int list \<Rightarrow> bool" where
  "libcf_exact t \<longleftrightarrow>
     \<not> slash_meets_literal (c_lex t) \<and> (c_lex t = [] \<or> last (c_lex t) \<noteq> sup CC_CODE chSLASH)"

definition c_code :: "int list \<Rightarrow> int list" where
  "c_code t = code_of (c_lex t)"

lemma run_lex: "libcf_exact t \<Longrightarrow> fst (cf_run S_START t) = c_lex t"
proof -
  assume exact: "libcf_exact t"
  with delivers_lex [of t] have d:
    "fst (cf_run S_START t) @ map (sup CC_CODE) (held (snd (cf_run S_START t))) = c_lex t"
    by (simp add: libcf_exact_def delivers_def)
  have "snd (cf_run S_START t) \<noteq> S_START_SLASH"
  proof
    assume "snd (cf_run S_START t) = S_START_SLASH"
    with d have "fst (cf_run S_START t) @ [sup CC_CODE chSLASH] = c_lex t" by (simp add: held_def)
    from this [symmetric] have "c_lex t \<noteq> []" "last (c_lex t) = sup CC_CODE chSLASH" by simp_all
    with exact show False by (simp add: libcf_exact_def)
  qed
  with d show "fst (cf_run S_START t) = c_lex t" by (simp add: held_def)
qed

text \<open>C18: libcf agrees with the reference lexer on a text, a slash held back at the end included, if
  and only if no string or character literal stands directly behind a slash that is code. The text
  need not be valid: its last literal or comment may be unterminated.\<close>

theorem cf_is_lexer:
  assumes "EOF \<notin> set t"
  shows "\<exists>out ctx. cf_drive (cf_new k) t = Inr (out, ctx) \<and>
    (out @ map (sup CC_CODE) (held (state ctx)) = c_lex t \<longleftrightarrow> \<not> slash_meets_literal (c_lex t))"
proof -
  have s: "state (cf_new k) = S_START" by (simp add: cf_new_def cf_init_def)
  from cf_drive_run [OF cf_ok_new _ assms, of k] obtain ctx where
    "cf_drive (cf_new k) t = Inr (fst (cf_run S_START t), ctx)" "state ctx = snd (cf_run S_START t)"
    by (auto simp: s)
  with delivers_lex [of t] show ?thesis by (simp add: delivers_def)
qed

text \<open>A division and a character literal apart, and a string literal behind a slash.\<close>

theorem cf_is_lexer_witness:
  "(\<exists>out ctx. cf_drive (cf_new CC_CODE) [97, 47, 98, 39, 34, 39] = Inr (out, ctx) \<and>
     out @ map (sup CC_CODE) (held (state ctx)) = c_lex [97, 47, 98, 39, 34, 39]) \<and>
   (\<exists>out ctx. cf_drive (cf_new CC_CODE) [47, 34, 97, 34] = Inr (out, ctx) \<and>
     out @ map (sup CC_CODE) (held (state ctx)) \<noteq> c_lex [47, 34, 97, 34])"
proof -
  have "\<not> slash_meets_literal (c_lex [97, 47, 98, 39, 34, 39])" "slash_meets_literal (c_lex [47, 34, 97, 34])"
    by (simp_all add: c_lex.simps(2))
  with cf_is_lexer [of "[97, 47, 98, 39, 34, 39]" CC_CODE] cf_is_lexer [of "[47, 34, 97, 34]" CC_CODE]
  show ?thesis by (auto simp: EOF_def)
qed

end
