(* ===== verification/Reader.thy ===== *)
theory Reader
  imports CfLex Interfaces
begin

text \<open>
  The reader of the source scanner (\<open>cf_getc\<close> and \<open>cf_ungetc\<close> of src/libincbot/incbot.c): it
  pulls bytes from a file through libcf and delivers the characters of class \<open>CC_CODE\<close> only.

  \<open>cf_getc\<close> loops until libcf has delivered a code character; with a vector that has no room
  the loop would not end, so it is a \<^theory_text>\<open>partial_function\<close>. Under the invariant
  \<open>reader_ok\<close> it always returns, and \<open>pending\<close> lists what it is still going to return.
  The echo of the input under \<open>necho\<close> is not modelled: \<open>necho\<close> is 0 and nothing sets it.
\<close>

section \<open>The code\<close>

definition fgetc :: "string \<Rightarrow> int \<times> string" where
  "fgetc f = (case f of [] \<Rightarrow> (EOF, []) | c # cs \<Rightarrow> (uc c, cs))"

lemma fgetc_simps [simp]: "fgetc [] = (EOF, [])" "fgetc (c # cs) = (uc c, cs)"
  by (simp_all add: fgetc_def)

text \<open>The three arguments \<open>f\<close>, \<open>cf\<close> and \<open>ccv\<close> that the code passes to the reader.\<close>

record reader =
  input :: string
  cf :: cf_t
  ccv :: ccv_t

text \<open>
  The \<open>for\<close> loop over the vector: the first end, error or code super-character, and what is
  left behind it after the copy to the front.
\<close>

fun next_code :: "ccl_t list \<Rightarrow> (int \<times> ccl_t list) option" where
  "next_code [] = None"
| "next_code (x # xs) =
     (let c = (if ccl x = CC_EOF then EOF else chr x)
      in if ccl x = CC_ERR \<or> ccl x = CC_EOF \<or> ccl x AND CC_CODE \<noteq> 0 then Some (c, xs)
         else next_code xs)"

text \<open>The messages before the two exits.\<close>

definition getc_failed :: "int \<Rightarrow> string" where
  "getc_failed rv = ''cf_next() failed; err='' @ dec_int rv @ [CHR 0x0A]"

definition ungetc_failed :: "nat \<Rightarrow> string" where
  "ungetc_failed n =
     ''Out of space in cf character class buffer.'' @ [CHR 0x0A]
       @ ''Capacity is '' @ dec_nat n @ '', which ought to be enough.'' @ [CHR 0x0A]"

partial_function (option) cf_getc_loop :: "reader \<Rightarrow> (int \<times> reader) outcome option" where
  "cf_getc_loop r =
     (if len (ccv r) = 0 then
        (let (c, f) = fgetc (input r)
         in case cf_next (cf r) (ccv r) c of
              Inl h \<Rightarrow> Some (Inl h)
            | Inr (rv, ctx', v) \<Rightarrow>
                (if rv \<noteq> 0 \<and> rv \<noteq> EOF then Some (Inl (Exit rv (getc_failed rv)))
                 else cf_getc_loop \<lparr>input = f, cf = ctx', ccv = v\<rparr>))
      else
        (case next_code (array (ccv r)) of
           Some (c, rest) \<Rightarrow> Some (Inr (c, r\<lparr>ccv := (ccv r)\<lparr>array := rest\<rparr>\<rparr>))
         | None \<Rightarrow> cf_getc_loop (r\<lparr>ccv := (ccv r)\<lparr>array := []\<rparr>\<rparr>)))"

definition cf_getc :: "reader \<Rightarrow> (int \<times> reader) outcome" where
  "cf_getc r = ended (cf_getc_loop r)"

definition cf_ungetc :: "int \<Rightarrow> reader \<Rightarrow> reader outcome" where
  "cf_ungetc c r =
     (if sz (ccv r) \<le> len (ccv r) then Inl (Exit ENOBUFS (ungetc_failed (sz (ccv r))))
      else Inr (r\<lparr>ccv := (ccv r)\<lparr>array := sup CC_CODE c # array (ccv r)\<rparr>\<rparr>))"

definition open_reader :: "string \<Rightarrow> reader" where
  "open_reader f = \<lparr>input = f, cf = cf_new CC_CODE, ccv = ccv_new\<rparr>"

section \<open>Every character read shortens the rest\<close>

text \<open>
  The measure of the scanner's loops: the bytes and super-characters not yet read, end markers
  apart, and the slash libcf may hold back. It holds for any reader, the ill-formed ones
  included.
\<close>

definition vweight :: "ccl_t list \<Rightarrow> nat" where
  "vweight xs = length (filter (\<lambda>x. ccl x \<noteq> CC_EOF) xs)"

definition sweight :: "cf_t \<Rightarrow> nat" where
  "sweight c = (if state c = S_START_SLASH then 1 else 0)"

definition weight :: "reader \<Rightarrow> nat" where
  "weight r = length (input r) + vweight (array (ccv r)) + sweight (cf r)"

lemma vweight_simps [simp]:
  "vweight [] = 0"
  "vweight (x # xs) = (if ccl x = CC_EOF then 0 else 1) + vweight xs"
  "vweight (xs @ ys) = vweight xs + vweight ys"
  by (simp_all add: vweight_def)

lemma vweight_push: "vweight (array (snd (ccv_push v c k))) \<le> vweight (array v) + 1"
  by (simp add: ccv_push_def)

lemma vweight_push_eof: "vweight (array (snd (ccv_push v c CC_EOF))) = vweight (array v)"
  by (simp add: ccv_push_def)

lemma next_code_weight:
  "next_code xs = Some (c, rest) \<Longrightarrow> vweight rest + (if c \<noteq> EOF then 1 else 0) \<le> vweight xs"
  by (induction xs) (fastforce simp: Let_def split: if_splits)+

lemma cf_switch_weight:
  "cf_switch s k c v = Inr (k', s', k'', la, v') \<Longrightarrow>
   vweight (array v') + (if s' = S_START_SLASH then 1 else 0) + (if la then 0 else 1)
     \<le> vweight (array v) + (if s = S_START_SLASH then 1 else 0) + 1"
  using vweight_push [of v chSLASH CC_OUTER_COMMENT] vweight_push [of v chSLASH CC_CODE]
  by (cases s) (auto split: if_splits)

lemma cf_next_weight:
  assumes "cf_next ctx v c = Inr (rv, ctx', v')"
  shows "vweight (array v') + sweight ctx' \<le> vweight (array v) + sweight ctx
           + (if c = EOF then 0 else 1)"
proof (cases "state ctx = S_EOF \<or> c = EOF")
  case True
  with assms show ?thesis
    by (auto simp: cf_next_def cf_next_eof_def sweight_def Let_def vweight_push_eof
        split: if_splits prod.splits)
next
  case False
  with assms obtain k s' k'' la v1 where
    sw: "cf_switch (state ctx) (cclass ctx) c v = Inr (k, s', k'', la, v1)"
    and ctx': "state ctx' = s'"
    and v': "v' = (if la then v1 else snd (ccv_push v1 c k))"
    by (auto simp: cf_next_def andthen_Inr_iff Let_def)
  have "vweight (array v') \<le> vweight (array v1) + (if la then 0 else 1)"
    using v' vweight_push [of v1 c k] by simp
  with cf_switch_weight [OF sw] False ctx' show ?thesis
    by (simp add: sweight_def)
qed

lemma cf_getc_loop_weight:
  assumes "cf_getc_loop r = Some y" and "y = Inr (c, r')"
  shows "weight r' + (if c \<noteq> EOF then 1 else 0) \<le> weight r"
proof -
  let ?P = "\<lambda>r y. \<forall>c r'. y = Inr (c, r') \<longrightarrow> weight r' + (if c \<noteq> EOF then 1 else 0) \<le> weight r"
  have "?P r y"
  proof (rule cf_getc_loop.raw_induct [where P = ?P, OF _ assms(1)])
    fix f r y
    assume IH: "\<And>r y. f r = Some y \<Longrightarrow> ?P r y"
      and eq: "(if len (ccv r) = 0 then
          (let (c, fl) = fgetc (input r)
           in case cf_next (cf r) (ccv r) c of
                Inl h \<Rightarrow> Some (Inl h)
              | Inr (rv, ctx', v) \<Rightarrow>
                  (if rv \<noteq> 0 \<and> rv \<noteq> EOF then Some (Inl (Exit rv (getc_failed rv)))
                   else f \<lparr>input = fl, cf = ctx', ccv = v\<rparr>))
        else
          (case next_code (array (ccv r)) of
             Some (c, rest) \<Rightarrow> Some (Inr (c, r\<lparr>ccv := (ccv r)\<lparr>array := rest\<rparr>\<rparr>))
           | None \<Rightarrow> f (r\<lparr>ccv := (ccv r)\<lparr>array := []\<rparr>\<rparr>))) = Some y"
    show "?P r y"
    proof (cases "len (ccv r) = 0")
      case False
      then show ?thesis
        using eq IH [of "r\<lparr>ccv := (ccv r)\<lparr>array := []\<rparr>\<rparr>" y]
        by (fastforce simp: weight_def dest: next_code_weight split: option.splits prod.splits)
    next
      case True
      obtain c fl where g: "fgetc (input r) = (c, fl)" by (cases "fgetc (input r)")
      have le: "length fl + (if c = EOF then 0 else 1) \<le> length (input r)"
        using g by (cases "input r") auto
      show ?thesis
      proof (cases "cf_next (cf r) (ccv r) c")
        case (Inl h)
        with True g eq show ?thesis by auto
      next
        case (Inr a)
        obtain rv ctx' v where a: "a = (rv, ctx', v)" by (cases a)
        have "weight \<lparr>input = fl, cf = ctx', ccv = v\<rparr> \<le> weight r"
          using cf_next_weight [OF Inr [unfolded a]] le by (simp add: weight_def)
        then show ?thesis
          using True g eq Inr a IH [of "\<lparr>input = fl, cf = ctx', ccv = v\<rparr>" y]
          by (fastforce split: if_splits)
      qed
    qed
  qed
  with assms(2) show ?thesis by blast
qed

lemma cf_getc_weight:
  "cf_getc r = Inr (c, r') \<Longrightarrow> weight r' + (if c \<noteq> EOF then 1 else 0) \<le> weight r"
  by (cases "cf_getc_loop r") (auto simp: cf_getc_def dest: cf_getc_loop_weight)

lemma cf_ungetc_weight: "cf_ungetc c r = Inr r' \<Longrightarrow> weight r' = Suc (weight r)"
  by (auto simp: cf_ungetc_def weight_def cc_defs split: if_splits)

section \<open>What the reader delivers\<close>

text \<open>
  A super-character in the vector is either code or of another class that the reader skips;
  the end markers never stay in the vector.
\<close>

definition plain :: "ccl_t \<Rightarrow> bool" where
  "plain x \<longleftrightarrow> ccl x \<noteq> CC_EOF \<and> ccl x \<noteq> CC_ERR \<and> chr x \<noteq> EOF"

definition pending :: "reader \<Rightarrow> int list" where
  "pending r = code_of (array (ccv r)) @ code_of (fst (cf_run (state (cf r)) (map uc (input r))))"

definition reader_ok :: "reader \<Rightarrow> bool" where
  "reader_ok r \<longleftrightarrow> cf_ok (cf r) \<and> sz (ccv r) = NLOOKAHEAD \<and> len (ccv r) \<le> 2 \<and>
     list_all plain (array (ccv r)) \<and> (state (cf r) = S_EOF \<longrightarrow> input r = [])"

text \<open>After a read the vector holds at most one super-character: there is room to put one back.\<close>

definition settled :: "reader \<Rightarrow> bool" where
  "settled r \<longleftrightarrow> len (ccv r) \<le> 1"

lemma cc_distinct [simp]:
  "CC_CODE \<noteq> CC_EOF" "CC_CODE \<noteq> CC_ERR" "CC_UNDEF \<noteq> CC_EOF" "CC_UNDEF \<noteq> CC_ERR"
  "CC_OUTER_STRING \<noteq> CC_EOF" "CC_OUTER_STRING \<noteq> CC_ERR"
  "CC_INNER_STRING \<noteq> CC_EOF" "CC_INNER_STRING \<noteq> CC_ERR"
  "CC_OUTER_CHAR \<noteq> CC_EOF" "CC_OUTER_CHAR \<noteq> CC_ERR"
  "CC_INNER_CHAR \<noteq> CC_EOF" "CC_INNER_CHAR \<noteq> CC_ERR"
  "CC_OUTER_COMMENT \<noteq> CC_EOF" "CC_OUTER_COMMENT \<noteq> CC_ERR"
  "CC_INNER_COMMENT \<noteq> CC_EOF" "CC_INNER_COMMENT \<noteq> CC_ERR"
  by (simp_all add: cc_defs)

lemma plain_step: "live s \<Longrightarrow> c \<noteq> EOF \<Longrightarrow> list_all plain (fst (cf_step s c))"
  by (cases s) (auto simp: live_def plain_def EOF_def)

lemma next_code_plain:
  "list_all plain xs \<Longrightarrow>
   (case code_of xs of
      [] \<Rightarrow> next_code xs = None
    | c # cs \<Rightarrow> \<exists>rest. next_code xs = Some (c, rest) \<and> code_of rest = cs \<and>
        list_all plain rest \<and> length rest < length xs)"
  by (induction xs) (auto simp: plain_def split: list.splits)

lemma code_of_no_EOF: "list_all plain xs \<Longrightarrow> EOF \<notin> set (code_of xs)"
  by (induction xs) (auto simp: plain_def)

lemma code_run_no_EOF:
  "live s \<Longrightarrow> EOF \<notin> set cs \<Longrightarrow> EOF \<notin> set (code_of (fst (cf_run s cs)))"
proof (induction cs arbitrary: s)
  case Nil
  then show ?case by simp
next
  case (Cons c cs)
  then show ?case
    using code_of_no_EOF [OF plain_step [of s c]] live_step [of s c] by (auto simp: split_beta)
qed

lemma reader_ok_no_EOF: "reader_ok r \<Longrightarrow> EOF \<notin> set (pending r)"
proof -
  assume ok: "reader_ok r"
  have "EOF \<notin> set (map uc (input r))" by (auto simp: EOF_def uc_neq_EOF [unfolded EOF_def])
  then show ?thesis
    using ok code_of_no_EOF [of "array (ccv r)"] code_run_no_EOF [of "state (cf r)" "map uc (input r)"]
    by (cases "state (cf r) = S_EOF") (auto simp: pending_def reader_ok_def dest: cf_ok_live)
qed

lemma reader_ok_open [simp]: "reader_ok (open_reader f)"
  by (simp add: reader_ok_def open_reader_def ccv_new_def ccv_init_def cf_new_def cf_init_def
      cf_ok.simps)

lemma pending_open: "pending (open_reader f) = code_of (fst (cf_run S_START (map uc f)))"
  by (simp add: pending_def open_reader_def ccv_new_def ccv_init_def cf_new_def cf_init_def)

text \<open>Reading from a vector that holds a code character.\<close>

lemma cf_getc_vector:
  assumes ok: "reader_ok r" and code: "code_of (array (ccv r)) \<noteq> []"
  shows "\<exists>r'. cf_getc r = Inr (first (pending r), r') \<and> pending r' = tl (pending r) \<and>
    reader_ok r' \<and> settled r'"
proof -
  from code obtain c cs where cs: "code_of (array (ccv r)) = c # cs"
    by (cases "code_of (array (ccv r))") auto
  from ok have "list_all plain (array (ccv r))" by (simp add: reader_ok_def)
  from next_code_plain [OF this] cs obtain rest where
    n: "next_code (array (ccv r)) = Some (c, rest)" and rest: "code_of rest = cs"
    "list_all plain rest" "length rest < len (ccv r)"
    by auto
  let ?r' = "r\<lparr>ccv := (ccv r)\<lparr>array := rest\<rparr>\<rparr>"
  have "cf_getc r = Inr (c, ?r')"
    using n rest by (auto simp: cf_getc_def cf_getc_loop.simps [of r])
  moreover have "reader_ok ?r'" "settled ?r'"
    using ok rest by (auto simp: reader_ok_def settled_def)
  moreover have "pending r = c # pending ?r'"
    using cs rest by (simp add: pending_def)
  ultimately show ?thesis by auto
qed

text \<open>Reading when the vector holds no code: the vector is emptied and bytes are pulled.\<close>

lemma cf_getc_skip:
  assumes "reader_ok r" and "code_of (array (ccv r)) = []"
  shows "cf_getc r = cf_getc (r\<lparr>ccv := (ccv r)\<lparr>array := []\<rparr>\<rparr>)"
proof (cases "array (ccv r) = []")
  case True
  then have "r\<lparr>ccv := (ccv r)\<lparr>array := []\<rparr>\<rparr> = r"
    by (metis (full_types) ccv_t.surjective ccv_t.update_convs(2) reader.surjective
        reader.update_convs(3) old.unit.exhaust)
  then show ?thesis by simp
next
  case False
  from assms next_code_plain [of "array (ccv r)"] have "next_code (array (ccv r)) = None"
    by (auto simp: reader_ok_def)
  with False show ?thesis by (simp add: cf_getc_def cf_getc_loop.simps [of r])
qed

lemma cf_getc_empty:
  assumes "reader_ok r" and "array (ccv r) = []"
  shows "\<exists>r'. cf_getc r = Inr (first (pending r), r') \<and> pending r' = tl (pending r) \<and>
    reader_ok r' \<and> settled r'"
  using assms
proof (induction "input r" arbitrary: r)
  case Nil
  have v: "0 < sz (ccv r)" "cf_ok (cf r)"
    using Nil.prems(1) by (simp_all add: reader_ok_def NLOOKAHEAD_def)
  obtain ctx' where n: "cf_next (cf r) (ccv r) EOF = Inr (EOF, ctx', (ccv r)\<lparr>array := [sup CC_EOF 0]\<rparr>)"
    and ctx': "state ctx' = S_EOF" "cf_ok ctx'"
    using cf_next_at_eof [OF v(2) Nil.prems(2) v(1)] by blast
  let ?r' = "r\<lparr>cf := ctx', ccv := ccv r\<rparr>"
  have "cf_getc r = Inr (EOF, ?r')"
    using n Nil.prems(2) Nil.hyps [symmetric]
    by (simp add: cf_getc_def cf_getc_loop.simps [of r] cf_getc_loop.simps)
  moreover have "pending r = []" "pending ?r' = []" "reader_ok ?r'" "settled ?r'"
    using Nil ctx' by (simp_all add: pending_def reader_ok_def settled_def)
  ultimately show ?case by auto
next
  case (Cons x xs)
  have room: "len (ccv r) + 2 \<le> sz (ccv r)" and ok: "cf_ok (cf r)" "state (cf r) \<noteq> S_EOF"
    using Cons.prems Cons.hyps(2) by (auto simp: reader_ok_def NLOOKAHEAD_def)
  have live: "live (state (cf r))" by (rule cf_ok_live [OF ok])
  let ?st = "cf_step (state (cf r)) (uc x)"
  obtain ctx' where
    n: "cf_next (cf r) (ccv r) (uc x) = Inr (0, ctx', (ccv r)\<lparr>array := array (ccv r) @ fst ?st\<rparr>)"
    and ctx': "state ctx' = snd ?st" "cf_ok ctx'"
    using cf_next_step [OF ok(1) room ok(2) uc_neq_EOF(1) [of x]] by blast
  let ?r1 = "\<lparr>input = xs, cf = ctx', ccv = (ccv r)\<lparr>array := fst ?st\<rparr>\<rparr>"
  have get: "cf_getc r = cf_getc ?r1"
    using n Cons.prems(2) Cons.hyps(2) [symmetric]
    by (simp add: cf_getc_def cf_getc_loop.simps [of r])
  have pend: "pending ?r1 = pending r"
    using Cons.prems(2) Cons.hyps(2) [symmetric] ctx'(1) by (simp add: pending_def split_beta)
  have "snd ?st \<noteq> S_EOF" using live_step [OF live] by (auto simp: live_def)
  then have ok1: "reader_ok ?r1"
    using Cons.prems(1) ctx' cf_step_length plain_step [OF live] by (simp add: reader_ok_def)
  show ?case
  proof (cases "code_of (fst ?st) = []")
    case False
    then show ?thesis using cf_getc_vector [OF ok1] get pend by simp
  next
    case True
    let ?r2 = "?r1\<lparr>ccv := (ccv ?r1)\<lparr>array := []\<rparr>\<rparr>"
    have "cf_getc r = cf_getc ?r2" using cf_getc_skip [OF ok1] True get by simp
    moreover have "pending ?r2 = pending r" using pend True by (simp add: pending_def)
    moreover have "reader_ok ?r2" using ok1 by (simp add: reader_ok_def)
    ultimately show ?thesis using Cons.hyps(1) [of ?r2] by simp
  qed
qed

lemma cf_getc_pending:
  assumes "reader_ok r"
  shows "\<exists>r'. cf_getc r = Inr (first (pending r), r') \<and> pending r' = tl (pending r) \<and>
    reader_ok r' \<and> settled r'"
proof (cases "code_of (array (ccv r)) = []")
  case False
  then show ?thesis by (rule cf_getc_vector [OF assms])
next
  case True
  let ?r2 = "r\<lparr>ccv := (ccv r)\<lparr>array := []\<rparr>\<rparr>"
  have "pending ?r2 = pending r" "reader_ok ?r2"
    using True assms by (simp_all add: pending_def reader_ok_def)
  then show ?thesis using cf_getc_skip [OF assms True] cf_getc_empty [of ?r2] by simp
qed

lemma cf_ungetc_pending:
  assumes "reader_ok r" and "settled r" and "c \<noteq> EOF"
  shows "\<exists>r'. cf_ungetc c r = Inr r' \<and> pending r' = c # pending r \<and> reader_ok r'"
  using assms
  by (auto simp: cf_ungetc_def reader_ok_def settled_def pending_def plain_def NLOOKAHEAD_def)

interpretation src: char_source cf_getc cf_ungetc pending reader_ok settled
  by unfold_locales (auto intro: cf_getc_pending cf_ungetc_pending dest: reader_ok_no_EOF)

section \<open>Properties\<close>

text \<open>Reading \<open>n\<close> characters.\<close>

fun cf_getc_n :: "nat \<Rightarrow> reader \<Rightarrow> (int list \<times> reader) outcome" where
  "cf_getc_n 0 r = Inr ([], r)"
| "cf_getc_n (Suc n) r =
     andthen (cf_getc r) (\<lambda>(c, r). andthen (cf_getc_n n r) (\<lambda>(cs, r). Inr (c # cs, r)))"

lemma cf_getc_n_pending:
  assumes "reader_ok r"
  shows "\<exists>r'. cf_getc_n (length (pending r) + n) r = Inr (pending r @ replicate n EOF, r')"
  using assms
proof (induction "length (pending r) + n" arbitrary: r n)
  case 0
  then show ?case by simp
next
  case (Suc m)
  from cf_getc_pending [OF Suc.prems] obtain r1 where
    r1: "cf_getc r = Inr (first (pending r), r1)" "pending r1 = tl (pending r)" "reader_ok r1"
    by blast
  show ?case
  proof (cases "pending r")
    case Nil
    with Suc(2) obtain n' where n: "n = Suc n'" "m = n'" by (cases n) auto
    with Suc(1) [of r1 n'] r1 Nil show ?thesis by auto
  next
    case (Cons c cs)
    with Suc(1) [of r1 n] Suc(2) r1 show ?thesis by auto
  qed
qed

text \<open>C13: \<open>cf_getc\<close> always returns; it delivers exactly the characters that the reference lexer finds
  to be code, in order, with comments and literals removed, and then \<open>EOF\<close> for ever. The text may
  be anything in which no literal stands directly behind a slash of the code and the last character
  is not such a slash.\<close>

theorem getc_delivers_code:
  assumes "libcf_exact (map uc f)"
  shows "\<exists>r. cf_getc_n (length (c_code (map uc f)) + n) (open_reader f) =
    Inr (c_code (map uc f) @ replicate n EOF, r)"
proof -
  have "pending (open_reader f) = c_code (map uc f)"
    by (simp add: pending_open run_lex [OF assms] c_code_def)
  with cf_getc_n_pending [OF reader_ok_open, of f n] show ?thesis by simp
qed

text \<open>The text \<open>a/b"x\""/***/''\<close>, followed by an unterminated comment.\<close>

theorem getc_delivers_code_witness:
  "\<exists>r. cf_getc_n (3 + 2) (open_reader [CHR ''a'', CHR ''/'', CHR ''b'', CHR 0x22, CHR ''x'', CHR 0x5C, CHR 0x22,
      CHR 0x22, CHR ''/'', CHR ''*'', CHR ''*'', CHR ''*'', CHR ''/'', CHR 0x27, CHR 0x27, CHR ''/'', CHR ''*'',
      CHR ''z'']) = Inr ([97, 47, 98] @ replicate 2 EOF, r)"
proof -
  let ?f = "[CHR ''a'', CHR ''/'', CHR ''b'', CHR 0x22, CHR ''x'', CHR 0x5C, CHR 0x22,
      CHR 0x22, CHR ''/'', CHR ''*'', CHR ''*'', CHR ''*'', CHR ''/'', CHR 0x27, CHR 0x27, CHR ''/'', CHR ''*'',
      CHR ''z'']"
  have l: "c_lex (map uc ?f) = [sup CC_CODE 97, sup CC_CODE 47, sup CC_CODE 98, sup CC_OUTER_STRING 34,
      sup CC_INNER_STRING 120, sup CC_INNER_STRING 92, sup CC_INNER_STRING 34, sup CC_OUTER_STRING 34,
      sup CC_OUTER_COMMENT 47, sup CC_OUTER_COMMENT 42, sup CC_INNER_COMMENT 42, sup CC_INNER_COMMENT 42,
      sup CC_INNER_COMMENT 47, sup CC_OUTER_CHAR 39, sup CC_OUTER_CHAR 39, sup CC_OUTER_COMMENT 47,
      sup CC_OUTER_COMMENT 42, sup CC_INNER_COMMENT 122]"
    by (simp add: uc_def c_lex.simps(2))
  then have f: "libcf_exact (map uc ?f)" "c_code (map uc ?f) = [97, 47, 98]"
    by (simp_all add: libcf_exact_def c_code_def cc_defs)
  then have "length (c_code (map uc ?f)) = 3" by simp
  from getc_delivers_code [OF f(1), of 2, unfolded this, unfolded f(2)] show ?thesis .
qed

text \<open>A character put back with \<open>cf_ungetc\<close> after a read is the next one \<open>cf_getc\<close> returns,
  and the rest of the input is unchanged.\<close>

theorem ungetc_getc:
  assumes "reader_ok r" and "settled r" and "c \<noteq> EOF"
  shows "\<exists>r'. andthen (cf_ungetc c r) cf_getc = Inr (c, r') \<and> pending r' = pending r"
  using src.getc_ungetc [OF assms] by blast

theorem ungetc_getc_witness:
  "\<exists>r'. andthen (cf_ungetc 97 (open_reader ''b'')) cf_getc = Inr (97, r') \<and>
     pending r' = pending (open_reader ''b'')"
  by (rule ungetc_getc [OF reader_ok_open])
    (simp_all add: settled_def open_reader_def ccv_new_def ccv_init_def EOF_def)

end
