(* ===== verification/Scan.thy ===== *)
theory Scan
  imports IdTableSpec Reader
begin

text \<open>
  The scanner of C source of src/libincbot/incbot.c: \<open>incbot_src_stream\<close> reads the code
  characters of a file, recognises identifiers and records a reference for every identifier
  that the id-table knows. Each inner loop of the C function is a function of its own; all of
  them end because every character read shortens what is left (\<open>cf_getc_weight\<close>).
  The lookups made for the arguments of \<open>dbg_printf\<close> are done whether or not it prints.
\<close>

section \<open>Identifiers\<close>

definition is_identifier_start :: "int \<Rightarrow> bool" where
  "is_identifier_start c \<longleftrightarrow> c_isalpha c \<or> c = chUS"

definition is_identifier :: "int \<Rightarrow> bool" where
  "is_identifier c \<longleftrightarrow> c_isalpha c \<or> c_isdigit c \<or> c = chUS"

definition IDBUF_SZ :: nat where "IDBUF_SZ = 1024"

lemma ident_EOF [simp]: "\<not> is_identifier_start EOF" "\<not> is_identifier EOF"
  by (simp_all add: is_identifier_start_def is_identifier_def EOF_def c_isalpha_def c_isdigit_def)

lemma ident_start_ident: "is_identifier_start c \<Longrightarrow> is_identifier c"
  by (auto simp: is_identifier_start_def is_identifier_def)

text \<open>\<open>*dstp++ = c; ++col\<close>\<close>

definition store_ident :: "string \<times> nat \<Rightarrow> int \<Rightarrow> (string \<times> nat) outcome" where
  "store_ident s c =
     (let (buf, col) = s
      in if length buf < IDBUF_SZ then Inr (buf @ [to_char c], col + 1) else Inl Undef)"

function read_ident :: "reader \<Rightarrow> string \<times> nat \<Rightarrow> (int \<times> (string \<times> nat) \<times> reader) outcome" where
  "read_ident r s =
     andthen (cf_getc r) (\<lambda>(c, r').
       if c \<noteq> EOF \<and> is_identifier c then andthen (store_ident s c) (\<lambda>s'. read_ident r' s')
       else Inr (c, s, r'))"
  by pat_completeness auto
termination
  by (relation "measure (\<lambda>(r, s). weight r)") (auto dest!: cf_getc_weight split: if_splits)

declare read_ident.simps [simp del]

function skip_space :: "int \<Rightarrow> nat \<Rightarrow> reader \<Rightarrow> (int \<times> nat \<times> reader) outcome" where
  "skip_space c col r =
     (if c \<noteq> EOF \<and> c_isspace c then
        andthen (cf_getc r) (\<lambda>(c', r'). skip_space c' (col + 1) r')
      else Inr (c, col, r))"
  by pat_completeness auto
termination
  by (relation "measure (\<lambda>(c, col, r). weight r + (if c = EOF then 0 else 1))")
    (auto dest!: cf_getc_weight split: if_splits)

declare skip_space.simps [simp del]

function skip_line :: "reader \<Rightarrow> (int \<times> reader) outcome" where
  "skip_line r =
     andthen (cf_getc r) (\<lambda>(c, r').
       if c \<noteq> EOF \<and> c \<noteq> chNL then skip_line r' else Inr (c, r'))"
  by pat_completeness auto
termination
  by (relation "measure weight") (auto dest!: cf_getc_weight split: if_splits)

declare skip_line.simps [simp del]

lemma read_ident_weight:
  "read_ident r s = Inr (c, s', r') \<Longrightarrow> weight r' + (if c = EOF then 0 else 1) \<le> weight r"
proof (induction r s rule: read_ident.induct)
  case (1 r s)
  from "1.prems" obtain c1 r1 where g: "cf_getc r = Inr (c1, r1)"
    by (subst (asm) read_ident.simps) (auto simp: andthen_Inr_iff)
  note w = cf_getc_weight [OF g]
  show ?case
  proof (cases "c1 \<noteq> EOF \<and> is_identifier c1")
    case True
    with "1.prems" g obtain s1 where s1: "store_ident s c1 = Inr s1" "read_ident r1 s1 = Inr (c, s', r')"
      by (subst (asm) read_ident.simps) (auto simp: andthen_Inr_iff)
    from "1.IH" [OF g refl True s1] w True show ?thesis by auto
  next
    case False
    with "1.prems" g w show ?thesis by (subst (asm) read_ident.simps) (auto split: if_splits)
  qed
qed

lemma skip_space_weight:
  "skip_space c col r = Inr (c', col', r') \<Longrightarrow>
   weight r' + (if c' = EOF then 0 else 1) \<le> weight r + (if c = EOF then 0 else 1)"
proof (induction c col r rule: skip_space.induct)
  case (1 c col r)
  show ?case
  proof (cases "c \<noteq> EOF \<and> c_isspace c")
    case True
    with "1.prems" obtain c1 r1 where g: "cf_getc r = Inr (c1, r1)"
      and n: "skip_space c1 (col + 1) r1 = Inr (c', col', r')"
      by (subst (asm) skip_space.simps) (auto simp: andthen_Inr_iff)
    from "1.IH" [OF True g refl n] cf_getc_weight [OF g] True show ?thesis
      by (cases "c1 = EOF"; cases "c' = EOF") simp_all
  next
    case False
    with "1.prems" show ?thesis by (subst (asm) skip_space.simps) auto
  qed
qed

lemma skip_line_weight: "skip_line r = Inr (c, r') \<Longrightarrow> weight r' \<le> weight r"
proof (induction r rule: skip_line.induct)
  case (1 r)
  from "1.prems" obtain c1 r1 where g: "cf_getc r = Inr (c1, r1)"
    by (subst (asm) skip_line.simps) (auto simp: andthen_Inr_iff)
  note w = cf_getc_weight [OF g]
  show ?case
  proof (cases "c1 \<noteq> EOF \<and> c1 \<noteq> chNL")
    case True
    with "1.prems" g have "skip_line r1 = Inr (c, r')" by (subst (asm) skip_line.simps) auto
    from "1.IH" [OF g refl True this] w show ?thesis by auto
  next
    case False
    with "1.prems" g w show ?thesis by (subst (asm) skip_line.simps) (auto split: if_splits)
  qed
qed

section \<open>The main loop\<close>

record src_loc =
  sl_lnr :: nat
  sl_col :: nat
  sl_pp :: bool

text \<open>The start of the body of the loop: line, column and the sign of a directive.\<close>

definition track :: "src_loc \<Rightarrow> int \<Rightarrow> src_loc" where
  "track l c =
     (let l = (if c = chNL then l\<lparr>sl_lnr := sl_lnr l + 1, sl_col := 0, sl_pp := False\<rparr>
               else l\<lparr>sl_col := sl_col l + 1\<rparr>)
      in if sl_col l = 1 \<and> c = chHASH then l\<lparr>sl_pp := True\<rparr> else l)"

text \<open>The reference to an identifier that the table knows (the block guarded by
  \<open>idnr != undef_idnr\<close>), and the part of it that reports the reference. The name of the
  declaration is looked up, in \<open>id_symtable\<close>, whether or not it is printed.\<close>

definition report_ref :: "incbot \<Rightarrow> dict \<Rightarrow> idinfo \<Rightarrow> string option \<Rightarrow> string \<Rightarrow> nat \<Rightarrow> incbot outcome" where
  "report_ref st dict_ids e ref_name fname lnr =
     andthen (dbg_arg st ref_name) (\<lambda>ref_sym.
       let st = dbg_printf (''File: '' @ fname @ [CHR 0x0A]) st;
           st = dbg_printf (''lnr='' @ dec_nat lnr @ '', id='' @ dec_nat (id_sym e) @ ''=[''
                  @ ref_sym @ ''], type='' @ decode_id_type (id_type e)) st
       in andthen
            (if id_type e = TYPE_TYPEDEF \<and> id_declare e \<noteq> 0 then
               andthen (dict_getname_nr dict_ids (id_declare e)) (\<lambda>decl_name.
                 andthen (dbg_arg st decl_name) (\<lambda>decl_sym.
                   Inr (dbg_printf ('', '' @ decl_sym) st)))
             else Inr st)
            (\<lambda>st. Inr (dbg_printf [CHR 0x0A] st)))"

definition record_ref :: "incbot \<Rightarrow> nat \<Rightarrow> string \<Rightarrow> nat \<Rightarrow> incbot outcome" where
  "record_ref st idnr fname lnr =
     andthen (arr_get (id_table st) idnr) (\<lambda>e.
       case (id_symtable st, strtable st) of
         (Some dict_ids, Some dict_strs) \<Rightarrow>
           andthen (dict_getname_nr dict_ids (id_sym e)) (\<lambda>ref_name.
             andthen
               (if id_src1 e \<noteq> undef_symnr then
                  andthen (dict_getname_nr dict_strs (id_src1 e)) (\<lambda>inc_name.
                    if (case inc_name of None \<Rightarrow> False | Some s \<Rightarrow> s \<noteq> []) \<and> id_type e \<noteq> TYPE_KEYWORD
                    then add_ref_inc_pair st (id_src1 e) (id_sym e) idnr lnr
                    else Inr st)
                else Inr st)
               (\<lambda>st. report_ref st dict_ids e ref_name fname lnr))
       | _ \<Rightarrow> Inl Undef)"

definition include_name :: string where "include_name = ''include''"

text \<open>
  The body for an identifier that starts with \<open>c\<close>. The result is \<open>None\<close> where the code breaks
  out of the loop, at the end of the file.
\<close>

definition lookup_ident ::
  "incbot \<Rightarrow> string \<Rightarrow> src_loc \<Rightarrow> string \<Rightarrow> 32 word \<Rightarrow> int \<Rightarrow> reader \<Rightarrow>
   (incbot \<times> (src_loc \<times> reader) option) outcome" where
  "lookup_ident st fname l buf find_type c r =
     andthen (id_find st buf find_type) (\<lambda>(idnr, st).
       andthen (if idnr \<noteq> undef_idnr then record_ref st idnr fname (sl_lnr l) else Inr st) (\<lambda>st.
         let l = (if c = chNL then l\<lparr>sl_lnr := sl_lnr l + 1\<rparr> else l)
         in Inr (st, if c = EOF then None else Some (l, r))))"

definition ident_step ::
  "incbot \<Rightarrow> string \<Rightarrow> src_loc \<Rightarrow> int \<Rightarrow> reader \<Rightarrow> (incbot \<times> (src_loc \<times> reader) option) outcome" where
  "ident_step st fname l c r =
     andthen (read_ident r ([to_char c], sl_col l)) (\<lambda>(c, (buf, col), r).
       if IDBUF_SZ \<le> length buf then Inl Undef
       else
         andthen (skip_space c col r) (\<lambda>(c, col, r).
           let l = l\<lparr>sl_col := col\<rparr>;
               find_type = (if c = chLPAR then TYPE_FUNCTION OR TYPE_KEYWORD
                            else TYPE_ALL AND NOT TYPE_FUNCTION)
           in andthen (if c \<noteq> chLPAR \<and> is_identifier_start c then cf_ungetc c r else Inr r) (\<lambda>r.
                if sl_pp l \<and> strcmp buf include_name = 0 then
                  andthen (skip_line r) (\<lambda>(c, r).
                    if c = chNL then
                      lookup_ident st fname (l\<lparr>sl_lnr := sl_lnr l + 1, sl_col := 0, sl_pp := False\<rparr>)
                        buf find_type c r
                    else Inr (st, None))
                else lookup_ident st fname l buf find_type c r)))"

lemma lookup_ident_reader:
  "lookup_ident st fname l buf t c r = Inr (st', Some (l', r')) \<Longrightarrow> r' = r"
  by (auto simp: lookup_ident_def andthen_Inr_iff Let_def split: if_splits prod.splits)

lemma ident_step_weight:
  assumes "ident_step st fname l c r = Inr (st', Some (l', r'))"
  shows "weight r' \<le> weight r"
proof -
  let ?unget = "\<lambda>c2 r2. if c2 \<noteq> chLPAR \<and> is_identifier_start c2 then cf_ungetc c2 r2 else Inr r2"
  from assms obtain c1 buf col r1 where i: "read_ident r ([to_char c], sl_col l) = Inr (c1, (buf, col), r1)"
    and n: "\<not> IDBUF_SZ \<le> length buf"
    using assms [unfolded ident_step_def] by (elim andthen_InrE) (auto split: if_splits)
  from assms i n obtain c2 col2 r2 where s: "skip_space c1 col r1 = Inr (c2, col2, r2)"
    by (cases "skip_space c1 col r1") (auto simp: ident_step_def)
  from assms i n s obtain r3 where u: "?unget c2 r2 = Inr r3"
    by (cases "?unget c2 r2") (auto simp: ident_step_def Let_def)
  have k: "r' = r3 \<or> (\<exists>c4. skip_line r3 = Inr (c4, r'))"
    using assms i n s u
    by (cases "skip_line r3")
      (auto simp: ident_step_def Let_def split: if_splits dest!: lookup_ident_reader)
  have "weight r2 + (if c2 = EOF then 0 else 1) \<le> weight r"
    using read_ident_weight [OF i] skip_space_weight [OF s] by (cases "c1 = EOF") auto
  moreover have "weight r3 \<le> weight r2 + (if c2 = EOF then 0 else 1)"
    using u by (cases "c2 = EOF") (auto split: if_splits dest: cf_ungetc_weight)
  ultimately show ?thesis using k skip_line_weight by (auto dest!: skip_line_weight)
qed

function src_loop :: "incbot \<Rightarrow> string \<Rightarrow> src_loc \<Rightarrow> reader \<Rightarrow> (int \<times> incbot) outcome" where
  "src_loop st fname l r =
     andthen (cf_getc r) (\<lambda>(c, r').
       if c = EOF then Inr (0, st)
       else
         (let l = track l c
          in if is_identifier_start c then
               andthen (ident_step st fname l c r') (\<lambda>(st', next).
                 case next of None \<Rightarrow> Inr (0, st') | Some (l', r'') \<Rightarrow> src_loop st' fname l' r'')
             else src_loop st fname l r'))"
  by pat_completeness auto
termination
  by (relation "measure (\<lambda>(st, fname, l, r). weight r)")
    (auto dest!: cf_getc_weight ident_step_weight)

declare src_loop.simps [simp del]

definition incbot_src_stream :: "incbot \<Rightarrow> string \<Rightarrow> string \<Rightarrow> (int \<times> incbot) outcome" where
  "incbot_src_stream st f fname =
     src_loop st fname \<lparr>sl_lnr = 0, sl_col = 0, sl_pp = False\<rparr> (open_reader f)"

text \<open>
  The files are given by a function from names to the result of \<open>fopen\<close>, and the standard
  input by its contents.
\<close>

type_synonym files = "string \<Rightarrow> int + string"

definition incbot_src_file :: "files \<Rightarrow> string \<Rightarrow> incbot \<Rightarrow> string \<Rightarrow> (int \<times> incbot) outcome" where
  "incbot_src_file fs stdin_text st fname =
     (if fname = ''-'' then incbot_src_stream st stdin_text fname
      else case fs fname of
             Inl e \<Rightarrow> Inr (e, eprintf (open_failed fname) st)
           | Inr f \<Rightarrow> incbot_src_stream st f fname)"

end
