(* ===== verification/ScanSpec.thy ===== *)
theory ScanSpec
  imports Scan
begin

text \<open>
  What the scanner computes, over the list of pending code characters instead of the reader,
  its vector and its buffers: \<open>scan\<close> lists the identifiers that are looked up, and \<open>refs_of\<close>
  the references recorded for them. \<open>src_loop_ok\<close> is the refinement.
\<close>

section \<open>The specification\<close>

text \<open>An identifier in the text: its name, whether a parenthesis follows, its line.\<close>

record occurrence =
  oc_name :: string
  oc_call :: bool
  oc_lnr :: nat

text \<open>An identifier that starts with \<open>c\<close>, before the characters \<open>cs\<close>: what is looked up, the
  place after it and the characters that remain.\<close>

definition scan_ident :: "src_loc \<Rightarrow> int \<Rightarrow> int list \<Rightarrow> occurrence list \<times> src_loc \<times> int list" where
  "scan_ident l c cs =
     (let after = dropWhile is_identifier cs;
          rest = dropWhile c_isspace after;
          name = map to_char (c # takeWhile is_identifier cs);
          call = (first rest = chLPAR);
          l = l\<lparr>sl_col := sl_col l + length (takeWhile is_identifier cs)
                 + length (takeWhile c_isspace after)\<rparr>;
          next = (if is_identifier_start (first rest) then rest else tl rest)
      in if sl_pp l \<and> name = include_name then
           (case dropWhile (\<lambda>c. c \<noteq> chNL) next of
              [] \<Rightarrow> ([], l, [])
            | _ # line \<Rightarrow>
                ([\<lparr>oc_name = name, oc_call = call, oc_lnr = sl_lnr l + 1\<rparr>],
                 l\<lparr>sl_lnr := sl_lnr l + 2, sl_col := 0, sl_pp := False\<rparr>, line))
         else ([\<lparr>oc_name = name, oc_call = call, oc_lnr = sl_lnr l\<rparr>], l, next))"

lemma length_dropWhile_le: "length (dropWhile P xs) \<le> length xs"
  by (induction xs) auto

lemma scan_ident_shorter:
  assumes "scan_ident l c cs = (ocs, l', cs')"
  shows "length cs' \<le> length cs"
proof -
  let ?rest = "dropWhile c_isspace (dropWhile is_identifier cs)"
  let ?next = "if is_identifier_start (first ?rest) then ?rest else tl ?rest"
  have "length ?rest \<le> length cs"
    by (meson length_dropWhile_le order_trans)
  then have n: "length ?next \<le> length cs" by auto
  have "length cs' \<le> length ?next"
    using assms length_dropWhile_le [of "\<lambda>c. c \<noteq> chNL" ?next]
    by (auto simp: scan_ident_def Let_def split: if_splits list.splits)
  with n show ?thesis by simp
qed

function scan :: "src_loc \<Rightarrow> int list \<Rightarrow> occurrence list" where
  "scan l [] = []"
| "scan l (c # cs) =
     (let l = track l c
      in if is_identifier_start c then
           (let (ocs, l', cs') = scan_ident l c cs in ocs @ scan l' cs')
         else scan l cs)"
  by pat_completeness auto
termination
  by (relation "measure (\<lambda>(l, cs). length cs)")
    (auto simp: less_Suc_eq_le dest: scan_ident_shorter [OF sym])

declare scan.simps(2) [simp del]

definition find_mask :: "bool \<Rightarrow> 32 word" where
  "find_mask call =
     (if call then TYPE_FUNCTION OR TYPE_KEYWORD else TYPE_ALL AND NOT TYPE_FUNCTION)"

definition ref_of ::
  "idinfo list \<Rightarrow> string list \<Rightarrow> string list \<Rightarrow> occurrence \<Rightarrow> incref list" where
  "ref_of ids ns ss oc =
     (let n = find_spec ids ns (oc_name oc) (find_mask (oc_call oc)); e = ids ! n
      in if n \<noteq> undef_idnr \<and> id_src1 e \<noteq> 0 \<and> ss ! (id_src1 e - 1) \<noteq> [] \<and> id_type e \<noteq> TYPE_KEYWORD
         then [\<lparr>ref_sym = n + 1, inc_sym = id_src1 e, ref_idnr = n, ref_lnr = oc_lnr oc\<rparr>]
         else [])"

definition refs_of ::
  "idinfo list \<Rightarrow> string list \<Rightarrow> string list \<Rightarrow> occurrence list \<Rightarrow> incref list" where
  "refs_of ids ns ss ocs = concat (map (ref_of ids ns ss) ocs)"

definition traces_of :: "idinfo list \<Rightarrow> string list \<Rightarrow> occurrence list \<Rightarrow> string" where
  "traces_of ids ns ocs =
     concat (map (\<lambda>oc. find_trace ids ns (oc_name oc) (find_mask (oc_call oc))) ocs)"

lemma refs_of_simps [simp]:
  "refs_of ids ns ss [] = []"
  "refs_of ids ns ss (oc # ocs) = ref_of ids ns ss oc @ refs_of ids ns ss ocs"
  "traces_of ids ns [] = []"
  "traces_of ids ns (oc # ocs) =
     find_trace ids ns (oc_name oc) (find_mask (oc_call oc)) @ traces_of ids ns ocs"
  by (simp_all add: refs_of_def traces_of_def)

text \<open>The entries' symbol numbers are in range; the declaration's in the other dictionary.\<close>

definition entries_ok :: "idinfo list \<Rightarrow> string list \<Rightarrow> string list \<Rightarrow> bool" where
  "entries_ok ids ns ss \<longleftrightarrow>
     (\<forall>e \<in> set ids. id_src1 e \<le> length ss \<and>
        (id_type e = TYPE_TYPEDEF \<longrightarrow> id_declare e \<le> length ns))"

section \<open>The inner loops\<close>

lemma store_ident_all:
  "length buf + length cs \<le> IDBUF_SZ \<Longrightarrow>
   foldo store_ident (buf, col) cs = Inr (buf @ map to_char cs, col + length cs)"
  by (induction cs arbitrary: buf col) (simp_all add: store_ident_def)

lemma store_ident_overflow:
  "length buf \<le> IDBUF_SZ \<Longrightarrow> IDBUF_SZ < length buf + length cs \<Longrightarrow>
   foldo store_ident (buf, col) cs = Inl Undef"
  by (induction cs arbitrary: buf col) (auto simp: store_ident_def)

lemma read_ident_ok:
  assumes "reader_ok r"
    and "length buf + length (takeWhile is_identifier (pending r)) \<le> IDBUF_SZ"
  obtains r' where "read_ident r (buf, col) =
      Inr (first (dropWhile is_identifier (pending r)),
           (buf @ map to_char (takeWhile is_identifier (pending r)),
            col + length (takeWhile is_identifier (pending r))), r')"
    "pending r' = tl (dropWhile is_identifier (pending r))" "reader_ok r'" "settled r'"
  using src.loop_returns [of read_ident is_identifier store_ident r "(buf, col)", OF read_ident.simps assms(1)
      store_ident_all [OF assms(2)]] by metis

lemma skip_space_cases:
  "c = EOF \<or> \<not> c_isspace c \<Longrightarrow> skip_space c col r = Inr (c, col, r)"
  "c \<noteq> EOF \<Longrightarrow> c_isspace c \<Longrightarrow>
   skip_space c col r = andthen (cf_getc r) (\<lambda>(c', r'). skip_space c' (col + 1) r')"
  by (subst skip_space.simps; auto)+

lemma skip_space_ok:
  assumes "reader_ok r" and "settled r" and "pending r = tl cs"
  obtains r' where "skip_space (first cs) col r =
      Inr (first (dropWhile c_isspace cs), col + length (takeWhile c_isspace cs), r')"
    "pending r' = tl (dropWhile c_isspace cs)" "reader_ok r'" "settled r'"
proof (cases "cs \<noteq> [] \<and> first cs \<noteq> EOF \<and> c_isspace (first cs)")
  case False
  then have "skip_space (first cs) col r = Inr (first cs, col, r)"
    by (subst skip_space.simps) (auto simp: first_def split: list.splits)
  moreover have "dropWhile c_isspace cs = cs \<and> takeWhile c_isspace cs = []"
    using False by (cases cs) auto
  ultimately show ?thesis using assms that by auto
next
  case True
  then obtain c cs' where cs: "cs = c # cs'" and c: "c \<noteq> EOF" "c_isspace c" by (cases cs) auto
  let ?f = "\<lambda>r s. andthen (cf_getc r) (\<lambda>(c, r'). skip_space c s r')"
  have eq: "?f r s = andthen (cf_getc r)
      (\<lambda>(c, r'). if c \<noteq> EOF \<and> c_isspace c then andthen (Inr (s + 1)) (?f r') else Inr (c, s, r'))"
    for r s
    by (intro andthen_cong refl) (auto simp: skip_space_cases)
  have "foldo (\<lambda>s c. Inr (s + 1)) s xs = Inr (s + length xs)" for s xs
    by (induction xs arbitrary: s) auto
  from src.loop_returns [of ?f c_isspace "\<lambda>s c. Inr (s + 1)" r "col + 1", OF eq assms(1) this]
  obtain r' where "?f r (col + 1) = Inr (first (dropWhile c_isspace (pending r)),
      col + 1 + length (takeWhile c_isspace (pending r)), r')"
    "pending r' = tl (dropWhile c_isspace (pending r))" "reader_ok r'" "settled r'"
    by metis
  with c assms(3) show ?thesis
    using that [of r'] by (simp add: cs skip_space.simps [of c])
qed

lemma skip_line_ok:
  assumes "reader_ok r"
  obtains r' where "skip_line r = Inr (first (dropWhile (\<lambda>c. c \<noteq> chNL) (pending r)), r')"
    "pending r' = tl (dropWhile (\<lambda>c. c \<noteq> chNL) (pending r))" "reader_ok r'" "settled r'"
proof -
  let ?f = "\<lambda>r (s :: unit). andthen (skip_line r) (\<lambda>(c, r'). Inr (c, s, r'))"
  have eq: "?f r s = andthen (cf_getc r)
      (\<lambda>(c, r'). if c \<noteq> EOF \<and> c \<noteq> chNL then andthen (Inr s) (?f r') else Inr (c, s, r'))"
    for r s
    by (subst skip_line.simps) (cases "cf_getc r"; auto)
  have "foldo (\<lambda>s c. Inr s) s xs = Inr s" for s :: unit and xs :: "int list"
    by (induction xs) auto
  from src.loop_returns [of ?f "\<lambda>c. c \<noteq> chNL" "\<lambda>s c. Inr s" r "()", OF eq assms this]
  obtain r' where "?f r () = Inr (first (dropWhile (\<lambda>c. c \<noteq> chNL) (pending r)), (), r')"
    "pending r' = tl (dropWhile (\<lambda>c. c \<noteq> chNL) (pending r))" "reader_ok r'" "settled r'"
    by metis
  with that show ?thesis by (auto elim!: andthen_InrE split: prod.splits)
qed

section \<open>Recording a reference\<close>

text \<open>The state while scanning: the tables, the references, what was printed on the standard error,
  and what was printed on the standard output and to \<open>errprint_fh\<close>.\<close>

definition scanned ::
  "incbot \<Rightarrow> idinfo list \<Rightarrow> string list \<Rightarrow> string list \<Rightarrow> incref list \<Rightarrow> string \<Rightarrow>
    string \<times> string \<Rightarrow> bool" where
  "scanned st ids ns ss rs err_t out_t \<longleftrightarrow>
     loaded st ids ns ss \<and> refs_are st rs \<and> stderr_text st = err_t \<and>
     (stdout_text st, errprint_text st) = out_t"

lemma scanned_loaded: "scanned st ids ns ss rs e t \<Longrightarrow> loaded st ids ns ss"
  by (simp add: scanned_def)

lemma scanned_dbg [simp]: "scanned (dbg_printf x st) ids ns ss rs e t = scanned st ids ns ss rs e t"
  by (simp add: scanned_def loaded_def) (simp add: dbg_printf_def)

lemma debug_printf [simp]: "debug (dbg_printf x st) = debug st"
  by (simp add: dbg_printf_def)

lemma add_ref_inc_pair_ok:
  assumes "scanned st ids ns ss rs e t"
  shows "\<exists>st'. add_ref_inc_pair st i r n k = Inr st' \<and>
    scanned st' ids ns ss (rs @ [\<lparr>ref_sym = r, inc_sym = i, ref_idnr = n, ref_lnr = k\<rparr>]) e t"
proof -
  let ?st = "if ref_inc_table_sz st \<le> ref_inc_table_len st then ref_inc_table_grow st else st"
  let ?x = "\<lparr>ref_sym = r, inc_sym = i, ref_idnr = n, ref_lnr = k\<rparr>"
  from assms have rep: "ref_inc_table_len st = length rs"
    "arr_rep (ref_inc_table st) rs (ref_inc_table_sz st)"
    by (simp_all add: scanned_def refs_are_def)
  have g: "ref_inc_table_len ?st = length rs" "arr_rep (ref_inc_table ?st) rs (ref_inc_table_sz ?st)"
    "length rs < ref_inc_table_sz ?st" "loaded ?st ids ns ss" "stderr_text ?st = e"
    "(stdout_text ?st, errprint_text ?st) = t"
    using assms rep arr_rep_grow [OF rep(2)] arr_rep_le [OF rep(2)]
    by (auto simp: ref_inc_table_grow_def ref_inc_table_segment_size_def scanned_def loaded_def
        tables_def)
  from arr_rep_push [OF g(2,3), of ?x] g show ?thesis
    by (simp add: add_ref_inc_pair_def scanned_def refs_are_def loaded_def tables_def Let_def)
qed

lemma find_spec_less:
  assumes "loaded st ids ns ss" and "find_spec ids ns s m \<noteq> undef_idnr"
  shows "find_spec ids ns s m < length ids"
proof -
  from assms(2) have "s \<in> set ns" "find_spec ids ns s m = symnr_of ns s - 1"
    by (auto simp: find_spec_def split: if_splits)
  with symnr_of_in [of s ns] assms(1) show ?thesis by (auto simp: loaded_def)
qed

text \<open>The report prints to \<open>dbgprint_fh\<close> only.\<close>

lemma report_ref_ok:
  assumes "id_type e = TYPE_TYPEDEF \<Longrightarrow> id_declare e \<noteq> 0 \<Longrightarrow>
    \<exists>x. dict_getname_nr d (id_declare e) = Inr (Some x)"
  shows "\<exists>st'. report_ref st d e (Some s) fname k = Inr st' \<and>
    (\<forall>ids ns ss rs e t. scanned st' ids ns ss rs e t = scanned st ids ns ss rs e t)"
proof -
  have arg: "dbg_arg st' (Some s) = Inr (if debug st' then s else [])" for st' s by (simp add: dbg_arg_def)
  show ?thesis
  proof (cases "id_type e = TYPE_TYPEDEF \<and> id_declare e \<noteq> 0")
    case True
    with assms obtain x where "dict_getname_nr d (id_declare e) = Inr (Some x)" by blast
    with True show ?thesis by (simp add: report_ref_def arg)
  next
    case False
    then show ?thesis by (auto simp: report_ref_def arg)
  qed
qed

lemma record_ref_ok:
  assumes S: "scanned st ids ns ss rs e t" and ok: "entries_ok ids ns ss" and n: "n < length ids"
  shows "\<exists>st'. record_ref st n fname k = Inr st' \<and>
    scanned st' ids ns ss
      (rs @ (if id_src1 (ids ! n) \<noteq> 0 \<and> ss ! (id_src1 (ids ! n) - 1) \<noteq> [] \<and> id_type (ids ! n) \<noteq> TYPE_KEYWORD
             then [\<lparr>ref_sym = n + 1, inc_sym = id_src1 (ids ! n), ref_idnr = n, ref_lnr = k\<rparr>]
             else [])) e t"
proof -
  let ?e = "ids ! n"
  from S obtain cur where t: "tables st ids cur ns ss" and l: "length ns = length ids" "in_step ids"
    by (auto simp: scanned_def loaded_def)
  from t obtain d1 d2 where d: "id_symtable st = Some d1" "dict_inv d1" "dict_names d1 = ns"
    "strtable st = Some d2" "dict_inv d2" "dict_names d2 = ss"
    by (auto simp: tables_def dict_is_def)
  have g: "arr_get (id_table st) n = Inr ?e"
    using t n arr_rep_get [of "id_table st" "ids @ cur" "id_table_sz st" n]
    by (simp add: tables_def nth_append)
  have sym: "id_sym ?e = n + 1" using l(2) n by (simp add: in_step_def)
  have mem: "?e \<in> set ids" using n by simp
  have nm1: "dict_getname_nr d1 (n + 1) = Inr (Some (ns ! n))"
    using dict.name_spec [OF d(2), of "n + 1"] d(3) l(1) n by simp
  have nm2: "dict_getname_nr d2 (id_src1 ?e) =
      Inr (if id_src1 ?e = 0 then None else Some (ss ! (id_src1 ?e - 1)))"
    using dict.name_spec [OF d(5), of "id_src1 ?e"] d(6) ok mem by (auto simp: entries_ok_def)
  have nm3: "\<exists>x. dict_getname_nr d1 (id_declare ?e) = Inr (Some x)"
    if "id_type ?e = TYPE_TYPEDEF" "id_declare ?e \<noteq> 0"
    using dict.name_spec [OF d(2), of "id_declare ?e"] d(3) ok mem that by (auto simp: entries_ok_def)
  define M where "M = (if id_src1 ?e \<noteq> undef_symnr then
      andthen (dict_getname_nr d2 (id_src1 ?e)) (\<lambda>inc_name.
        if (case inc_name of None \<Rightarrow> False | Some s \<Rightarrow> s \<noteq> []) \<and> id_type ?e \<noteq> TYPE_KEYWORD
        then add_ref_inc_pair st (id_src1 ?e) (id_sym ?e) n k else Inr st)
      else Inr st)"
  let ?Q = "id_src1 ?e \<noteq> 0 \<and> ss ! (id_src1 ?e - 1) \<noteq> [] \<and> id_type ?e \<noteq> TYPE_KEYWORD"
  have "M = (if ?Q then add_ref_inc_pair st (id_src1 ?e) (n + 1) n k else Inr st)"
    by (simp add: M_def nm2 sym undef_symnr_def)
  then obtain st' where st': "M = Inr st'"
    "scanned st' ids ns ss
      (rs @ (if ?Q then [\<lparr>ref_sym = n + 1, inc_sym = id_src1 ?e, ref_idnr = n, ref_lnr = k\<rparr>]
             else [])) e t"
    using add_ref_inc_pair_ok [OF S, of "id_src1 ?e" "n + 1" n k] S by (cases ?Q) auto
  have "record_ref st n fname k = andthen M (\<lambda>st'. report_ref st' d1 ?e (Some (ns ! n)) fname k)"
    by (simp only: record_ref_def g d(1,4) nm1 [folded sym] M_def andthen.simps prod.case option.case)
  moreover obtain st'' where "report_ref st' d1 ?e (Some (ns ! n)) fname k = Inr st''"
    "\<And>rs e t. scanned st'' ids ns ss rs e t = scanned st' ids ns ss rs e t"
    using report_ref_ok [of ?e d1 st' "ns ! n" fname k] nm3 by metis
  ultimately show ?thesis using st' by auto
qed

lemma lookup_ident_ok:
  assumes S: "scanned st ids ns ss rs e t" and ok: "entries_ok ids ns ss" and s: "cstring buf"
  shows "\<exists>st'. lookup_ident st fname l buf (find_mask call) c r =
      Inr (st', if c = EOF then None
                else Some (if c = chNL then l\<lparr>sl_lnr := sl_lnr l + 1\<rparr> else l, r)) \<and>
    scanned st' ids ns ss
      (rs @ ref_of ids ns ss \<lparr>oc_name = buf, oc_call = call, oc_lnr = sl_lnr l\<rparr>)
      (e @ find_trace ids ns buf (find_mask call)) t"
proof -
  let ?n = "find_spec ids ns buf (find_mask call)"
  from id_find_ok [OF scanned_loaded [OF S] s, of "find_mask call"] S obtain st1 where
    f: "id_find st buf (find_mask call) = Inr (?n, st1)"
    and S1: "scanned st1 ids ns ss rs (e @ find_trace ids ns buf (find_mask call)) t"
    by (auto simp: scanned_def refs_are_def)
  show ?thesis
  proof (cases "?n = undef_idnr")
    case True
    with f S1 show ?thesis by (simp add: lookup_ident_def ref_of_def Let_def)
  next
    case False
    from record_ref_ok [OF S1 ok find_spec_less [OF scanned_loaded [OF S] False], of fname "sl_lnr l"]
    obtain st2 where st2: "record_ref st1 ?n fname (sl_lnr l) = Inr st2"
      "scanned st2 ids ns ss
        (rs @ ref_of ids ns ss \<lparr>oc_name = buf, oc_call = call, oc_lnr = sl_lnr l\<rparr>)
        (e @ find_trace ids ns buf (find_mask call)) t"
      using False by (auto simp: ref_of_def Let_def cong del: if_weak_cong)
    with f False show ?thesis by (simp add: lookup_ident_def Let_def)
  qed
qed

section \<open>The refinement\<close>

lemma uc_to_char: "0 \<le> c \<Longrightarrow> c < 256 \<Longrightarrow> uc (to_char c) = c"
  by (simp add: uc_def to_char_def)

lemma ident_range: "is_identifier c \<Longrightarrow> 0 < c \<and> c < 256"
  by (auto simp: is_identifier_def ctype_defs)

lemma ident_cstring: "\<forall>c \<in> set w. is_identifier c \<Longrightarrow> cstring (map to_char w)"
  by (force simp: cstring_def uc_to_char dest: ident_range)

lemma word_cstring:
  "is_identifier_start c \<Longrightarrow> cstring (map to_char (c # takeWhile is_identifier cs))"
  by (rule ident_cstring) (auto dest: set_takeWhileD ident_start_ident)

lemma cstring_include: "cstring include_name"
  by (simp add: include_name_def uc_def)

lemma first_tl_Cons: "first xs \<noteq> EOF \<Longrightarrow> first xs # tl xs = xs"
  by (cases xs) auto

lemma first_not_newline: "first (dropWhile c_isspace xs) \<noteq> chNL"
  by (induction xs) (auto simp: c_isspace_def EOF_def)

lemma first_EOF_Nil: "EOF \<notin> set xs \<Longrightarrow> first xs = EOF \<longleftrightarrow> xs = []"
  by (cases xs) auto

text \<open>The characters that an identifier takes, and the reader after them.\<close>

lemma ident_read:
  assumes r: "reader_ok r" and len: "length (takeWhile is_identifier (pending r)) + 1 < IDBUF_SZ"
  defines "after \<equiv> dropWhile is_identifier (pending r)"
  defines "rest \<equiv> dropWhile c_isspace after"
  shows "\<exists>r1 r2 r3. read_ident r ([to_char c], col) = Inr (first after,
      (map to_char (c # takeWhile is_identifier (pending r)),
       col + length (takeWhile is_identifier (pending r))), r1) \<and>
    skip_space (first after) (col + length (takeWhile is_identifier (pending r))) r1 =
      Inr (first rest, col + length (takeWhile is_identifier (pending r))
        + length (takeWhile c_isspace after), r2) \<and>
    (if first rest \<noteq> chLPAR \<and> is_identifier_start (first rest)
     then cf_ungetc (first rest) r2 else Inr r2) = Inr r3 \<and>
    pending r3 = (if is_identifier_start (first rest) then rest else tl rest) \<and> reader_ok r3"
proof -
  let ?w = "takeWhile is_identifier (pending r)"
  have "length [to_char c] + length ?w \<le> IDBUF_SZ" using len by simp
  from read_ident_ok [OF r this, of col] obtain r1 where
    r1: "read_ident r ([to_char c], col) = Inr (first after, (map to_char (c # ?w), col + length ?w), r1)"
    "pending r1 = tl after" "reader_ok r1" "settled r1"
    by (auto simp: after_def)
  from skip_space_ok [OF r1(3,4,2), of "col + length ?w"] obtain r2 where
    r2: "skip_space (first after) (col + length ?w) r1 =
      Inr (first rest, col + length ?w + length (takeWhile c_isspace after), r2)"
    "pending r2 = tl rest" "reader_ok r2" "settled r2"
    by (auto simp: rest_def)
  have "\<exists>r3. (if first rest \<noteq> chLPAR \<and> is_identifier_start (first rest)
      then cf_ungetc (first rest) r2 else Inr r2) = Inr r3 \<and>
    pending r3 = (if is_identifier_start (first rest) then rest else tl rest) \<and> reader_ok r3"
  proof (cases "is_identifier_start (first rest)")
    case True
    then have ne: "first rest \<noteq> EOF" "first rest \<noteq> chLPAR"
      by (auto simp: is_identifier_start_def c_isalpha_def EOF_def)
    from cf_ungetc_pending [OF r2(3,4) ne(1)] r2(2) first_tl_Cons [OF ne(1)] True ne
    show ?thesis by auto
  next
    case False
    with r2 show ?thesis by auto
  qed
  with r1(1) r2(1) show ?thesis by blast
qed

text \<open>An identifier is looked up once, unless it is the name of an unfinished directive; this
  does not depend on the state of the tables.\<close>

definition looks_up :: "src_loc \<Rightarrow> int \<Rightarrow> reader \<Rightarrow> occurrence \<Rightarrow> src_loc \<Rightarrow> int list \<Rightarrow> bool" where
  "looks_up l c r oc l' cs' \<longleftrightarrow>
     (\<exists>l1 c2 r3. oc_lnr oc = sl_lnr l1 \<and> cstring (oc_name oc) \<and> reader_ok r3 \<and>
        pending r3 = cs' \<and> (c2 = EOF \<longrightarrow> cs' = []) \<and>
        l' = (if c2 = chNL then l1\<lparr>sl_lnr := sl_lnr l1 + 1\<rparr> else l1) \<and>
        (\<forall>st fname. ident_step st fname l c r =
           lookup_ident st fname l1 (oc_name oc) (find_mask (oc_call oc)) c2 r3))"

lemma ident_step_lookup:
  assumes r: "reader_ok r" and c: "is_identifier_start c"
    and sc: "scan_ident l c (pending r) = (ocs, l', cs')"
    and len: "length (takeWhile is_identifier (pending r)) + 1 < IDBUF_SZ"
  shows "ocs = [] \<and> cs' = [] \<and> (\<forall>st fname. ident_step st fname l c r = Inr (st, None)) \<or>
    (\<exists>oc. ocs = [oc] \<and> looks_up l c r oc l' cs')"
proof -
  let ?cs = "pending r"
  define after where "after = dropWhile is_identifier ?cs"
  define rest where "rest = dropWhile c_isspace after"
  define w where "w = takeWhile is_identifier ?cs"
  define buf where "buf = map to_char (c # w)"
  define lc where "lc = l\<lparr>sl_col := sl_col l + length w + length (takeWhile c_isspace after)\<rparr>"
  define call where "call = (first rest = chLPAR)"
  define nxt where "nxt = (if is_identifier_start (first rest) then rest else tl rest)"
  from ident_read [OF r len, of c "sl_col l"] obtain r1 r2 r3 where
    r1: "read_ident r ([to_char c], sl_col l) = Inr (first after, (buf, sl_col l + length w), r1)"
    and r2: "skip_space (first after) (sl_col l + length w) r1 =
      Inr (first rest, sl_col l + length w + length (takeWhile c_isspace after), r2)"
    and r3: "(if first rest \<noteq> chLPAR \<and> is_identifier_start (first rest)
          then cf_ungetc (first rest) r2 else Inr r2) = Inr r3"
    and p3: "pending r3 = nxt" "reader_ok r3"
    unfolding after_def [symmetric] rest_def [symmetric] w_def [symmetric] buf_def [symmetric]
      nxt_def [symmetric] by blast
  have bufs: "cstring buf" "\<not> IDBUF_SZ \<le> length buf" "strcmp buf include_name = 0 \<longleftrightarrow> buf = include_name"
    using word_cstring [OF c, of ?cs] len strcmp_eq_0 [OF _ cstring_include]
    by (simp_all add: buf_def w_def)
  have fm: "(if first rest = chLPAR then TYPE_FUNCTION OR TYPE_KEYWORD
      else TYPE_ALL AND NOT TYPE_FUNCTION) = find_mask call"
    by (simp add: find_mask_def call_def)
  have step: "ident_step st fname l c r =
      (if sl_pp lc \<and> buf = include_name then
         andthen (skip_line r3) (\<lambda>(c, r).
           if c = chNL then
             lookup_ident st fname (lc\<lparr>sl_lnr := sl_lnr lc + 1, sl_col := 0, sl_pp := False\<rparr>)
               buf (find_mask call) c r
           else Inr (st, None))
       else lookup_ident st fname lc buf (find_mask call) (first rest) r3)" for st fname
    by (simp only: ident_step_def r1 andthen.simps prod.case bufs(2,3) if_False r2 Let_def
        fm r3 lc_def [symmetric])
  have scan_eq: "scan_ident l c ?cs =
      (if sl_pp lc \<and> buf = include_name then
         (case dropWhile (\<lambda>c. c \<noteq> chNL) nxt of
            [] \<Rightarrow> ([], lc, [])
          | _ # line \<Rightarrow>
              ([\<lparr>oc_name = buf, oc_call = call, oc_lnr = sl_lnr lc + 1\<rparr>],
               lc\<lparr>sl_lnr := sl_lnr lc + 2, sl_col := 0, sl_pp := False\<rparr>, line))
       else ([\<lparr>oc_name = buf, oc_call = call, oc_lnr = sl_lnr lc\<rparr>], lc, nxt))"
    by (simp only: scan_ident_def Let_def buf_def [symmetric] w_def [symmetric]
        after_def [symmetric] rest_def [symmetric] call_def [symmetric] nxt_def [symmetric]
        lc_def [symmetric])
  show ?thesis
  proof (cases "sl_pp lc \<and> buf = include_name")
    case False
    have noEOF: "EOF \<notin> set rest"
      using src.no_EOF [OF r] by (auto simp: rest_def after_def dest: set_dropWhileD)
    have "first rest \<noteq> chNL" by (simp add: rest_def first_not_newline)
    with False step scan_eq sc bufs(1) first_EOF_Nil [OF noEOF] p3 show ?thesis
      unfolding looks_up_def
      by (intro disjI2 exI [of _ "\<lparr>oc_name = buf, oc_call = call, oc_lnr = sl_lnr lc\<rparr>"] conjI
          exI [of _ lc] exI [of _ "first rest"] exI [of _ r3]) (auto simp: nxt_def)
  next
    case True
    from skip_line_ok [OF p3(2)] obtain r4 where
      r4: "skip_line r3 = Inr (first (dropWhile (\<lambda>c. c \<noteq> chNL) nxt), r4)"
      "pending r4 = tl (dropWhile (\<lambda>c. c \<noteq> chNL) nxt)" "reader_ok r4"
      unfolding p3(1) by blast
    show ?thesis
    proof (cases "dropWhile (\<lambda>c. c \<noteq> chNL) nxt")
      case Nil
      with True step scan_eq sc r4 show ?thesis by (auto simp: EOF_def)
    next
      case (Cons x line)
      then have "x = chNL" by (simp add: dropWhile_eq_Cons_conv)
      with True step scan_eq sc r4 Cons bufs(1) show ?thesis
        unfolding looks_up_def
        by (intro disjI2 exI [of _ "\<lparr>oc_name = buf, oc_call = call, oc_lnr = sl_lnr lc + 1\<rparr>"] conjI
            exI [of _ "lc\<lparr>sl_lnr := sl_lnr lc + 1, sl_col := 0, sl_pp := False\<rparr>"]
            exI [of _ chNL] exI [of _ r4]) (auto simp: EOF_def)
    qed
  qed
qed

lemma ident_step_ok:
  assumes S: "scanned st ids ns ss rs e t" and ok: "entries_ok ids ns ss"
    and r: "reader_ok r" and c: "is_identifier_start c"
    and sc: "scan_ident l c (pending r) = (ocs, l', cs')"
    and len: "length (takeWhile is_identifier (pending r)) + 1 < IDBUF_SZ"
  shows "\<exists>st' nx. ident_step st fname l c r = Inr (st', nx) \<and>
    scanned st' ids ns ss (rs @ refs_of ids ns ss ocs) (e @ traces_of ids ns ocs) t \<and>
    (case nx of None \<Rightarrow> scan l' cs' = []
     | Some (l1, r1) \<Rightarrow> l1 = l' \<and> reader_ok r1 \<and> pending r1 = cs')"
proof (cases "ocs = []")
  case True
  with ident_step_lookup [OF r c sc len] S show ?thesis by auto
next
  case False
  with ident_step_lookup [OF r c sc len] obtain oc where
    o1: "ocs = [oc]" "looks_up l c r oc l' cs'" by blast
  from o1(2) [unfolded looks_up_def] obtain l1 c2 r3 where
    oc: "oc_lnr oc = sl_lnr l1" "cstring (oc_name oc)"
    and r3: "reader_ok r3" "pending r3 = cs'" "c2 = EOF \<longrightarrow> cs' = []"
    and l': "l' = (if c2 = chNL then l1\<lparr>sl_lnr := sl_lnr l1 + 1\<rparr> else l1)"
    and step: "ident_step st fname l c r = lookup_ident st fname l1 (oc_name oc) (find_mask (oc_call oc)) c2 r3"
    by blast
  have "\<lparr>oc_name = oc_name oc, oc_call = oc_call oc, oc_lnr = sl_lnr l1\<rparr> = oc" using oc(1) by simp
  with lookup_ident_ok [OF S ok oc(2), of fname l1 "oc_call oc" c2 r3] step o1(1) r3 l' show ?thesis
    by auto
qed

theorem src_loop_ok:
  assumes "scanned st ids ns ss rs e t" and ok: "entries_ok ids ns ss" and "reader_ok r"
    and "\<forall>oc \<in> set (scan l (pending r)). length (oc_name oc) < IDBUF_SZ"
  shows "\<exists>st'. src_loop st fname l r = Inr (0, st') \<and>
    scanned st' ids ns ss (rs @ refs_of ids ns ss (scan l (pending r)))
      (e @ traces_of ids ns (scan l (pending r))) t"
  using assms(1,3,4)
proof (induction "length (pending r)" arbitrary: st l r rs e rule: less_induct)
  case less
  from cf_getc_pending [OF less.prems(2)] obtain r1 where
    g: "cf_getc r = Inr (first (pending r), r1)" and r1: "pending r1 = tl (pending r)" "reader_ok r1"
    by blast
  show ?case
  proof (cases "pending r")
    case Nil
    with g less.prems(1) show ?thesis by (simp add: src_loop.simps [of st fname l r])
  next
    case (Cons c cs)
    have c: "c \<noteq> EOF" using src.no_EOF [OF less.prems(2)] by (auto simp: Cons)
    let ?l = "track l c"
    show ?thesis
    proof (cases "is_identifier_start c")
      case False
      with g c Cons have "src_loop st fname l r = src_loop st fname ?l r1"
        by (simp add: src_loop.simps [of st fname l r] Let_def)
      moreover have "scan l (pending r) = scan ?l (pending r1)"
        using False by (simp add: Cons r1 scan.simps Let_def)
      moreover have "length (pending r1) < length (pending r)" using r1 by (simp add: Cons)
      ultimately show ?thesis using less.hyps [of r1 st rs e ?l] less.prems r1(2) by simp
    next
      case True
      obtain ocs l' cs' where sc: "scan_ident ?l c (pending r1) = (ocs, l', cs')"
        by (cases "scan_ident ?l c (pending r1)")
      have scan_eq: "scan l (pending r) = ocs @ scan l' cs'"
        using True sc r1(1) by (simp add: Cons scan.simps Let_def)
      have len: "length (takeWhile is_identifier (pending r1)) + 1 < IDBUF_SZ"
        using less.prems(3) sc scan_eq
        by (auto simp: scan_ident_def Let_def include_name_def IDBUF_SZ_def
            dest!: arg_cong [of _ _ length] split: if_splits list.splits)
      from ident_step_ok [OF less.prems(1) ok r1(2) True sc len] obtain st1 nx where
        st1: "ident_step st fname ?l c r1 = Inr (st1, nx)"
        "scanned st1 ids ns ss (rs @ refs_of ids ns ss ocs) (e @ traces_of ids ns ocs) t"
        and nx: "case nx of None \<Rightarrow> scan l' cs' = []
          | Some (l1, r2) \<Rightarrow> l1 = l' \<and> reader_ok r2 \<and> pending r2 = cs'"
        by blast
      show ?thesis
      proof (cases nx)
        case None
        with st1 nx g c Cons True show ?thesis
          by (simp add: src_loop.simps [of st fname l r] Let_def scan_eq [unfolded Cons])
      next
        case (Some a)
        with nx obtain r2 where a: "a = (l', r2)" "reader_ok r2" "pending r2 = cs'"
          by (cases a) auto
        have step: "src_loop st fname l r = src_loop st1 fname l' r2"
          using st1 g c Cons True Some a by (simp add: src_loop.simps [of st fname l r] Let_def)
        have "length (pending r2) < length (pending r)"
          using scan_ident_shorter [OF sc] r1(1) a(3) by (simp add: Cons)
        moreover have "\<forall>oc \<in> set (scan l' (pending r2)). length (oc_name oc) < IDBUF_SZ"
          using less.prems(3) a(3) by (simp add: scan_eq)
        ultimately show ?thesis
          using less.hyps [OF _ st1(2) a(2), of l'] unfolding step scan_eq a(3)
          by (simp add: refs_of_def traces_of_def)
      qed
    qed
  qed
qed

section \<open>Identifiers too long for the buffer\<close>

lemma ident_overflow:
  assumes "reader_ok r" and "IDBUF_SZ \<le> length (takeWhile is_identifier (pending r)) + 1"
  shows "ident_step st fname l c r = Inl Undef"
proof (cases "length (takeWhile is_identifier (pending r)) + 1 = IDBUF_SZ")
  case True
  then have "length [to_char c] + length (takeWhile is_identifier (pending r)) \<le> IDBUF_SZ" by simp
  then obtain r1 where "read_ident r ([to_char c], sl_col l) =
      Inr (first (dropWhile is_identifier (pending r)),
        ([to_char c] @ map to_char (takeWhile is_identifier (pending r)),
         sl_col l + length (takeWhile is_identifier (pending r))), r1)"
    by (rule read_ident_ok [OF assms(1)])
  with True show ?thesis by (simp add: ident_step_def)
next
  case False
  with assms(2) have "foldo store_ident ([to_char c], sl_col l)
      (takeWhile is_identifier (pending r)) = Inl Undef"
    by (intro store_ident_overflow) (auto simp: IDBUF_SZ_def)
  with src.loop_spec [of read_ident is_identifier store_ident r "([to_char c], sl_col l)",
      OF read_ident.simps assms(1)]
  have "read_ident r ([to_char c], sl_col l) = Inl Undef" by simp
  then show ?thesis by (simp add: ident_step_def)
qed

section \<open>Properties\<close>

definition src_start :: src_loc where
  "src_start = \<lparr>sl_lnr = 0, sl_col = 0, sl_pp = False\<rparr>"

text \<open>The code characters of a file, and the identifiers that are looked up in it.\<close>

definition code_chars :: "string \<Rightarrow> int list" where
  "code_chars f = code_of (fst (cf_run S_START (map uc f)))"

definition lookups :: "string \<Rightarrow> occurrence list" where
  "lookups f = scan src_start (code_chars f)"

lemma src_stream_ok:
  assumes "scanned st ids ns ss rs e t" and "entries_ok ids ns ss"
    and "\<forall>oc \<in> set (lookups f). length (oc_name oc) < IDBUF_SZ"
  shows "\<exists>st'. incbot_src_stream st f fname = Inr (0, st') \<and>
    scanned st' ids ns ss (rs @ refs_of ids ns ss (lookups f)) (e @ traces_of ids ns (lookups f)) t"
  using src_loop_ok [OF assms(1,2) reader_ok_open [of f], of src_start] assms(3)
  by (simp add: incbot_src_stream_def src_start_def lookups_def code_chars_def pending_open)

text \<open>If no table was ever read, the dictionaries are null pointers, and the first lookup uses
  one of them.\<close>

lemma src_loop_no_table:
  assumes "id_symtable st = None" and "reader_ok r"
    and "\<forall>oc \<in> set (scan l (pending r)). length (oc_name oc) < IDBUF_SZ"
  shows "src_loop st fname l r = (if scan l (pending r) = [] then Inr (0, st) else Inl Undef)"
  using assms(2,3)
proof (induction "length (pending r)" arbitrary: l r rule: less_induct)
  case less
  from cf_getc_pending [OF less.prems(1)] obtain r1 where
    g: "cf_getc r = Inr (first (pending r), r1)" and r1: "pending r1 = tl (pending r)" "reader_ok r1"
    by blast
  show ?case
  proof (cases "pending r")
    case Nil
    with g show ?thesis by (simp add: src_loop.simps [of st fname l r])
  next
    case (Cons c cs)
    have c: "c \<noteq> EOF" using src.no_EOF [OF less.prems(1)] by (auto simp: Cons)
    let ?l = "track l c"
    show ?thesis
    proof (cases "is_identifier_start c")
      case False
      with g c Cons have "src_loop st fname l r = src_loop st fname ?l r1"
        by (simp add: src_loop.simps [of st fname l r] Let_def)
      moreover have "scan l (pending r) = scan ?l (pending r1)"
        using False by (simp add: Cons r1 scan.simps Let_def)
      ultimately show ?thesis using less.hyps [of r1 ?l] less.prems r1 by (simp add: Cons)
    next
      case True
      obtain ocs l' cs' where sc: "scan_ident ?l c (pending r1) = (ocs, l', cs')"
        by (cases "scan_ident ?l c (pending r1)")
      have scan_eq: "scan l (pending r) = ocs @ scan l' cs'"
        using True sc r1(1) by (simp add: Cons scan.simps Let_def)
      have len: "length (takeWhile is_identifier (pending r1)) + 1 < IDBUF_SZ"
        using less.prems(2) sc scan_eq
        by (auto simp: scan_ident_def Let_def include_name_def IDBUF_SZ_def
            dest!: arg_cong [of _ _ length] split: if_splits list.splits)
      have "lookup_ident st fname l1 s m c2 r3 = Inl Undef" for l1 s m c2 r3
        using assms(1) by (simp add: lookup_ident_def id_find_def)
      with ident_step_lookup [OF r1(2) True sc len] have
        "ident_step st fname ?l c r1 = (if ocs = [] then Inr (st, None) else Inl Undef) \<and> (ocs = [] \<longrightarrow> cs' = [])"
        by (auto simp: looks_up_def)
      with g c Cons True scan_eq show ?thesis by (auto simp: src_loop.simps [of st fname l r] Let_def)
    qed
  qed
qed

lemma src_stream_no_table:
  assumes "id_symtable st = None" and "\<forall>oc \<in> set (lookups f). length (oc_name oc) < IDBUF_SZ"
  shows "incbot_src_stream st f fname = (if lookups f = [] then Inr (0, st) else Inl Undef)"
  using src_loop_no_table [OF assms(1) reader_ok_open [of f], of src_start] assms(2)
  by (simp add: incbot_src_stream_def src_start_def lookups_def code_chars_def pending_open)

text \<open>C6: the scanner returns 0 on every file whose identifiers fit its buffer, and adds to the
  table of references exactly one reference for each identifier looked up that the table knows
  with a fitting type and a header, in the order of the text; the id-table and the
  dictionaries stay as they were, and traced identifiers are reported.\<close>

theorem src_stream_references:
  assumes "loaded st ids ns ss" and "refs_are st rs" and "entries_ok ids ns ss"
    and "\<forall>oc \<in> set (lookups f). length (oc_name oc) < IDBUF_SZ"
  shows "\<exists>st'. incbot_src_stream st f fname = Inr (0, st') \<and> loaded st' ids ns ss \<and>
    refs_are st' (rs @ refs_of ids ns ss (lookups f)) \<and>
    stderr_text st' = stderr_text st @ traces_of ids ns (lookups f) \<and>
    stdout_text st' = stdout_text st \<and> errprint_text st' = errprint_text st"
  using src_stream_ok [of st ids ns ss rs _ _ f, OF _ assms(3,4)] assms(1,2)
  by (auto simp: scanned_def)

lemma loaded_init: "loaded (init_tables st) [] [] []"
  using tables_init(1) by (auto simp: loaded_def in_step_def)

lemma lookups_example:
  "lookups ''x1=y'' = [\<lparr>oc_name = ''x1'', oc_call = False, oc_lnr = 0\<rparr>,
                      \<lparr>oc_name = ''y'', oc_call = False, oc_lnr = 0\<rparr>]"
  by (simp add: lookups_def code_chars_def src_start_def scan.simps scan_ident_def track_def uc_def
      to_char_def char_of_def is_identifier_start_def is_identifier_def ctype_defs include_name_def
      EOF_def)

theorem src_stream_references_witness:
  "\<exists>st'. incbot_src_stream (init_tables static_incbot) ''x1=y'' ''a.c'' = Inr (0, st') \<and>
    loaded st' [] [] [] \<and> refs_are st' ([] @ refs_of [] [] [] (lookups ''x1=y'')) \<and>
    stderr_text st' = stderr_text (init_tables static_incbot) @ traces_of [] [] (lookups ''x1=y'') \<and>
    stdout_text st' = stdout_text (init_tables static_incbot) \<and>
    errprint_text st' = errprint_text (init_tables static_incbot)"
  by (rule src_stream_references [OF loaded_init tables_init(2)])
    (simp_all add: entries_ok_def lookups_example IDBUF_SZ_def)

text \<open>C36: an identifier of 1024 characters or more overruns the buffer of the scanner.\<close>

theorem src_stream_overrun:
  assumes "\<forall>c \<in> set f. is_identifier (uc c)" and "is_identifier_start (uc (hd f))"
    and "IDBUF_SZ \<le> length f"
  shows "incbot_src_stream st f fname = Inl Undef"
proof -
  have "\<forall>c \<in> set s. is_identifier (uc c) \<Longrightarrow> code_text s" for s
    by (induction s rule: code_text.induct) (auto simp: is_identifier_def ctype_defs)
  then have p: "pending (open_reader f) = map uc f"
    using assms(1) by (simp add: pending_open cf_run_code del: map_map)
  from assms(3) obtain c cs where f: "f = c # cs" by (cases f) (auto simp: IDBUF_SZ_def)
  from cf_getc_pending [OF reader_ok_open, of f] p f obtain r1 where
    r1: "cf_getc (open_reader f) = Inr (uc c, r1)" "pending r1 = map uc cs" "reader_ok r1"
    by auto
  have all: "takeWhile is_identifier (map uc cs) = map uc cs"
    using assms(1) by (auto simp: f takeWhile_eq_all_conv)
  then have "ident_step st fname l d r1 = Inl Undef" for l d
    using assms(3) by (intro ident_overflow) (simp_all add: r1(2,3) f all)
  with r1(1) assms(2) show ?thesis
    unfolding incbot_src_stream_def by (subst src_loop.simps) (simp add: f Let_def)
qed

theorem src_stream_overrun_witness:
  "incbot_src_stream static_incbot (replicate 1024 CHR ''a'') ''a.c'' = Inl Undef"
  by (rule src_stream_overrun)
    (simp_all add: uc_def is_identifier_def is_identifier_start_def ctype_defs IDBUF_SZ_def
      numeral_eq_Suc)

lemma include_directive:
  assumes "ws \<noteq> []" and "\<forall>x \<in> set ws. c_isspace x" and "\<not> c_isspace c" and "chNL \<notin> set line"
  shows "scan src_start (map uc ''#include'' @ ws @ c # line @ chNL # rest) =
    \<lparr>oc_name = ''include'', oc_call = (c = chLPAR), oc_lnr = 1\<rparr>
    # scan \<lparr>sl_lnr = 2, sl_col = 0, sl_pp = False\<rparr> rest"
proof -
  let ?tail = "ws @ c # line @ chNL # rest"
  have inc: "map uc ''#include'' = chHASH # 105 # [110, 99, 108, 117, 100, 101]"
    by (simp add: uc_def)
  have idc: "is_identifier x \<longleftrightarrow> True" if "x \<in> {110, 99, 108, 117, 100, 101}" for x
    using that by (auto simp: is_identifier_def ctype_defs)
  have sp: "\<not> is_identifier x" if "c_isspace x" for x
    using that by (auto simp: is_identifier_def ctype_defs)
  have word: "takeWhile is_identifier ([110, 99, 108, 117, 100, 101] @ ?tail) = [110, 99, 108, 117, 100, 101]"
    "dropWhile is_identifier ([110, 99, 108, 117, 100, 101] @ ?tail) = ?tail"
    using assms(1,2) sp by (cases ws; simp add: idc)+
  have space: "dropWhile c_isspace ?tail = c # line @ chNL # rest"
    using assms(2,3) by (induction ws) simp_all
  have name: "map to_char (105 # [110, 99, 108, 117, 100, 101]) = include_name"
    by (simp add: to_char_def char_of_def include_name_def)
  have c: "c \<noteq> chNL" using assms(3) by (auto simp: c_isspace_def)
  have line: "dropWhile (\<lambda>c. c \<noteq> chNL) (line @ chNL # rest) = chNL # rest"
    using assms(4) by (induction line) auto
  let ?l = "track (track src_start chHASH) 105"
  have l: "sl_pp ?l" "sl_lnr ?l = 0" by (simp_all add: track_def src_start_def)
  have "scan_ident ?l 105 ([110, 99, 108, 117, 100, 101] @ ?tail) =
      ([\<lparr>oc_name = include_name, oc_call = (c = chLPAR), oc_lnr = 1\<rparr>],
       \<lparr>sl_lnr = 2, sl_col = 0, sl_pp = False\<rparr>, rest)"
    unfolding scan_ident_def Let_def word space name using l c by (cases ?l) (simp add: line)
  moreover have "\<not> is_identifier_start chHASH" "is_identifier_start 105"
    by (simp_all add: is_identifier_start_def ctype_defs)
  ultimately show ?thesis
    unfolding inc append_Cons by (simp add: scan.simps Let_def include_name_def)
qed

text \<open>After \<open>#include\<close> and white space (a name in quotes is not code and is not seen) the rest
  of the line the scanner has reached is dropped. Since the white space may contain the end of
  the directive, this is the whole line after an \<open>#include "..."\<close>: no identifier of it is looked
  up. The line number has been counted twice where the scan goes on.\<close>

theorem include_hides_next_line:
  assumes "loaded st ids ns ss" and "refs_are st rs" and "entries_ok ids ns ss"
    and "code_chars f = map uc ''#include'' @ ws @ c # line @ chNL # rest"
    and "ws \<noteq> []" and "\<forall>x \<in> set ws. c_isspace x" and "\<not> c_isspace c" and "chNL \<notin> set line"
    and "\<forall>oc \<in> set (scan \<lparr>sl_lnr = 2, sl_col = 0, sl_pp = False\<rparr> rest). length (oc_name oc) < IDBUF_SZ"
  shows "\<exists>st'. incbot_src_stream st f fname = Inr (0, st') \<and>
    refs_are st' (rs @ ref_of ids ns ss \<lparr>oc_name = ''include'', oc_call = (c = chLPAR), oc_lnr = 1\<rparr>
      @ refs_of ids ns ss (scan \<lparr>sl_lnr = 2, sl_col = 0, sl_pp = False\<rparr> rest))"
proof -
  have l: "lookups f = \<lparr>oc_name = ''include'', oc_call = (c = chLPAR), oc_lnr = 1\<rparr>
      # scan \<lparr>sl_lnr = 2, sl_col = 0, sl_pp = False\<rparr> rest"
    unfolding lookups_def assms(4) by (rule include_directive [OF assms(5-8)])
  then have "\<forall>oc \<in> set (lookups f). length (oc_name oc) < IDBUF_SZ"
    using assms(9) by (simp add: IDBUF_SZ_def)
  from src_stream_ok [OF _ assms(3) this, of st rs _ _ fname] assms(1,2) show ?thesis
    by (auto simp: scanned_def l)
qed

theorem include_hides_next_line_witness:
  "\<exists>st'. incbot_src_stream (init_tables static_incbot)
      (''#include '' @ [CHR 0x22] @ ''a.h'' @ [CHR 0x22, CHR 0x0A] @ ''puts(s)'' @ [CHR 0x0A]) ''a.c'' = Inr (0, st') \<and>
    refs_are st' ([] @ ref_of [] [] [] \<lparr>oc_name = ''include'', oc_call = (112 = chLPAR), oc_lnr = 1\<rparr>
      @ refs_of [] [] [] (scan \<lparr>sl_lnr = 2, sl_col = 0, sl_pp = False\<rparr> []))"
  by (rule include_hides_next_line [OF loaded_init tables_init(2), where ws = "[32, 10]"
        and line = "[117, 116, 115, 40, 115, 41]"])
    (simp_all add: entries_ok_def code_chars_def uc_def c_isspace_def)

end
