(* ===== verification/Includes.thy ===== *)
theory Includes
  imports IdTableSpec
begin

text \<open>
  The generation of include directives of src/libincbot/incbot.c: the order of references
  (\<open>refcmp\<close> under \<open>qsort\<close>) and the text that \<open>show_includes\<close> prints.

  Whether a write to the standard output fails is given by the function \<open>werr\<close>, from the text
  written so far and the string to write to an error number, 0 for success; nothing is written
  by a call that fails. The code checks the result of some writes (\<open>io_guard\<close>) and ignores the
  others. \<open>qsort\<close> may use any
  algorithm; the model sorts by insertion, and the properties of the output hold for every
  sorted permutation.
\<close>

section \<open>Writing\<close>

type_synonym stream = "string \<Rightarrow> string \<Rightarrow> int"

record ioresult =
  io_err :: int
  io_sz :: nat

text \<open>\<open>fputs\<close> on the standard output: the error number, 0 for none.\<close>

definition fputs_stdout :: "stream \<Rightarrow> string \<Rightarrow> incbot \<Rightarrow> int \<times> incbot" where
  "fputs_stdout werr s st =
     (let e = werr (stdout_text st) s
      in (e, if e = 0 then st\<lparr>stdout_text := stdout_text st @ s\<rparr> else st))"

definition put :: "stream \<Rightarrow> string \<Rightarrow> incbot \<Rightarrow> incbot" where
  "put werr s st = snd (fputs_stdout werr s st)"

definition puts :: "stream \<Rightarrow> string list \<Rightarrow> incbot \<Rightarrow> incbot" where
  "puts werr ws st = foldl (\<lambda>st s. put werr s st) st ws"

text \<open>\<open>fputs\<close> returns a non-negative number on success, here 1; \<open>(size_t) EOF\<close> otherwise.\<close>

definition write_str :: "stream \<Rightarrow> string \<Rightarrow> incbot \<Rightarrow> ioresult \<times> incbot" where
  "write_str werr s st =
     (let (e, st) = fputs_stdout werr s st
      in (\<lparr>io_err = e, io_sz = (if e = 0 then 1 else 2 ^ 64 - 1)\<rparr>, st))"

definition io_error :: "int \<Rightarrow> string" where
  "io_error e = ''I/O error, '' @ dec_int e @ ''.'' @ [CHR 0x0A]"

definition io_guard :: "ioresult \<Rightarrow> unit outcome" where
  "io_guard res = (if io_err res \<noteq> 0 then Inl (Abort (io_error (io_err res))) else Inr ())"

definition write_guarded :: "stream \<Rightarrow> string \<Rightarrow> incbot \<Rightarrow> incbot outcome" where
  "write_guarded werr s st =
     (let (res, st) = write_str werr s st in andthen (io_guard res) (\<lambda>_. Inr st))"

text \<open>
  \<open>fwrite_strl\<close>, which no function of the program calls: it writes a list of strings and stops at
  the first that fails. The error number of its result is set only then, and \<open>None\<close> stands for
  the unset one.
\<close>

fun fwrite_strl :: "stream \<Rightarrow> string list \<Rightarrow> nat \<Rightarrow> incbot \<Rightarrow> (int option \<times> nat) \<times> incbot" where
  "fwrite_strl werr [] n st = ((None, n), st)"
| "fwrite_strl werr (s # ss) n st =
     (let (res1, st) = write_str werr s st
      in if io_err res1 \<noteq> 0 then ((Some (io_err res1), n), st)
         else fwrite_strl werr ss (io_sz res1) st)"

section \<open>The order of references\<close>

text \<open>A name for \<open>strcmp\<close> or \<open>%s\<close>, which do not take a null pointer.\<close>

definition name_of :: "dict option \<Rightarrow> nat \<Rightarrow> string outcome" where
  "name_of t n =
     (case t of None \<Rightarrow> Inl Undef
      | Some d \<Rightarrow>
          andthen (dict_getname_nr d n) (\<lambda>x. case x of None \<Rightarrow> Inl Undef | Some s \<Rightarrow> Inr s))"

definition refcmp :: "incbot \<Rightarrow> incref \<Rightarrow> incref \<Rightarrow> int outcome" where
  "refcmp st ref1 ref2 =
     andthen (name_of (strtable st) (inc_sym ref1)) (\<lambda>inc_fname1.
     andthen (name_of (strtable st) (inc_sym ref2)) (\<lambda>inc_fname2.
       let cmp = strcmp inc_fname1 inc_fname2
       in if cmp = 0 then
            andthen (name_of (id_symtable st) (ref_sym ref1)) (\<lambda>ref_sym1.
            andthen (name_of (id_symtable st) (ref_sym ref2)) (\<lambda>ref_sym2.
              Inr (strcmp ref_sym1 ref_sym2)))
          else Inr cmp))"

section \<open>The directives\<close>

text \<open>The loop over the header names in one string, separated by \<open>|\<close>; the list of strings it
  writes. Reading past the terminating zero is undefined.\<close>

function include_loop :: "string \<Rightarrow> nat \<Rightarrow> nat \<Rightarrow> string list outcome" where
  "include_loop s p1 p2 =
     (if length s < p2 then Inl Undef
      else if p2 = length s \<or> s ! p2 = CHR ''|'' then
        (let ws = (if p2 - p1 \<noteq> 0
                   then [''#include <'', take (p2 - p1) (drop p1 s), ''>'' @ [CHR 0x0A]] else [])
         in if p2 = length s then Inr ws
            else andthen (include_loop s (p2 + 1) (p2 + 2)) (\<lambda>ws'. Inr (ws @ ws')))
      else include_loop s p1 (p2 + 1))"
  by pat_completeness auto
termination
  by (relation "measure (\<lambda>(s, p1, p2). Suc (length s) - p2)") auto

declare include_loop.simps [simp del]

definition import_text :: "32 word \<Rightarrow> string \<Rightarrow> string" where
  "import_text id_types s =
     (if id_types AND TYPE_FUNCTION \<noteq> 0 then s @ ''()''
      else if id_types AND TYPE_UNKNOWN \<noteq> 0 then s
      else annotate_type id_types @ '' '' @ s)"

text \<open>The two blocks of the body of the loop, for a new header and for a new identifier.\<close>

definition show_header :: "stream \<Rightarrow> nat \<Rightarrow> incbot \<Rightarrow> incbot outcome" where
  "show_header werr inc_symnr st =
     andthen (name_of (strtable st) inc_symnr) (\<lambda>s.
       andthen (include_loop s 0 0) (\<lambda>ws. Inr (puts werr ws st)))"

definition show_import :: "stream \<Rightarrow> nat \<Rightarrow> nat \<Rightarrow> incbot \<Rightarrow> incbot outcome" where
  "show_import werr ref_symnr id_ent st =
     andthen (name_of (id_symtable st) ref_symnr) (\<lambda>s.
       andthen (arr_get (id_table st) id_ent) (\<lambda>e.
         andthen (write_guarded werr ''    // Import '' st) (\<lambda>st.
           andthen
             (if id_type e AND TYPE_FUNCTION = 0 \<and> id_type e AND TYPE_UNKNOWN \<noteq> 0
              then write_guarded werr s st
              else Inr (put werr (import_text (id_type e) s) st))
             (\<lambda>st. Inr (put werr [CHR 0x0A] st)))))"

text \<open>
  The loop; \<open>prev_inc_symnr\<close> is \<open>None\<close> at the first element, where the code tests
  \<open>refnr == 0\<close>.
\<close>

fun show_loop :: "stream \<Rightarrow> incbot \<Rightarrow> nat option \<Rightarrow> nat \<Rightarrow> incref list \<Rightarrow> incbot outcome" where
  "show_loop werr st prev_inc_symnr prev_ref_symnr [] = Inr st"
| "show_loop werr st prev_inc_symnr prev_ref_symnr (r # rs) =
     andthen
       (if prev_inc_symnr \<noteq> Some (inc_sym r)
        then andthen (show_header werr (inc_sym r) st) (\<lambda>st. Inr (st, undef_symnr))
        else Inr (st, prev_ref_symnr))
       (\<lambda>(st, prev_ref_symnr).
          andthen
            (if ref_sym r \<noteq> prev_ref_symnr
             then show_import werr (ref_sym r) (ref_idnr r) st else Inr st)
            (\<lambda>st. show_loop werr st (Some (inc_sym r)) (ref_sym r) rs))"

text \<open>The elements of an array that \<open>qsort\<close> and the loop see.\<close>

fun arr_take :: "'a option list \<Rightarrow> nat \<Rightarrow> 'a list outcome" where
  "arr_take a 0 = Inr []"
| "arr_take a (Suc n) = andthen (arr_take a n) (\<lambda>xs. andthen (arr_get a n) (\<lambda>x. Inr (xs @ [x])))"

definition show_includes :: "stream \<Rightarrow> incbot \<Rightarrow> incbot outcome" where
  "show_includes werr st =
     andthen (arr_take (ref_inc_table st) (ref_inc_table_len st)) (\<lambda>rs.
       andthen (c_qsort (refcmp st) rs) (\<lambda>rs'.
         let st = st\<lparr>ref_inc_table := map Some rs' @ drop (length rs') (ref_inc_table st)\<rparr>
         in show_loop werr st None undef_symnr rs'))"

end
