(* ===== verification/IncludesSpec.thy ===== *)
theory IncludesSpec
  imports Includes "HOL-Library.List_Lexorder" "HOL-Library.Char_ord" "HOL-Library.Product_Lexorder"
begin

text \<open>
  What \<open>show_includes\<close> prints: one directive for every header name, in the order of \<open>strcmp\<close>,
  each followed by one comment for every identifier it provides, in that order. The text
  depends only on the set of pairs of a header and an identifier; the order of equal elements
  under \<open>qsort\<close> and the number of times an identifier was met do not matter. The facts about the
  loop hold for every standard output: the loop makes a list of writes (\<open>emit\<close>), of which
  some are checked, and where none fails the list is the text.
\<close>

section \<open>Comparison of names\<close>

lemma char_le_uc: "c \<le> d \<longleftrightarrow> uc c \<le> uc d"
proof -
  have "uc x = int (of_char x)" for x by (simp add: uc_def of_nat_of_char)
  then show ?thesis by (simp add: less_eq_char_def)
qed

lemma char_less_uc: "c < d \<longleftrightarrow> uc c < uc d"
  using char_le_uc [of d c] by (simp add: not_le [symmetric])

lemma strcmp_le: "cstring s \<Longrightarrow> cstring t \<Longrightarrow> strcmp s t \<le> 0 \<longleftrightarrow> s \<le> t"
proof (induction s t rule: strcmp.induct)
  case (3 c cs)
  then show ?case using uc_range(1) [of c] by simp
next
  case (4 c cs d ds)
  show ?case
  proof (cases "c = d")
    case True
    with 4 show ?thesis by simp
  next
    case False
    then show ?thesis by (auto simp: char_less_uc less_le)
  qed
qed (use uc_range(1) in auto)

section \<open>References in range\<close>

definition ref_in :: "idinfo list \<Rightarrow> string list \<Rightarrow> string list \<Rightarrow> incref \<Rightarrow> bool" where
  "ref_in ids ns ss r \<longleftrightarrow>
     0 < inc_sym r \<and> inc_sym r \<le> length ss \<and> ref_idnr r < length ids \<and> ref_sym r = ref_idnr r + 1"

definition ref_ok :: "incbot \<Rightarrow> incref \<Rightarrow> bool" where
  "ref_ok st r \<longleftrightarrow> (\<exists>ids ns ss. loaded st ids ns ss \<and> ref_in ids ns ss r)"

definition key_in :: "string list \<Rightarrow> string list \<Rightarrow> incref \<Rightarrow> string \<times> string" where
  "key_in ns ss r = (ss ! (inc_sym r - 1), ns ! (ref_sym r - 1))"

definition ref_key :: "incbot \<Rightarrow> incref \<Rightarrow> string \<times> string" where
  "ref_key st r = key_in (dict_names (the (id_symtable st))) (dict_names (the (strtable st))) r"

lemma loaded_dicts:
  assumes "loaded st ids ns ss"
  obtains d1 d2 where "id_symtable st = Some d1" "dict_inv d1" "dict_names d1 = ns"
    "strtable st = Some d2" "dict_inv d2" "dict_names d2 = ss"
  using assms by (auto simp: loaded_def tables_def dict_is_def)

lemma ref_key_loaded: "loaded st ids ns ss \<Longrightarrow> ref_key st r = key_in ns ss r"
  by (auto simp: ref_key_def elim: loaded_dicts)

lemma name_of_ok:
  assumes "loaded st ids ns ss"
  shows "0 < n \<Longrightarrow> n \<le> length ns \<Longrightarrow> name_of (id_symtable st) n = Inr (ns ! (n - 1))"
    and "0 < n \<Longrightarrow> n \<le> length ss \<Longrightarrow> name_of (strtable st) n = Inr (ss ! (n - 1))"
  using assms by (auto simp: name_of_def dict.name_spec elim!: loaded_dicts)

lemma refcmp_ok:
  assumes L: "loaded st ids ns ss" and r: "ref_in ids ns ss r1" "ref_in ids ns ss r2"
  shows "\<exists>c. refcmp st r1 r2 = Inr c \<and> (c \<le> 0 \<longleftrightarrow> key_in ns ss r1 \<le> key_in ns ss r2)"
proof -
  from L obtain d1 d2 where d: "dict_inv d1" "dict_names d1 = ns" "dict_inv d2" "dict_names d2 = ss"
    by (rule loaded_dicts)
  have l: "length ns = length ids" using L by (simp add: loaded_def)
  have cs: "list_all cstring ns" "list_all cstring ss"
    using dict.cstring_names [OF d(1)] dict.cstring_names [OF d(3)] d by simp_all
  have b: "inc_sym r - 1 < length ss" "ref_sym r - 1 < length ns" if "ref_in ids ns ss r" for r
    using that l by (auto simp: ref_in_def)
  note b1 = b [OF r(1)] and b2 = b [OF r(2)]
  let ?i1 = "ss ! (inc_sym r1 - 1)" and ?i2 = "ss ! (inc_sym r2 - 1)"
  let ?n1 = "ns ! (ref_sym r1 - 1)" and ?n2 = "ns ! (ref_sym r2 - 1)"
  have c: "cstring ?i1" "cstring ?i2" "cstring ?n1" "cstring ?n2"
    using cs b1 b2 by (simp_all add: list_all_length)
  have "refcmp st r1 r2 = Inr (if strcmp ?i1 ?i2 = 0 then strcmp ?n1 ?n2 else strcmp ?i1 ?i2)"
    using r l by (simp add: refcmp_def name_of_ok [OF L] ref_in_def)
  moreover have "(if strcmp ?i1 ?i2 = 0 then strcmp ?n1 ?n2 else strcmp ?i1 ?i2) \<le> 0
      \<longleftrightarrow> (?i1, ?n1) \<le> (?i2, ?n2)"
    using strcmp_eq_0 [OF c(1,2)] strcmp_le [OF c(1,2)] strcmp_le [OF c(3,4)]
    by (auto simp: less_eq_prod_def less_le)
  ultimately show ?thesis by (simp add: key_in_def)
qed

interpretation refs: comparator refcmp ref_ok ref_key
proof unfold_locales
  fix st r1 r2
  assume "ref_ok st r1" and "ref_ok st r2"
  then obtain ids ns ss ids' ns' ss' where L: "loaded st ids ns ss" "ref_in ids ns ss r1"
    "loaded st ids' ns' ss'" "ref_in ids' ns' ss' r2"
    by (auto simp: ref_ok_def)
  from L(1,3) have "ns' = ns" "ss' = ss" "length ids' = length ids"
    by (auto simp: loaded_def tables_def dict_is_def)
  with L have "ref_in ids ns ss r2" by (simp add: ref_in_def)
  from refcmp_ok [OF L(1,2) this]
  show "\<exists>c. refcmp st r1 r2 = Inr c \<and> (c \<le> 0 \<longleftrightarrow> ref_key st r1 \<le> ref_key st r2)"
    by (simp add: ref_key_loaded [OF L(1)])
qed

section \<open>Header names in one string\<close>

fun split_bar :: "string \<Rightarrow> string list" where
  "split_bar [] = [[]]"
| "split_bar (c # cs) =
     (if c = CHR ''|'' then [] # split_bar cs
      else (case split_bar cs of [] \<Rightarrow> [[c]] | p # ps \<Rightarrow> (c # p) # ps))"

lemma split_bar_nonempty [simp]: "split_bar s \<noteq> []"
  by (cases s) (auto split: list.splits)

definition directive :: "string \<Rightarrow> string list" where
  "directive p = [''#include <'', p, ''>'' @ [CHR 0x0A]]"

definition header_list_ok :: "string \<Rightarrow> bool" where
  "header_list_ok s \<longleftrightarrow> list_all (\<lambda>p. p \<noteq> []) (split_bar s)"

lemma split_bar_append:
  "CHR ''|'' \<notin> set cur \<Longrightarrow>
   split_bar (cur @ rest) = (cur @ hd (split_bar rest)) # tl (split_bar rest)"
proof (induction cur)
  case Nil
  then show ?case by simp
next
  case (Cons c cur)
  then show ?case by auto
qed

text \<open>The loop with the name \<open>cur\<close> begun and \<open>rest\<close> not yet seen.\<close>

lemma include_loop_split:
  assumes "s = before @ cur @ rest" and "CHR ''|'' \<notin> set cur" and "cur \<noteq> []"
    and "list_all (\<lambda>p. p \<noteq> []) (tl (split_bar rest))"
  shows "include_loop s (length before) (length before + length cur) =
    Inr (concat (map directive (split_bar (cur @ rest))))"
  using assms
proof (induction "length rest" arbitrary: before cur rest rule: less_induct)
  case less
  show ?case
  proof (cases rest)
    case Nil
    with less.prems split_bar_append [OF less.prems(2), of "[]"] show ?thesis
      by (subst include_loop.simps) (simp add: directive_def)
  next
    case (Cons c cs)
    have at: "s ! (length before + length cur) = c"
      using less.prems(1) by (simp add: Cons nth_append)
    show ?thesis
    proof (cases "c = CHR ''|''")
      case False
      have "include_loop s (length before) (length before + length cur)
          = include_loop s (length before) (length before + length (cur @ [c]))"
        using False at less.prems(1) by (subst include_loop.simps) (simp add: Cons)
      also have "\<dots> = Inr (concat (map directive (split_bar ((cur @ [c]) @ cs))))"
      proof (rule less.hyps)
        show "list_all (\<lambda>p. p \<noteq> []) (tl (split_bar cs))"
          using less.prems(4) False by (cases "split_bar cs") (simp_all add: Cons)
      qed (use less.prems False in \<open>auto simp: Cons\<close>)
      finally show ?thesis by (simp add: Cons)
    next
      case True
      from less.prems(4) True have ok: "list_all (\<lambda>p. p \<noteq> []) (split_bar cs)"
        by (simp add: Cons)
      then obtain d ds where cs: "cs = d # ds" "d \<noteq> CHR ''|''"
        by (cases cs) (auto split: if_splits)
      have "include_loop s (length (before @ cur @ [c])) (length (before @ cur @ [c]) + length [d])
          = Inr (concat (map directive (split_bar ([d] @ ds))))"
      proof (rule less.hyps)
        show "list_all (\<lambda>p. p \<noteq> []) (tl (split_bar ds))"
          using ok cs by (cases "split_bar ds") simp_all
      qed (use less.prems cs in \<open>auto simp: Cons\<close>)
      then show ?thesis
        using True at less.prems(1,3)
        by (subst include_loop.simps)
          (simp add: Cons split_bar_append [OF less.prems(2)] cs directive_def)
    qed
  qed
qed

lemma include_loop_ok:
  assumes "header_list_ok s"
  shows "include_loop s 0 0 = Inr (concat (map directive (split_bar s)))"
proof -
  from assms obtain c cs where s: "s = c # cs" "c \<noteq> CHR ''|''"
    by (cases s) (auto simp: header_list_ok_def split: if_splits)
  have "include_loop s 0 0 = include_loop s (length ([] :: string)) (length ([] :: string) + length [c])"
    using s by (subst include_loop.simps) simp
  also have "\<dots> = Inr (concat (map directive (split_bar ([c] @ cs))))"
  proof (rule include_loop_split)
    show "list_all (\<lambda>p. p \<noteq> []) (tl (split_bar cs))"
      using assms s by (cases "split_bar cs") (simp_all add: header_list_ok_def)
  qed (use s in auto)
  finally show ?thesis by (simp add: s)
qed

section \<open>Writes to the standard output\<close>

text \<open>
  A list of writes, each with a string and whether its result is checked. A write that fails
  adds nothing to the output; the first one that fails and is checked ends the program.
\<close>

fun emit :: "stream \<Rightarrow> (bool \<times> string) list \<Rightarrow> incbot \<Rightarrow> incbot outcome" where
  "emit werr [] st = Inr st"
| "emit werr ((checked, s) # ws) st =
     (let e = werr (stdout_text st) s
      in if e = 0 then emit werr ws (st\<lparr>stdout_text := stdout_text st @ s\<rparr>)
         else if checked then Inl (Abort (io_error e)) else emit werr ws st)"

definition texts :: "(bool \<times> string) list \<Rightarrow> string" where
  "texts ws = concat (map snd ws)"

lemma texts_simps [simp]:
  "texts [] = []" "texts (w # ws) = snd w @ texts ws" "texts (ws @ ws') = texts ws @ texts ws'"
  "texts (concat wss) = concat (map texts wss)"
  by (simp_all add: texts_def) (induction wss, simp_all add: texts_def)

lemma emit_append: "emit werr (ws @ ws') st = andthen (emit werr ws st) (emit werr ws')"
  by (induction werr ws st rule: emit.induct) (simp_all add: Let_def)

lemma emit_puts: "emit werr (map (Pair False) ws) st = Inr (puts werr ws st)"
  by (induction ws arbitrary: st) (simp_all add: puts_def put_def fputs_stdout_def Let_def)

lemma emit_put: "Inr (put werr s st) = emit werr [(False, s)] st"
  by (simp add: put_def fputs_stdout_def Let_def)

lemma emit_guarded: "write_guarded werr s st = emit werr [(True, s)] st"
  by (simp add: write_guarded_def write_str_def fputs_stdout_def io_guard_def Let_def)

text \<open>Writes change nothing but the standard output.\<close>

lemma emit_stdout: "emit werr ws st = Inr st' \<Longrightarrow> \<exists>t. st' = st\<lparr>stdout_text := stdout_text st @ t\<rparr>"
proof (induction werr ws st rule: emit.induct)
  case (1 werr st)
  then show ?case by (intro exI [of _ "[]"]) simp
next
  case (2 werr checked s ws st)
  show ?case
  proof (cases "werr (stdout_text st) s = 0")
    case True
    with 2 obtain t where "st' = st\<lparr>stdout_text := stdout_text st @ s @ t\<rparr>" by (auto simp: Let_def)
    then show ?thesis by blast
  next
    case False
    with 2 show ?thesis by (simp add: Let_def split: if_splits)
  qed
qed

text \<open>A standard output on which every write succeeds.\<close>

definition no_error :: stream where "no_error = (\<lambda>_ _. 0)"

lemma emit_no_error: "emit no_error ws st = Inr (st\<lparr>stdout_text := stdout_text st @ texts ws\<rparr>)"
  by (induction "no_error" ws st rule: emit.induct) (simp_all add: no_error_def Let_def)

section \<open>The loop over the sorted references\<close>

definition header_writes :: "string \<Rightarrow> (bool \<times> string) list" where
  "header_writes s = map (Pair False) (concat (map directive (split_bar s)))"

definition header_text :: "string \<Rightarrow> string" where
  "header_text s = concat (concat (map directive (split_bar s)))"

lemma header_writes_text: "texts (header_writes s) = header_text s"
  by (simp add: texts_def header_writes_def header_text_def comp_def)

text \<open>The name of an identifier whose type is not known is checked, other names are not.\<close>

definition import_writes :: "idinfo list \<Rightarrow> string list \<Rightarrow> string \<Rightarrow> (bool \<times> string) list" where
  "import_writes ids ns s =
     (let t = id_type (ids ! (symnr_of ns s - 1))
      in [(True, ''    // Import ''),
          (t AND TYPE_FUNCTION = 0 \<and> t AND TYPE_UNKNOWN \<noteq> 0, import_text t s),
          (False, [CHR 0x0A])])"

definition import_line :: "idinfo list \<Rightarrow> string list \<Rightarrow> string \<Rightarrow> string" where
  "import_line ids ns s =
     ''    // Import '' @ import_text (id_type (ids ! (symnr_of ns s - 1))) s @ [CHR 0x0A]"

lemma import_writes_text: "texts (import_writes ids ns s) = import_line ids ns s"
  by (simp add: import_writes_def import_line_def Let_def)

text \<open>What the loop gives for the elements \<open>ks\<close> after \<open>prev\<close>, from what a header and an identifier
  give: strings or writes.\<close>

fun loop_items :: "(string \<Rightarrow> 'a list) \<Rightarrow> (string \<Rightarrow> 'a list) \<Rightarrow> (string \<times> string) option \<Rightarrow>
    (string \<times> string) list \<Rightarrow> 'a list" where
  "loop_items hdr imp prev [] = []"
| "loop_items hdr imp prev (k # ks) =
     (if map_option fst prev = Some (fst k) then [] else hdr (fst k))
     @ (if prev = Some k then [] else imp (snd k)) @ loop_items hdr imp (Some k) ks"

lemma loaded_stdout [simp]:
  "loaded (st\<lparr>stdout_text := x\<rparr>) ids ns ss = loaded st ids ns ss"
  by (simp add: loaded_def tables_def)

lemma loaded_emit: "emit werr ws st = Inr st' \<Longrightarrow> loaded st' ids ns ss = loaded st ids ns ss"
  by (auto dest: emit_stdout)

lemma show_header_writes:
  assumes "loaded st ids ns ss" and "ref_in ids ns ss r"
    and "header_list_ok (ss ! (inc_sym r - 1))"
  shows "show_header werr (inc_sym r) st = emit werr (header_writes (ss ! (inc_sym r - 1))) st"
  using assms include_loop_ok [OF assms(3)]
  by (simp add: show_header_def name_of_ok(2) [OF assms(1)] ref_in_def emit_puts header_writes_def)

lemma show_import_writes:
  assumes L: "loaded st ids ns ss" and r: "ref_in ids ns ss r"
  shows "show_import werr (ref_sym r) (ref_idnr r) st =
    emit werr (import_writes ids ns (ns ! (ref_sym r - 1))) st"
proof -
  from L obtain cur where t: "tables st ids cur ns ss" and l: "length ns = length ids"
    by (auto simp: loaded_def)
  from L obtain d1 where d: "dict_inv d1" "dict_names d1 = ns" by (rule loaded_dicts)
  have i: "ref_idnr r < length ids" "ref_sym r = ref_idnr r + 1" using r by (simp_all add: ref_in_def)
  have g: "arr_get (id_table st) (ref_idnr r) = Inr (ids ! ref_idnr r)"
    using t i arr_rep_get [of "id_table st" "ids @ cur" "id_table_sz st" "ref_idnr r"]
    by (simp add: tables_def nth_append)
  have s: "symnr_of ns (ns ! ref_idnr r) = Suc (ref_idnr r)"
    using symnr_of_nth [of ns "ref_idnr r"] dict.distinct_names [OF d(1)] d(2) i l by simp
  let ?t = "id_type (ids ! ref_idnr r)" and ?n = "ns ! ref_idnr r"
  have "show_import werr (ref_sym r) (ref_idnr r) st =
    andthen (emit werr [(True, ''    // Import '')] st) (\<lambda>st. andthen
      (emit werr [(?t AND TYPE_FUNCTION = 0 \<and> ?t AND TYPE_UNKNOWN \<noteq> 0, import_text ?t ?n)] st)
      (emit werr [(False, [CHR 0x0A])]))"
    using i l by (simp add: show_import_def name_of_ok(1) [OF L] g emit_guarded emit_put import_text_def
        del: emit.simps)
  also have "\<dots> = emit werr ([(True, ''    // Import '')] @
      [(?t AND TYPE_FUNCTION = 0 \<and> ?t AND TYPE_UNKNOWN \<noteq> 0, import_text ?t ?n)] @
      [(False, [CHR 0x0A])]) st"
    by (simp only: emit_append [abs_def])
  finally show ?thesis using i by (simp add: import_writes_def s Let_def del: emit.simps)
qed

text \<open>Numbers and names: two references differ in a number exactly if they differ in the name.\<close>

lemma key_in_numbers:
  assumes L: "loaded st ids ns ss" and r: "ref_in ids ns ss r1" "ref_in ids ns ss r2"
  shows "fst (key_in ns ss r1) = fst (key_in ns ss r2) \<longleftrightarrow> inc_sym r1 = inc_sym r2"
    and "snd (key_in ns ss r1) = snd (key_in ns ss r2) \<longleftrightarrow> ref_sym r1 = ref_sym r2"
proof -
  from L obtain d1 d2 where d: "dict_inv d1" "dict_names d1 = ns" "dict_inv d2" "dict_names d2 = ss"
    by (rule loaded_dicts)
  have dist: "distinct ns" "distinct ss"
    using dict.distinct_names [OF d(1)] dict.distinct_names [OF d(3)] d by simp_all
  have l: "length ns = length ids" using L by (simp add: loaded_def)
  have b: "inc_sym r - 1 < length ss" "0 < inc_sym r" "ref_sym r - 1 < length ns" "0 < ref_sym r"
    if "ref_in ids ns ss r" for r
    using that l by (auto simp: ref_in_def)
  note b1 = b [OF r(1)] and b2 = b [OF r(2)]
  show "fst (key_in ns ss r1) = fst (key_in ns ss r2) \<longleftrightarrow> inc_sym r1 = inc_sym r2"
    and "snd (key_in ns ss r1) = snd (key_in ns ss r2) \<longleftrightarrow> ref_sym r1 = ref_sym r2"
    using b1 b2 nth_eq_iff_index_eq [OF dist(1), of "ref_sym r1 - 1" "ref_sym r2 - 1"]
      nth_eq_iff_index_eq [OF dist(2), of "inc_sym r1 - 1" "inc_sym r2 - 1"]
    by (auto simp: key_in_def)
qed

text \<open>The previous element, as the loop remembers it.\<close>

definition prev_is :: "idinfo list \<Rightarrow> string list \<Rightarrow> string list \<Rightarrow> (string \<times> string) option \<Rightarrow> nat option \<Rightarrow> nat \<Rightarrow> bool" where
  "prev_is ids ns ss prev pi pr \<longleftrightarrow>
     (case prev of None \<Rightarrow> pi = None \<and> pr = undef_symnr
      | Some k \<Rightarrow> \<exists>r. ref_in ids ns ss r \<and> k = key_in ns ss r \<and> pi = Some (inc_sym r) \<and> pr = ref_sym r)"

lemma show_loop_writes:
  assumes "loaded st ids ns ss" and "list_all (ref_in ids ns ss) rs"
    and "list_all (\<lambda>r. header_list_ok (ss ! (inc_sym r - 1))) rs"
    and "prev_is ids ns ss prev pi pr"
  shows "show_loop werr st pi pr rs =
    emit werr (loop_items header_writes (import_writes ids ns) prev (map (key_in ns ss) rs)) st"
  using assms
proof (induction rs arbitrary: st prev pi pr)
  case Nil
  then show ?case by simp
next
  case (Cons r rs)
  have r: "ref_in ids ns ss r" "header_list_ok (ss ! (inc_sym r - 1))" using Cons.prems by simp_all
  have pos: "0 < ref_sym r" using r(1) by (simp add: ref_in_def)
  let ?k = "key_in ns ss r"
  have hd: "map_option fst prev = Some (fst ?k) \<longleftrightarrow> pi = Some (inc_sym r)"
    and sm: "pi = Some (inc_sym r) \<Longrightarrow> prev = Some ?k \<longleftrightarrow> pr = ref_sym r"
    and df: "pi \<noteq> Some (inc_sym r) \<Longrightarrow> prev \<noteq> Some ?k"
    using Cons.prems(4) r(1) key_in_numbers [OF Cons.prems(1) _ r(1)]
    by (auto simp: prev_is_def prod_eq_iff split: option.splits)
  let ?h = "if map_option fst prev = Some (fst ?k) then [] else header_writes (fst ?k)"
  let ?i = "if prev = Some ?k then [] else import_writes ids ns (snd ?k)"
  let ?pr = "if pi = Some (inc_sym r) then pr else undef_symnr"
  have h: "(if pi \<noteq> Some (inc_sym r)
      then andthen (show_header werr (inc_sym r) st) (\<lambda>st. Inr (st, undef_symnr))
      else Inr (st, pr)) = andthen (emit werr ?h st) (\<lambda>st. Inr (st, ?pr))"
    using show_header_writes [OF Cons.prems(1) r] hd by (simp add: key_in_def)
  have i: "(if ref_sym r \<noteq> ?pr then show_import werr (ref_sym r) (ref_idnr r) st1 else Inr st1) =
      emit werr ?i st1" if "emit werr ?h st = Inr st1" for st1
    using show_import_writes [of st1, OF _ r(1)] loaded_emit [OF that] Cons.prems(1) sm df pos
    by (auto simp: key_in_def undef_symnr_def)
  have p: "prev_is ids ns ss (Some ?k) (Some (inc_sym r)) (ref_sym r)"
    using r(1) by (auto simp: prev_is_def)
  have l: "show_loop werr st2 (Some (inc_sym r)) (ref_sym r) rs =
      emit werr (loop_items header_writes (import_writes ids ns) (Some ?k) (map (key_in ns ss) rs)) st2"
    if "loaded st2 ids ns ss" for st2
    using Cons.IH [OF that _ _ p] Cons.prems by simp
  show ?case
  proof (cases "emit werr ?h st")
    case (Inl x)
    then show ?thesis unfolding show_loop.simps h by (simp add: emit_append)
  next
    case st1: (Inr st1)
    show ?thesis
    proof (cases "emit werr ?i st1")
      case (Inl x)
      with st1 i [OF st1] show ?thesis unfolding show_loop.simps h by (simp add: emit_append)
    next
      case st2: (Inr st2)
      have "loaded st2 ids ns ss"
        using loaded_emit [OF st1] loaded_emit [OF st2] Cons.prems(1) by simp
      with st1 st2 i [OF st1] l [of st2] show ?thesis
        unfolding show_loop.simps h by (simp add: emit_append)
    qed
  qed
qed

section \<open>The text as a function of the set of pairs\<close>

definition block :: "(string \<Rightarrow> 'a list) \<Rightarrow> (string \<Rightarrow> 'a list) \<Rightarrow> (string \<times> string) list \<Rightarrow>
    string \<Rightarrow> 'a list" where
  "block hdr imp ks i = hdr i @ concat (map imp (map snd (filter (\<lambda>k. fst k = i) ks)))"

lemma remdups_adj_sorted:
  "sorted (i # xs) \<Longrightarrow> remdups_adj (i # xs) = i # remdups_adj (filter (\<lambda>x. x \<noteq> i) xs)"
proof (induction xs)
  case Nil
  then show ?case by simp
next
  case (Cons x xs)
  show ?case
  proof (cases "x = i")
    case True
    with Cons show ?thesis by simp
  next
    case False
    with Cons.prems have "filter (\<lambda>x. x \<noteq> i) xs = xs"
      by (intro filter_True) auto
    with False show ?thesis by simp
  qed
qed

lemma loop_items_dups: "loop_items hdr imp prev ks = loop_items hdr imp prev (remdups_adj ks)"
proof (induction ks arbitrary: prev rule: remdups_adj.induct)
  case (3 k k' ks)
  show ?case
  proof (cases "k = k'")
    case True
    then have "loop_items hdr imp prev (k # k' # ks) = loop_items hdr imp prev (k' # ks)" by simp
    with 3(1) [OF True, of prev] True show ?thesis by simp
  next
    case False
    with 3(2) [OF False, of "Some k"] show ?thesis
      by (simp del: loop_items.simps add: loop_items.simps(2) [of hdr imp prev k])
  qed
qed simp_all

lemma sorted_fst: "sorted (k # ks) \<Longrightarrow> sorted (map fst (k # ks :: (string \<times> string) list))"
  by (auto simp: sorted_map less_eq_prod_def elim!: sorted_wrt_mono_rel [rotated])

lemma block_rest:
  "concat (map (block hdr imp (x # ks)) (remdups_adj (filter (\<lambda>i. i \<noteq> fst x) is))) =
   concat (map (block hdr imp ks) (remdups_adj (filter (\<lambda>i. i \<noteq> fst x) is)))"
  by (intro arg_cong [where f = concat] map_cong refl) (auto simp: block_def)

lemma loop_items_sorted:
  assumes "sorted (k # ks)" and "distinct (k # ks)"
  shows "loop_items hdr imp (Some k) ks =
    concat (map imp (map snd (filter (\<lambda>x. fst x = fst k) ks))) @
    concat (map (block hdr imp ks) (remdups_adj (filter (\<lambda>i. i \<noteq> fst k) (map fst ks))))"
  using assms
proof (induction ks arbitrary: k)
  case Nil
  then show ?case by simp
next
  case (Cons x ks)
  have IH: "loop_items hdr imp (Some x) ks =
    concat (map imp (map snd (filter (\<lambda>y. fst y = fst x) ks))) @
    concat (map (block hdr imp ks) (remdups_adj (filter (\<lambda>i. i \<noteq> fst x) (map fst ks))))"
    using Cons.prems by (intro Cons.IH) auto
  have ne: "k \<noteq> x" using Cons.prems by auto
  show ?case
  proof (cases "fst x = fst k")
    case True
    with IH ne block_rest [of hdr imp x ks "map fst ks"] show ?thesis by simp
  next
    case False
    have le: "fst k < fst x" using Cons.prems(1) False by (auto simp: less_eq_prod_def)
    have s: "sorted (fst x # map fst ks)" using sorted_fst [of x ks] Cons.prems(1) by simp
    then have gt: "fst y \<noteq> fst k" if "y \<in> set ks" for y using le that by auto
    then have f1: "filter (\<lambda>y. fst y = fst k) (x # ks) = []"
      and f2: "filter (\<lambda>i. i \<noteq> fst k) (map fst (x # ks)) = map fst (x # ks)"
      using False by (auto simp: filter_empty_conv intro!: filter_True)
    have "loop_items hdr imp (Some k) (x # ks) = block hdr imp (x # ks) (fst x) @
      concat (map (block hdr imp (x # ks)) (remdups_adj (filter (\<lambda>i. i \<noteq> fst x) (map fst ks))))"
      using IH ne False unfolding block_rest by (simp add: block_def)
    then show ?thesis unfolding f1 f2 by (simp add: remdups_adj_sorted [OF s])
  qed
qed

text \<open>The specification: what a set of pairs of a header and an identifier gives, and the text that
  is printed for it.\<close>

definition listing_of :: "(string \<Rightarrow> 'a list) \<Rightarrow> (string \<Rightarrow> 'a list) \<Rightarrow> (string \<times> string) set \<Rightarrow> 'a list" where
  "listing_of hdr imp K =
     concat (map (\<lambda>i. hdr i @ concat (map imp (sorted_list_of_set {r. (i, r) \<in> K})))
       (sorted_list_of_set (fst ` K)))"

definition listing :: "(string \<Rightarrow> string) \<Rightarrow> (string \<times> string) set \<Rightarrow> string" where
  "listing imp K = listing_of header_text imp K"

lemma listing_texts:
  "texts (listing_of header_writes (import_writes ids ns) K) = listing (import_line ids ns) K"
  by (simp add: listing_def listing_of_def header_writes_text import_writes_text comp_def)

lemma sorted_list_unique:
  "sorted xs \<Longrightarrow> distinct xs \<Longrightarrow> set xs = A \<Longrightarrow> sorted_list_of_set A = xs"
  using sorted_list_of_set.idem_if_sorted_distinct [of xs] by auto

lemma distinct_remdups_adj_sorted:
  "sorted xs \<Longrightarrow> distinct (remdups_adj (xs :: 'a :: linorder list))"
  by (induction xs rule: remdups_adj.induct) (auto simp: order_le_less)

lemma sorted_snd:
  "sorted ks \<Longrightarrow> sorted (map snd (filter (\<lambda>k. fst k = i) (ks :: (string \<times> string) list)))"
  by (induction ks) (auto simp: less_eq_prod_def)

lemma listing_list:
  assumes "sorted ks" and "distinct ks"
  shows "loop_items hdr imp None ks = listing_of hdr imp (set ks)"
proof (cases ks)
  case Nil
  then show ?thesis by (simp add: listing_of_def)
next
  case (Cons k xs)
  have s: "sorted (map fst ks)" using assms(1) sorted_fst [of k xs] by (simp add: Cons)
  have "loop_items hdr imp None ks = concat (map (block hdr imp ks) (remdups_adj (map fst ks)))"
    using loop_items_sorted [of k xs hdr imp] assms remdups_adj_sorted [of "fst k" "map fst xs"] s
      block_rest [of hdr imp k xs "map fst xs"]
    by (simp add: Cons block_def)
  also have "remdups_adj (map fst ks) = sorted_list_of_set (fst ` set ks)"
    by (rule sorted_list_unique [symmetric])
      (simp_all add: s remdups_adj_sorted sorted_remdups_adj distinct_remdups_adj_sorted)
  also have "block hdr imp ks = (\<lambda>i. hdr i @
      concat (map imp (sorted_list_of_set {r. (i, r) \<in> set ks})))"
  proof
    fix i
    have "sorted_list_of_set {r. (i, r) \<in> set ks} = map snd (filter (\<lambda>k. fst k = i) ks)"
    proof (rule sorted_list_unique)
      show "distinct (map snd (filter (\<lambda>k. fst k = i) ks))"
        using assms(2) by (auto simp: distinct_map intro!: inj_onI prod_eqI)
      show "set (map snd (filter (\<lambda>k. fst k = i) ks)) = {r. (i, r) \<in> set ks}"
        by force
    qed (rule sorted_snd [OF assms(1)])
    then show "block hdr imp ks i = hdr i @
      concat (map imp (sorted_list_of_set {r. (i, r) \<in> set ks}))"
      by (simp add: block_def)
  qed
  finally show ?thesis by (simp add: listing_of_def)
qed

section \<open>Show the includes\<close>

lemma arr_take_rep: "arr_rep a xs n \<Longrightarrow> k \<le> length xs \<Longrightarrow> arr_take a k = Inr (take k xs)"
  by (induction k) (simp_all add: arr_rep_get take_Suc_conv_app_nth)

text \<open>Whichever sorted permutation of the references \<open>qsort\<close> leaves, the loop makes the same
  writes.\<close>

lemma show_sorted_writes:
  assumes L: "loaded st ids ns ss" and r: "list_all (ref_in ids ns ss) rs"
    and h: "list_all (\<lambda>r. header_list_ok (ss ! (inc_sym r - 1))) rs"
    and perm: "mset rs' = mset rs" and sorted: "sorted (map (key_in ns ss) rs')"
  shows "show_loop werr st None undef_symnr rs' =
    emit werr (listing_of header_writes (import_writes ids ns) (key_in ns ss ` set rs)) st"
proof -
  have set: "set rs' = set rs" using arg_cong [OF perm, of set_mset] by simp
  let ?ks = "map (key_in ns ss) rs'"
  have "show_loop werr st None undef_symnr rs' =
      emit werr (loop_items header_writes (import_writes ids ns) None ?ks) st"
    using r h set by (intro show_loop_writes [OF L]) (auto simp: list_all_iff prev_is_def)
  also have "loop_items header_writes (import_writes ids ns) None ?ks =
      listing_of header_writes (import_writes ids ns) (set (remdups_adj ?ks))"
    unfolding loop_items_dups [of _ _ _ ?ks]
    using sorted by (intro listing_list) (simp_all add: sorted_remdups_adj distinct_remdups_adj_sorted)
  finally show ?thesis by (simp add: set)
qed

text \<open>The state of the library with the references in another order.\<close>

definition with_refs :: "incref list \<Rightarrow> incbot \<Rightarrow> incbot" where
  "with_refs rs st = st\<lparr>ref_inc_table := map Some rs @ drop (length rs) (ref_inc_table st)\<rparr>"

lemma show_includes_emit:
  assumes L: "loaded st ids ns ss" and R: "refs_are st rs"
    and r: "list_all (ref_in ids ns ss) rs"
    and h: "list_all (\<lambda>r. header_list_ok (ss ! (inc_sym r - 1))) rs"
  shows "\<exists>rs'. mset rs' = mset rs \<and> loaded (with_refs rs' st) ids ns ss \<and>
    refs_are (with_refs rs' st) rs' \<and> show_includes werr st =
      emit werr (listing_of header_writes (import_writes ids ns) (key_in ns ss ` set rs)) (with_refs rs' st)"
proof -
  have take: "arr_take (ref_inc_table st) (ref_inc_table_len st) = Inr rs"
    using R arr_take_rep [of "ref_inc_table st" rs _ "length rs"] by (auto simp: refs_are_def)
  have "list_all (ref_ok st) rs" using r L by (auto simp: list_all_iff ref_ok_def)
  from refs.sort_sorted [OF this] obtain rs' where
    rs': "c_qsort (refcmp st) rs = Inr rs'" "mset rs' = mset rs" "sorted (map (ref_key st) rs')"
    by blast
  have sorted: "sorted (map (key_in ns ss) rs')"
    using rs'(3) by (simp add: ref_key_loaded [OF L, abs_def])
  have L': "loaded (with_refs rs' st) ids ns ss"
    using L by (simp add: loaded_def tables_def with_refs_def)
  have "length rs' = length rs" using arg_cong [OF rs'(2), of size] by simp
  then have "refs_are (with_refs rs' st) rs'"
    using R by (auto simp: refs_are_def arr_rep_def with_refs_def)
  with L' rs'(2) show_sorted_writes [OF L' r h rs'(2) sorted] show ?thesis
    by (intro exI [of _ rs']) (simp add: show_includes_def take rs'(1) with_refs_def)
qed

lemma show_includes_ok:
  assumes "loaded st ids ns ss" and "refs_are st rs" and "list_all (ref_in ids ns ss) rs"
    and "list_all (\<lambda>r. header_list_ok (ss ! (inc_sym r - 1))) rs"
  shows "\<exists>st' rs'. show_includes no_error st = Inr st' \<and>
    stdout_text st' = stdout_text st @ listing (import_line ids ns) (key_in ns ss ` set rs) \<and>
    stderr_text st' = stderr_text st \<and> errprint_text st' = errprint_text st \<and>
    loaded st' ids ns ss \<and> refs_are st' rs' \<and> mset rs' = mset rs"
proof -
  from show_includes_emit [OF assms, of no_error] obtain rs' where
    "mset rs' = mset rs" "loaded (with_refs rs' st) ids ns ss" "refs_are (with_refs rs' st) rs'"
    "show_includes no_error st = Inr (with_refs rs' st\<lparr>stdout_text := stdout_text (with_refs rs' st) @
      listing (import_line ids ns) (key_in ns ss ` set rs)\<rparr>)"
    by (auto simp: emit_no_error listing_texts)
  then show ?thesis by (auto simp: refs_are_def with_refs_def intro!: exI [of _ rs'])
qed

section \<open>Properties\<close>

lemma example_table:
  "\<exists>st. loaded st [entry [''open''] [''2'', ''fcntl.h''] [''f'', ''2'', ''open'', ''fcntl.h'']]
     [''open''] [''2'', ''fcntl.h''] \<and>
   refs_are st []"
proof -
  let ?row = "[''f'', ''2'', ''open'', ''fcntl.h'']"
  have n: "names_of [?row] = [''open'']" "strs_of [?row] = [''2'', ''fcntl.h'']"
    by (simp_all add: names_of_def strs_of_def row_ids_def row_strs_def id_strs_def str_strs_def
        numeral_eq_Suc)
  have "list_all line_ok [Row ?row]"
    by (simp add: uc_def field_ok_def FBUF_SZ_def fsep_def)
  from read_stream_ok [OF ready_static this, of "[]"] obtain st where
    st: "holds st [?row]" "others st = others (begin_tables static_incbot)"
    by (auto simp: long_rows_def NFLD_def row_report_def)
  have "loaded st [entry [''open''] [''2'', ''fcntl.h''] ?row] [''open''] [''2'', ''fcntl.h'']"
    using holds_loaded [OF st(1)] by (simp add: n undef_idnr_def)
  moreover have "refs_are st []"
    using tables_init(2) [of static_incbot] st(2) refs_are_others [of st "begin_tables static_incbot"]
    by (simp add: begin_tables_def static_incbot_def)
  ultimately show ?thesis by blast
qed

definition example_ref :: incref where
  "example_ref = \<lparr>ref_sym = 1, inc_sym = 2, ref_idnr = 0, ref_lnr = 7\<rparr>"

lemma example_refs:
  "\<exists>st. loaded st [entry [''open''] [''2'', ''fcntl.h''] [''f'', ''2'', ''open'', ''fcntl.h'']]
     [''open''] [''2'', ''fcntl.h''] \<and>
   refs_are st [example_ref]"
proof -
  from example_table obtain st where
    st: "loaded st [entry [''open''] [''2'', ''fcntl.h''] [''f'', ''2'', ''open'', ''fcntl.h'']]
     [''open''] [''2'', ''fcntl.h'']" "refs_are st []"
    by blast
  let ?st = "st\<lparr>ref_inc_table := [Some example_ref], ref_inc_table_sz := 1, ref_inc_table_len := 1\<rparr>"
  have "loaded ?st [entry [''open''] [''2'', ''fcntl.h''] [''f'', ''2'', ''open'', ''fcntl.h'']]
     [''open''] [''2'', ''fcntl.h'']"
    using st(1) by (simp add: loaded_def tables_def)
  moreover have "refs_are ?st [example_ref]" by (simp add: refs_are_def arr_rep_def)
  ultimately show ?thesis by blast
qed

text \<open>C7: \<open>show_includes\<close> returns and appends to the standard output, for every header of a
  reference, in the order of \<open>strcmp\<close>, its directives and then one comment for each of its
  identifiers, in that order: a function of the set of pairs of header and identifier alone. It
  leaves the tables as they are and permutes the references.\<close>

theorem show_includes_listing:
  assumes "loaded st ids ns ss" and "refs_are st rs" and "list_all (ref_in ids ns ss) rs"
    and "list_all (\<lambda>r. header_list_ok (ss ! (inc_sym r - 1))) rs"
  shows "\<exists>st' rs'. show_includes no_error st = Inr st' \<and>
    stdout_text st' = stdout_text st @ listing (import_line ids ns) (key_in ns ss ` set rs) \<and>
    loaded st' ids ns ss \<and> refs_are st' rs' \<and> mset rs' = mset rs"
  using show_includes_ok [OF assms] by blast

theorem show_includes_listing_witness:
  "\<exists>st st'. show_includes no_error st = Inr st' \<and>
     stdout_text st' = stdout_text st @ listing
       (import_line [entry [''open''] [''2'', ''fcntl.h''] [''f'', ''2'', ''open'', ''fcntl.h'']] [''open''])
       {(''fcntl.h'', ''open'')}"
proof -
  from example_refs obtain st where
    "loaded st [entry [''open''] [''2'', ''fcntl.h''] [''f'', ''2'', ''open'', ''fcntl.h'']]
     [''open''] [''2'', ''fcntl.h'']" "refs_are st [example_ref]"
    by blast
  from show_includes_listing [OF this] show ?thesis
    by (auto simp: ref_in_def example_ref_def key_in_def header_list_ok_def)
qed

text \<open>C21: the output does not depend on how \<open>qsort\<close> orders equal elements: the loop prints the
  same text from any sorted permutation of the references, on a standard output that fails in any
  way.\<close>

theorem show_loop_any_sorted:
  assumes "loaded st ids ns ss" and "list_all (ref_in ids ns ss) rs"
    and "list_all (\<lambda>r. header_list_ok (ss ! (inc_sym r - 1))) rs"
    and "mset rs1 = mset rs" and "sorted (map (ref_key st) rs1)"
    and "mset rs2 = mset rs" and "sorted (map (ref_key st) rs2)"
  shows "show_loop werr st None undef_symnr rs1 = show_loop werr st None undef_symnr rs2"
  using show_sorted_writes [OF assms(1-4)] show_sorted_writes [OF assms(1-3,6)] assms(5,7)
  by (simp add: ref_key_loaded [OF assms(1), abs_def])

theorem show_loop_any_sorted_witness:
  "\<exists>st. show_loop no_error st None undef_symnr [example_ref, example_ref\<lparr>ref_lnr := 9\<rparr>] =
     show_loop no_error st None undef_symnr [example_ref\<lparr>ref_lnr := 9\<rparr>, example_ref]"
proof -
  from example_refs obtain st where
    "loaded st [entry [''open''] [''2'', ''fcntl.h''] [''f'', ''2'', ''open'', ''fcntl.h'']]
     [''open''] [''2'', ''fcntl.h'']"
    by blast
  from show_loop_any_sorted [OF this, of "[example_ref, example_ref\<lparr>ref_lnr := 9\<rparr>]"
      "[example_ref, example_ref\<lparr>ref_lnr := 9\<rparr>]" "[example_ref\<lparr>ref_lnr := 9\<rparr>, example_ref]" no_error]
  show ?thesis
    by (auto simp: ref_in_def example_ref_def ref_key_def key_in_def header_list_ok_def)
qed

text \<open>C22: a list of header names separated by bars, none of them empty, gives one directive for
  each name, in the order of the list.\<close>

theorem include_list_split:
  assumes "header_list_ok s"
  shows "include_loop s 0 0 = Inr (concat (map directive (split_bar s)))"
  by (rule include_loop_ok [OF assms])

theorem include_list_split_witness:
  "include_loop ''a.h|b.h'' 0 0 = Inr (concat (map directive [''a.h'', ''b.h'']))"
  using include_list_split [of "''a.h|b.h''"] by (simp add: header_list_ok_def)

text \<open>C38: after a bar the loop skips one character unseen, so a list of header names that ends in
  one bar is read past the end of the string.\<close>

theorem include_list_trailing_bar:
  assumes "s \<noteq> []" and "last s = CHR ''|''" and "length s < 2 \<or> s ! (length s - 2) \<noteq> CHR ''|''"
    and "p2 < length s"
  shows "include_loop s p1 p2 = Inl Undef"
  using assms(4)
proof (induction "length s - p2" arbitrary: p1 p2 rule: less_induct)
  case less
  have last: "s ! (length s - 1) = CHR ''|''" using assms(1,2) by (simp add: last_conv_nth)
  show ?case
  proof (cases "s ! p2 = CHR ''|''")
    case False
    then have "p2 + 1 < length s" using last less.prems by (metis Suc_eq_plus1 Suc_lessI diff_Suc_1)
    with False less show ?thesis by (subst include_loop.simps) simp
  next
    case True
    have "include_loop s (p2 + 1) (p2 + 2) = Inl Undef"
    proof (cases "p2 + 2 < length s")
      case True
      with less.hyps [of "p2 + 2"] less.prems show ?thesis by simp
    next
      case False
      have "p2 + 2 \<noteq> length s"
      proof
        assume "p2 + 2 = length s"
        then have "length s - 2 = p2" "\<not> length s < 2" by auto
        with assms(3) \<open>s ! p2 = CHR ''|''\<close> show False by simp
      qed
      with False show ?thesis by (subst include_loop.simps) simp
    qed
    with True less.prems show ?thesis by (subst include_loop.simps) (simp add: Let_def)
  qed
qed

theorem include_list_trailing_bar_witness: "include_loop ''a.h|'' 0 0 = Inl Undef"
  by (rule include_list_trailing_bar) simp_all

text \<open>C35: on a standard output that fails in any way \<open>show_includes\<close> makes a list of writes that
  is a function of the set of pairs of header and identifier, and whose texts together are the
  listing; it goes on after a failed write of a directive, loses its text, and aborts with the
  number of the error when the start of a comment, or the name of an identifier whose type is not
  known, is not written.\<close>

theorem show_includes_io_error:
  assumes "loaded st ids ns ss" and "refs_are st rs" and "list_all (ref_in ids ns ss) rs"
    and "list_all (\<lambda>r. header_list_ok (ss ! (inc_sym r - 1))) rs"
    and "K = key_in ns ss ` set rs"
  shows "\<exists>rs'. mset rs' = mset rs \<and>
    show_includes werr st =
      emit werr (listing_of header_writes (import_writes ids ns) K) (with_refs rs' st) \<and>
    texts (listing_of header_writes (import_writes ids ns) K) = listing (import_line ids ns) K"
  using show_includes_emit [OF assms(1-4)] by (auto simp: assms(5) listing_texts)

text \<open>A disk with room for twelve characters: the directive is cut after its first part, and the
  comment that follows ends the program.\<close>

theorem show_includes_io_error_witness:
  "\<exists>st. stdout_text st = [] \<and>
     show_includes (\<lambda>t s. if length t + length s \<le> 12 then 0 else ENOSPC) st =
       Inl (Abort (io_error ENOSPC))"
proof -
  from example_refs obtain st' where
    "loaded st' [entry [''open''] [''2'', ''fcntl.h''] [''f'', ''2'', ''open'', ''fcntl.h'']]
     [''open''] [''2'', ''fcntl.h'']" "refs_are st' [example_ref]"
    by blast
  then obtain st where
    st: "stdout_text st = []"
    "loaded st [entry [''open''] [''2'', ''fcntl.h''] [''f'', ''2'', ''open'', ''fcntl.h'']]
     [''open''] [''2'', ''fcntl.h'']" "refs_are st [example_ref]"
    by (auto simp: refs_are_def intro!: that [of "st'\<lparr>stdout_text := []\<rparr>"])
  have "header_writes ''fcntl.h'' =
      [(False, ''#include <''), (False, ''fcntl.h''), (False, ''>'' @ [CHR 0x0A])]"
    by (simp add: header_writes_def directive_def)
  with show_includes_io_error [OF st(2,3) _ _ refl,
      of "\<lambda>t s. if length t + length s \<le> 12 then 0 else ENOSPC"] st(1)
  show ?thesis
    by (auto simp: ref_in_def example_ref_def header_list_ok_def ENOSPC_def key_in_def listing_of_def
        import_writes_def Let_def with_refs_def)
qed

end
