(* ===== verification/Pipeline.thy ===== *)
theory Pipeline
  imports ScanSpec IncludesSpec
begin

text \<open>
  The three stages of the program together: an id-table is read, source files are scanned and
  the includes are shown. \<open>state_after\<close> is the state between files: the references of all files
  scanned so far are kept, in the order in which \<open>qsort\<close> left them.
\<close>

section \<open>From an id-table and a source file to the include directives\<close>

text \<open>
  What the program is for, over the rows of the id-table and the identifiers of the source:
  the pairs of a header and an identifier to print, and the comment for an identifier.
\<close>

definition provided :: "string list list \<Rightarrow> occurrence list \<Rightarrow> (string \<times> string) set" where
  "provided rows ocs =
     {(fs ! 3, fs ! 2) | fs oc. fs \<in> set rows \<and> oc \<in> set ocs \<and> oc_name oc = fs ! 2 \<and>
        encode_id_type (fs ! 0) AND find_mask (oc_call oc) \<noteq> 0 \<and>
        encode_id_type (fs ! 0) \<noteq> TYPE_KEYWORD \<and> 3 < length fs \<and> fs ! 3 \<noteq> []}"

definition row_type :: "string list list \<Rightarrow> string \<Rightarrow> 32 word" where
  "row_type rows s = encode_id_type (the (map_of (map (\<lambda>fs. (row_id fs, fs ! 0)) rows) s))"

definition row_comment :: "string list list \<Rightarrow> string \<Rightarrow> string" where
  "row_comment rows s = ''    // Import '' @ import_text (row_type rows s) s @ [CHR 0x0A]"

definition table_ok :: "string list list \<Rightarrow> bool" where
  "table_ok rows \<longleftrightarrow>
     (\<forall>fs \<in> set rows. 2 < length fs) \<and> distinct (map row_id rows) \<and> length rows \<le> undef_idnr \<and>
     (\<forall>fs \<in> set rows. 3 < length fs \<and> fs ! 3 \<noteq> [] \<longrightarrow> header_list_ok (fs ! 3)) \<and>
     (\<forall>fs \<in> set rows. 7 < length fs \<and> fs ! 7 \<noteq> [] \<and> encode_id_type (fs ! 0) = TYPE_TYPEDEF \<longrightarrow>
        symnr_of (strs_of rows) (fs ! 7) \<le> length rows)"

abbreviation ids_of :: "string list list \<Rightarrow> idinfo list" where
  "ids_of rows \<equiv> map (entry (names_of rows) (strs_of rows)) rows"

lemma entry_simps:
  "id_src1 (entry ns ss fs) = nr_at ss fs 3" "id_type (entry ns ss fs) = encode_id_type (fs ! 0)"
  by (simp_all add: entry_def)

lemma entries_ok_rows:
  assumes "table_ok rows"
  shows "entries_ok (ids_of rows) (names_of rows) (strs_of rows)"
  using assms
  by (auto simp: entries_ok_def table_ok_def entry_def nr_at_def symnr_of_le length_names_of)

lemma names_of_table: "table_ok rows \<Longrightarrow> names_of rows = map row_id rows"
  by (intro names_of_distinct) (simp_all add: table_ok_def)

lemma find_spec_row:
  assumes T: "table_ok rows" and n: "find_spec (ids_of rows) (names_of rows) s m = n" "n \<noteq> undef_idnr"
  shows "n < length rows \<and> row_id (rows ! n) = s \<and> encode_id_type (rows ! n ! 0) AND m \<noteq> 0"
proof -
  have ns: "names_of rows = map row_id rows" by (rule names_of_table [OF T])
  from n have s: "s \<in> set (names_of rows)" "n = symnr_of (names_of rows) s - 1"
    and t: "id_type (ids_of rows ! n) AND m \<noteq> 0"
    by (auto simp: find_spec_def split: if_splits)
  from symnr_of_in [OF s(1)] s(2) have "n < length (names_of rows)" "names_of rows ! n = s"
    by auto
  then have "n < length rows" "row_id (rows ! n) = s" by (simp_all add: ns)
  with t show ?thesis by (simp add: entry_def)
qed

lemma find_spec_of_row:
  assumes T: "table_ok rows" and i: "i < length rows"
  shows "find_spec (ids_of rows) (names_of rows) (row_id (rows ! i)) m =
    (if encode_id_type (rows ! i ! 0) AND m \<noteq> 0 then i else undef_idnr)"
proof -
  have ns: "names_of rows = map row_id rows" by (rule names_of_table [OF T])
  have "symnr_of (map row_id rows) (map row_id rows ! i) = Suc i"
    using T i by (intro symnr_of_nth) (simp_all add: table_ok_def)
  with i show ?thesis by (auto simp: find_spec_def ns entry_def)
qed

text \<open>The references of the scan, as pairs of strings.\<close>

lemma str_at:
  assumes "fs \<in> set rows" and "3 < length fs"
  shows "0 < nr_at (strs_of rows) fs 3" "nr_at (strs_of rows) fs 3 \<le> length (strs_of rows)"
    "strs_of rows ! (nr_at (strs_of rows) fs 3 - 1) = fs ! 3"
proof -
  have "fs ! 3 \<in> set (strs_of rows)"
    using row_in_of(2) [OF assms(1)] row_strs_in [of 3 fs] assms(2) by auto
  from symnr_of_in [OF this] show "0 < nr_at (strs_of rows) fs 3"
    "nr_at (strs_of rows) fs 3 \<le> length (strs_of rows)"
    "strs_of rows ! (nr_at (strs_of rows) fs 3 - 1) = fs ! 3"
    using assms(2) by (simp_all add: nr_at_def)
qed

lemma ref_of_in:
  assumes T: "table_ok rows" and r: "r \<in> set (ref_of (ids_of rows) (names_of rows) (strs_of rows) oc)"
  shows "\<exists>i < length rows. row_id (rows ! i) = oc_name oc \<and>
    encode_id_type (rows ! i ! 0) AND find_mask (oc_call oc) \<noteq> 0 \<and>
    encode_id_type (rows ! i ! 0) \<noteq> TYPE_KEYWORD \<and> 3 < length (rows ! i) \<and> rows ! i ! 3 \<noteq> [] \<and>
    ref_in (ids_of rows) (names_of rows) (strs_of rows) r \<and>
    strs_of rows ! (inc_sym r - 1) = rows ! i ! 3 \<and>
    key_in (names_of rows) (strs_of rows) r = (rows ! i ! 3, row_id (rows ! i))"
proof -
  define n where
    "n = find_spec (ids_of rows) (names_of rows) (oc_name oc) (find_mask (oc_call oc))"
  from r have n: "n \<noteq> undef_idnr"
    and src: "id_src1 (ids_of rows ! n) \<noteq> 0" "id_type (ids_of rows ! n) \<noteq> TYPE_KEYWORD"
      "strs_of rows ! (id_src1 (ids_of rows ! n) - 1) \<noteq> []"
    and req: "r = \<lparr>ref_sym = n + 1, inc_sym = id_src1 (ids_of rows ! n), ref_idnr = n, ref_lnr = oc_lnr oc\<rparr>"
    by (auto simp: ref_of_def Let_def n_def [symmetric] split: if_splits)
  from find_spec_row [OF T n_def [symmetric] n] have i: "n < length rows" "row_id (rows ! n) = oc_name oc"
    "encode_id_type (rows ! n ! 0) AND find_mask (oc_call oc) \<noteq> 0"
    by simp_all
  have s1: "id_src1 (ids_of rows ! n) = nr_at (strs_of rows) (rows ! n) 3"
    using i(1) by (simp add: entry_simps)
  have l: "3 < length (rows ! n)" using src(1) s1 by (auto simp: nr_at_def split: if_splits)
  note at = str_at [OF nth_mem [OF i(1)] l]
  have r': "r = \<lparr>ref_sym = n + 1, inc_sym = nr_at (strs_of rows) (rows ! n) 3, ref_idnr = n, ref_lnr = oc_lnr oc\<rparr>"
    using req s1 by simp
  have "key_in (names_of rows) (strs_of rows) r = (rows ! n ! 3, row_id (rows ! n))"
    using at(3) i(1) by (simp add: key_in_def r' names_of_table [OF T])
  moreover have "ref_in (ids_of rows) (names_of rows) (strs_of rows) r"
    using at i(1) by (simp add: ref_in_def r')
  moreover have "encode_id_type (rows ! n ! 0) \<noteq> TYPE_KEYWORD" "rows ! n ! 3 \<noteq> []"
    using src(2,3) i(1) s1 at(3) by (simp_all add: entry_simps)
  moreover have "strs_of rows ! (inc_sym r - 1) = rows ! n ! 3" using at(3) by (simp add: r')
  ultimately show ?thesis using i l by blast
qed

lemma keys_provided:
  assumes T: "table_ok rows"
  shows "key_in (names_of rows) (strs_of rows) ` set (refs_of (ids_of rows) (names_of rows) (strs_of rows) ocs)
    = provided rows ocs" (is "?A = ?B")
proof
  have len: "2 < length fs" if "fs \<in> set rows" for fs using T that by (simp add: table_ok_def)
  show "?A \<subseteq> ?B"
  proof
    fix k assume "k \<in> ?A"
    then obtain oc r where oc: "oc \<in> set ocs"
      "r \<in> set (ref_of (ids_of rows) (names_of rows) (strs_of rows) oc)"
      "k = key_in (names_of rows) (strs_of rows) r"
      by (auto simp: refs_of_def)
    from ref_of_in [OF T oc(2)] obtain i where "i < length rows" "row_id (rows ! i) = oc_name oc"
      "encode_id_type (rows ! i ! 0) AND find_mask (oc_call oc) \<noteq> 0"
      "encode_id_type (rows ! i ! 0) \<noteq> TYPE_KEYWORD" "3 < length (rows ! i)" "rows ! i ! 3 \<noteq> []"
      "k = (rows ! i ! 3, row_id (rows ! i))"
      using oc(3) by auto
    with oc(1) len [of "rows ! i"] show "k \<in> ?B"
      by (auto simp: provided_def row_id_def intro!: exI [of _ "rows ! i"] exI [of _ oc])
  qed
  show "?B \<subseteq> ?A"
  proof
    fix k assume "k \<in> ?B"
    then obtain fs oc where k: "k = (fs ! 3, fs ! 2)" "fs \<in> set rows" "oc \<in> set ocs"
      "oc_name oc = fs ! 2" "encode_id_type (fs ! 0) AND find_mask (oc_call oc) \<noteq> 0"
      "encode_id_type (fs ! 0) \<noteq> TYPE_KEYWORD" "3 < length fs" "fs ! 3 \<noteq> []"
      by (auto simp: provided_def)
    from k(2) obtain i where i: "i < length rows" "fs = rows ! i" by (auto simp: in_set_conv_nth)
    have id: "row_id (rows ! i) = oc_name oc" using k i len [OF k(2)] by (simp add: row_id_def)
    have n: "find_spec (ids_of rows) (names_of rows) (oc_name oc) (find_mask (oc_call oc)) = i"
      using find_spec_of_row [OF T i(1), of "find_mask (oc_call oc)"] k(5) i(2) id by simp
    have ne: "i \<noteq> undef_idnr" using T i(1) by (simp add: table_ok_def)
    note at = str_at [OF k(2,7)]
    let ?r = "\<lparr>ref_sym = i + 1, inc_sym = nr_at (strs_of rows) fs 3, ref_idnr = i, ref_lnr = oc_lnr oc\<rparr>"
    have "?r \<in> set (ref_of (ids_of rows) (names_of rows) (strs_of rows) oc)"
      using n ne at k(6,8) i by (simp add: ref_of_def Let_def entry_def)
    moreover have "key_in (names_of rows) (strs_of rows) ?r = k"
      using at(3) i(1) id k(1,4) by (simp add: key_in_def names_of_table [OF T])
    ultimately show "k \<in> ?A" using k(3) by (auto simp: refs_of_def intro!: image_eqI [of _ _ ?r])
  qed
qed

lemma finite_provided: "finite (provided rows ocs)"
proof -
  have "provided rows ocs \<subseteq> (\<lambda>fs. (fs ! 3, fs ! 2)) ` set rows" by (auto simp: provided_def)
  then show ?thesis by (rule finite_subset) simp
qed

lemma listing_cong:
  assumes "finite K" and "\<And>i r. (i, r) \<in> K \<Longrightarrow> imp r = imp' r"
  shows "listing imp K = listing imp' K"
proof -
  have fin: "finite {r. (i, r) \<in> K}" for i
    using finite_imageI [OF assms(1), of snd] by (rule rev_finite_subset) force
  have "map imp (sorted_list_of_set {r. (i, r) \<in> K}) = map imp' (sorted_list_of_set {r. (i, r) \<in> K})" for i
    using fin [of i] assms(2) by (intro map_cong refl) auto
  then show ?thesis by (simp only: listing_def listing_of_def)
qed

lemma comment_row:
  assumes T: "table_ok rows" and "(i, s) \<in> provided rows ocs"
  shows "import_line (ids_of rows) (names_of rows) s = row_comment rows s"
proof -
  from assms(2) obtain fs where fs: "fs \<in> set rows" "s = row_id fs"
    using T by (auto simp: provided_def row_id_def table_ok_def)
  then obtain k where k: "k < length rows" "fs = rows ! k" by (auto simp: in_set_conv_nth)
  have nr: "symnr_of (names_of rows) s = Suc k"
    using T k fs symnr_of_nth [of "map row_id rows" k]
    by (simp add: names_of_table [OF T] table_ok_def)
  have "map_of (map (\<lambda>fs. (row_id fs, fs ! 0)) rows) s = Some (fs ! 0)"
    using T fs by (intro map_of_is_SomeI) (auto simp: table_ok_def comp_def)
  with k nr show ?thesis
    by (simp add: import_line_def row_comment_def row_type_def entry_def)
qed

section \<open>Traced identifiers\<close>

text \<open>The entries of the table when the identifiers \<open>tr\<close> are marked for tracing.\<close>

definition marked :: "string list list \<Rightarrow> string set \<Rightarrow> idinfo list" where
  "marked rows tr =
     map (\<lambda>fs. (entry (names_of rows) (strs_of rows) fs)\<lparr>id_trace := row_id fs \<in> tr\<rparr>) rows"

lemma length_marked [simp]: "length (marked rows tr) = length rows"
  by (simp add: marked_def)

lemma nth_marked:
  "i < length rows \<Longrightarrow> marked rows tr ! i = (ids_of rows ! i)\<lparr>id_trace := row_id (rows ! i) \<in> tr\<rparr>"
  by (simp add: marked_def)

lemma marked_empty: "marked rows {} = ids_of rows"
  by (intro nth_equalityI) (simp_all add: nth_marked entry_def)

lemma position_row:
  assumes "table_ok rows" and "s \<in> set (names_of rows)"
  obtains i where "i < length rows" "row_id (rows ! i) = s" "symnr_of (names_of rows) s = Suc i"
proof -
  from symnr_of_in [OF assms(2)] assms(1) obtain i where
    "symnr_of (names_of rows) s = Suc i" "i < length rows" "names_of rows ! i = s"
    by (cases "symnr_of (names_of rows) s") (auto simp: names_of_table)
  with assms(1) that show ?thesis by (simp add: names_of_table)
qed

lemma find_spec_marked:
  "table_ok rows \<Longrightarrow> find_spec (marked rows tr) (names_of rows) s m = find_spec (ids_of rows) (names_of rows) s m"
  by (auto simp: find_spec_def nth_marked elim: position_row)

lemma refs_of_marked:
  assumes T: "table_ok rows"
  shows "refs_of (marked rows tr) (names_of rows) ss ocs = refs_of (ids_of rows) (names_of rows) ss ocs"
proof -
  have "ref_of (marked rows tr) (names_of rows) ss oc = ref_of (ids_of rows) (names_of rows) ss oc" for oc
    using find_spec_row [OF T refl, of "oc_name oc" "find_mask (oc_call oc)"]
    by (auto simp: ref_of_def find_spec_marked [OF T] Let_def nth_marked)
  then show ?thesis unfolding refs_of_def by (intro arg_cong [where f = concat] map_cong refl)
qed

lemma entries_ok_marked:
  "table_ok rows \<Longrightarrow> entries_ok (marked rows tr) (names_of rows) (strs_of rows)"
  using entries_ok_rows [of rows] by (simp add: entries_ok_def marked_def)

lemma ref_in_marked: "ref_in (marked rows tr) ns ss r = ref_in (ids_of rows) ns ss r"
  by (simp add: ref_in_def)

lemma import_marked:
  assumes "table_ok rows" and "(i, s) \<in> provided rows ocs"
  shows "import_line (marked rows tr) (names_of rows) s = row_comment rows s"
proof -
  from assms have "s \<in> set (names_of rows)"
    by (auto simp: provided_def names_of_table row_id_def table_ok_def)
  with position_row [OF assms(1)] obtain k where
    "k < length rows" "symnr_of (names_of rows) s = Suc k"
    by metis
  with comment_row [OF assms] show ?thesis by (simp add: import_line_def nth_marked)
qed

text \<open>What is printed on the standard error for the identifiers \<open>tr\<close>.\<close>

definition trace_log :: "string list list \<Rightarrow> string set \<Rightarrow> occurrence list \<Rightarrow> string" where
  "trace_log rows tr ocs =
     concat (map (\<lambda>oc. if oc_name oc \<in> tr \<and> oc_name oc \<in> row_id ` set rows
       then trace_text (oc_name oc) (find_mask (oc_call oc)) (row_type rows (oc_name oc)) else []) ocs)"

lemma row_type_nth:
  assumes "table_ok rows" and "i < length rows"
  shows "row_type rows (row_id (rows ! i)) = encode_id_type (rows ! i ! 0)"
proof -
  have "map_of (map (\<lambda>fs. (row_id fs, fs ! 0)) rows) (row_id (rows ! i)) = Some (rows ! i ! 0)"
    using assms by (intro map_of_is_SomeI) (auto simp: table_ok_def comp_def)
  then show ?thesis by (simp add: row_type_def)
qed

lemma find_trace_marked:
  assumes "table_ok rows"
  shows "find_trace (marked rows tr) (names_of rows) s m =
    (if s \<in> tr \<and> s \<in> row_id ` set rows then trace_text s m (row_type rows s) else [])"
proof (cases "s \<in> row_id ` set rows")
  case True
  then have "s \<in> set (names_of rows)" using assms by (simp add: names_of_table)
  with position_row [OF assms] obtain i where
    "i < length rows" "row_id (rows ! i) = s" "symnr_of (names_of rows) s = Suc i"
    by metis
  with row_type_nth [OF assms, of i] \<open>s \<in> set (names_of rows)\<close> True show ?thesis
    by (simp add: find_trace_def nth_marked entry_simps)
next
  case False
  with assms show ?thesis by (simp add: find_trace_def names_of_table)
qed

lemma traces_marked:
  "table_ok rows \<Longrightarrow> traces_of (marked rows tr) (names_of rows) ocs = trace_log rows tr ocs"
  by (simp add: traces_of_def trace_log_def find_trace_marked)

section \<open>The state between files\<close>

definition state_after ::
  "string list list \<Rightarrow> string set \<Rightarrow> occurrence list \<Rightarrow> string \<Rightarrow> string \<Rightarrow> string \<Rightarrow> incbot \<Rightarrow> bool" where
  "state_after rows tr ocs e t u st \<longleftrightarrow>
     (\<exists>rs. scanned st (marked rows tr) (names_of rows) (strs_of rows) rs e (t, u) \<and>
        mset rs = mset (refs_of (ids_of rows) (names_of rows) (strs_of rows) ocs))"

lemma refs_of_append:
  "refs_of ids ns ss (ocs @ ocs') = refs_of ids ns ss ocs @ refs_of ids ns ss ocs'"
  by (simp add: refs_of_def)

text \<open>The state while id-tables are read: \<open>rows\<close> are those of the files read so far.\<close>

definition collected :: "string list list \<Rightarrow> string \<Rightarrow> string \<Rightarrow> incbot \<Rightarrow> bool" where
  "collected rows e u st \<longleftrightarrow>
     ready st rows \<and> refs_are (begin_tables st) [] \<and> stdout_text st = [] \<and> stderr_text st = e \<and>
     errprint_text st = u \<and> \<not> debug st"

lemma collected_static: "collected [] [] [] static_incbot"
  using tables_init(2) [of static_incbot] ready_static
  by (simp add: collected_def begin_tables_def static_incbot_def)

text \<open>What is printed for the name of a table when the command is verbose.\<close>

definition announcement :: "string \<Rightarrow> string" where
  "announcement fname = ''id_table='' @ fshow_quoted_path fname @ [CHR 0x0A]"

definition ids_ok :: "string list list \<Rightarrow> bool" where
  "ids_ok rows \<longleftrightarrow> (\<forall>fs \<in> set rows. 2 < length fs) \<and> distinct (map row_id rows)"

lemma ids_ok_table: "table_ok rows \<Longrightarrow> ids_ok rows"
  by (simp add: table_ok_def ids_ok_def)

lemma ids_ok_append: "ids_ok (rows @ rows') \<Longrightarrow> ids_ok rows"
  by (simp add: ids_ok_def)

lemma collect_table:
  assumes "collected rows e u st" and "list_all line_ok ls" and "long_rows (rows_of ls) \<le> ERR_LIMIT"
    and "ids_ok (rows @ rows_of ls)"
  shows "\<exists>st'. read_id_table_file verb st fname (Inr (file_text ls)) =
      Inr (if long_rows (rows_of ls) \<noteq> 0 then 1 else 0, st') \<and> 0 < id_table_sz st' \<and>
    collected (rows @ rows_of ls) (e @ (if verb then announcement fname else []))
      (u @ row_reports fname 0 ls) st'"
proof -
  have "ready st rows" using assms(1) by (simp add: collected_def)
  from read_file_ok [OF this assms(2,3) refl, of verb fname] assms(4) obtain st' where
    st': "read_id_table_file verb st fname (Inr (file_text ls)) =
      Inr (if long_rows (rows_of ls) \<noteq> 0 then 1 else 0, st')" "holds st' (rows @ rows_of ls)"
    "others st' = others (eprintf (row_reports fname 0 ls) (announce_table verb fname (begin_tables st)))"
    by (auto simp: ids_ok_def)
  have o: "refs_are st' [] = refs_are (begin_tables st) []" "stdout_text st' = stdout_text st"
    "stderr_text st' = stderr_text st @ (if verb then announcement fname else [])"
    "errprint_text st' = errprint_text st @ row_reports fname 0 ls" "debug st' = debug st"
    using st'(3)
    by (auto simp: others_def refs_are_def eprintf_def announce_table_def announcement_def
        begin_tables_def init_tables_def split: if_splits)
  with st'(1,2) holds_sz [OF st'(2)] holds_ready [OF st'(2)] assms(1) show ?thesis
    by (auto simp: collected_def)
qed

lemma eprintf_sz: "id_table_sz (eprintf t l) = id_table_sz l"
  by (simp add: eprintf_def)

lemma collected_eprintf:
  "collected rows e u st \<Longrightarrow> 0 < id_table_sz st \<Longrightarrow> collected rows e (u @ t) (eprintf t st)"
  by (simp add: collected_def ready_def begin_tables_def eprintf_sz) (simp add: eprintf_def)

lemma collected_state_after:
  assumes "collected rows e u st" and "0 < id_table_sz st" and T: "table_ok rows"
  shows "state_after rows {} [] e [] u st"
proof -
  have "holds st rows" using assms(1,2) by (simp add: collected_def ready_def begin_tables_def)
  from holds_loaded [OF this] T have "loaded st (ids_of rows) (names_of rows) (strs_of rows)"
    by (simp add: table_ok_def)
  with assms(1,2) show ?thesis
    by (auto simp: state_after_def scanned_def marked_empty collected_def begin_tables_def)
qed

lemma table_read:
  assumes "list_all line_ok ls" and "long_rows (rows_of ls) \<le> ERR_LIMIT" and T: "table_ok (rows_of ls)"
  shows "\<exists>st. read_id_table_file False static_incbot fname (Inr (file_text ls)) =
      Inr (if long_rows (rows_of ls) \<noteq> 0 then 1 else 0, st) \<and>
    state_after (rows_of ls) {} [] [] [] (row_reports fname 0 ls) st"
  using collect_table [OF collected_static assms(1,2), of False fname] ids_ok_table [OF T]
    collected_state_after [OF _ _ T]
  by auto

text \<open>One file: it is scanned, and the includes for all files so far are shown.\<close>

definition fits :: "string \<Rightarrow> bool" where
  "fits f \<longleftrightarrow> (\<forall>oc \<in> set (lookups f). length (oc_name oc) < IDBUF_SZ)"

lemma refs_show:
  assumes T: "table_ok rows" and set: "set rs = set (refs_of (ids_of rows) (names_of rows) (strs_of rows) ocs)"
  shows "list_all (ref_in (marked rows tr) (names_of rows) (strs_of rows)) rs"
    and "list_all (\<lambda>r. header_list_ok (strs_of rows ! (inc_sym r - 1))) rs"
proof -
  have "ref_in (ids_of rows) (names_of rows) (strs_of rows) r \<and> header_list_ok (strs_of rows ! (inc_sym r - 1))"
    if "r \<in> set rs" for r
  proof -
    from that set obtain oc where "r \<in> set (ref_of (ids_of rows) (names_of rows) (strs_of rows) oc)"
      by (auto simp: refs_of_def)
    from ref_of_in [OF T this] obtain i where "i < length rows" "3 < length (rows ! i)"
      "rows ! i ! 3 \<noteq> []" "ref_in (ids_of rows) (names_of rows) (strs_of rows) r"
      "strs_of rows ! (inc_sym r - 1) = rows ! i ! 3"
      by blast
    with T show ?thesis by (auto simp: table_ok_def)
  qed
  then show "list_all (ref_in (marked rows tr) (names_of rows) (strs_of rows)) rs"
    and "list_all (\<lambda>r. header_list_ok (strs_of rows ! (inc_sym r - 1))) rs"
    by (auto simp: list_all_iff ref_in_marked)
qed

lemma file_step:
  assumes T: "table_ok rows" and S: "state_after rows tr ocs e t u st" and "fits f"
  shows "\<exists>st2 st3. incbot_src_stream st f fname = Inr (0, st2) \<and> show_includes no_error st2 = Inr st3 \<and>
    state_after rows tr (ocs @ lookups f) (e @ trace_log rows tr (lookups f))
      (t @ listing (row_comment rows) (provided rows (ocs @ lookups f))) u st3"
proof -
  let ?ids = "marked rows tr" and ?ns = "names_of rows" and ?ss = "strs_of rows"
  let ?ocs = "ocs @ lookups f"
  from S obtain rs where rs: "scanned st ?ids ?ns ?ss rs e (t, u)"
    "mset rs = mset (refs_of (ids_of rows) ?ns ?ss ocs)"
    by (auto simp: state_after_def)
  let ?rs = "rs @ refs_of (ids_of rows) ?ns ?ss (lookups f)"
  from src_stream_ok [OF rs(1) entries_ok_marked [OF T] assms(3) [unfolded fits_def]] obtain st2 where
    st2: "incbot_src_stream st f fname = Inr (0, st2)"
    "scanned st2 ?ids ?ns ?ss ?rs (e @ trace_log rows tr (lookups f)) (t, u)"
    by (auto simp: traces_marked [OF T] refs_of_marked [OF T])
  have perm: "mset ?rs = mset (refs_of (ids_of rows) ?ns ?ss ?ocs)" using rs(2) by (simp add: refs_of_append)
  then have set: "set ?rs = set (refs_of (ids_of rows) ?ns ?ss ?ocs)" by (metis set_mset_mset)
  have "\<exists>st3 rs'. show_includes no_error st2 = Inr st3 \<and>
    stdout_text st3 = stdout_text st2 @ listing (import_line ?ids ?ns) (key_in ?ns ?ss ` set ?rs) \<and>
    stderr_text st3 = stderr_text st2 \<and> errprint_text st3 = errprint_text st2 \<and> loaded st3 ?ids ?ns ?ss \<and> refs_are st3 rs' \<and>
    mset rs' = mset ?rs"
    using st2(2) by (intro show_includes_ok refs_show [OF T set]) (auto simp: scanned_def)
  then obtain st3 rs' where st3: "show_includes no_error st2 = Inr st3"
    "scanned st3 ?ids ?ns ?ss rs' (e @ trace_log rows tr (lookups f))
       (t @ listing (import_line ?ids ?ns) (provided rows ?ocs), u)" "mset rs' = mset ?rs"
    using st2(2) unfolding set keys_provided [OF T] by (auto simp: scanned_def)
  have "listing (import_line ?ids ?ns) (provided rows ?ocs) = listing (row_comment rows) (provided rows ?ocs)"
    by (rule listing_cong [OF finite_provided import_marked [OF T]])
  with st3 perm show ?thesis using st2(1) by (auto simp: state_after_def)
qed

text \<open>Marking an identifier that is not marked yet.\<close>

lemma encode_in_all: "encode_id_type s AND TYPE_ALL \<noteq> 0"
  by (simp add: encode_id_type_def TYPE_ALL_def type_defs Let_def)

lemma marked_insert:
  assumes T: "table_ok rows" and i: "i < length rows" and s: "row_id (rows ! i) = s"
  shows "(marked rows tr)[i := (marked rows tr ! i)\<lparr>id_trace := True\<rparr>] = marked rows (insert s tr)"
proof (rule nth_equalityI)
  fix j assume "j < length ((marked rows tr)[i := (marked rows tr ! i)\<lparr>id_trace := True\<rparr>])"
  then have j: "j < length rows" by simp
  have "row_id (rows ! j) = s \<longleftrightarrow> j = i"
    using T i j s nth_eq_iff_index_eq [of "map row_id rows" j i] by (simp add: table_ok_def)
  with i j s show "(marked rows tr)[i := (marked rows tr ! i)\<lparr>id_trace := True\<rparr>] ! j =
      marked rows (insert s tr) ! j"
    by (auto simp: nth_list_update nth_marked)
qed simp

lemma marked_unknown:
  assumes "s \<notin> row_id ` set rows"
  shows "marked rows (insert s tr) = marked rows tr"
proof (rule nth_equalityI)
  fix j assume "j < length (marked rows (insert s tr))"
  then have j: "j < length rows" by simp
  with assms have "row_id (rows ! j) \<noteq> s" by (metis imageI nth_mem)
  with j show "marked rows (insert s tr) ! j = marked rows tr ! j" by (simp add: nth_marked)
qed simp

lemma trace_step:
  assumes T: "table_ok rows" and S: "state_after rows tr ocs e t u st" and s: "cstring s" "s \<notin> tr"
  shows "\<exists>rv st'. trace_identifier st s = Inr (rv, st') \<and> state_after rows (insert s tr) ocs e t u st'"
proof -
  let ?ids = "marked rows tr" and ?ns = "names_of rows" and ?ss = "strs_of rows"
  from S obtain rs where rs: "scanned st ?ids ?ns ?ss rs e (t, u)"
    "mset rs = mset (refs_of (ids_of rows) ?ns ?ss ocs)"
    by (auto simp: state_after_def)
  have quiet: "find_trace ?ids ?ns s TYPE_ALL = []" using s(2) by (simp add: find_trace_marked [OF T])
  from trace_identifier_ok [OF scanned_loaded [OF rs(1)] s(1)] quiet obtain st' where st':
    "trace_identifier st s = Inr (if find_spec ?ids ?ns s TYPE_ALL = undef_idnr then ENOENT else 0, st')"
    "loaded st' (if find_spec ?ids ?ns s TYPE_ALL = undef_idnr then ?ids
        else ?ids[symnr_of ?ns s - 1 := (?ids ! (symnr_of ?ns s - 1))\<lparr>id_trace := True\<rparr>]) ?ns ?ss"
    "refs_are st' rs" "stderr_text st' = e" "stdout_text st' = t" "errprint_text st' = u"
    using rs(1) by (auto simp: scanned_def refs_are_def)
  have "(if find_spec ?ids ?ns s TYPE_ALL = undef_idnr then ?ids
      else ?ids[symnr_of ?ns s - 1 := (?ids ! (symnr_of ?ns s - 1))\<lparr>id_trace := True\<rparr>]) =
    marked rows (insert s tr)"
  proof (cases "s \<in> set ?ns")
    case False
    then have "s \<notin> row_id ` set rows" using T by (simp add: names_of_table)
    with False show ?thesis by (simp add: find_spec_def marked_unknown)
  next
    case True
    with position_row [OF T] obtain i where i: "i < length rows" "row_id (rows ! i) = s"
      "symnr_of ?ns s = Suc i" by metis
    with T have "i < undef_idnr" by (simp add: table_ok_def)
    with i True marked_insert [OF T i(1,2), of tr] show ?thesis
      by (simp add: find_spec_def nth_marked entry_simps encode_in_all)
  qed
  with st' rs(2) show ?thesis by (auto simp: state_after_def scanned_def)
qed

lemma lookups_open:
  "lookups ''open(x)'' = [\<lparr>oc_name = ''open'', oc_call = True, oc_lnr = 0\<rparr>,
                        \<lparr>oc_name = ''x'', oc_call = False, oc_lnr = 0\<rparr>]"
  by (simp add: lookups_def code_chars_def src_start_def scan.simps scan_ident_def track_def uc_def
      to_char_def char_of_def is_identifier_start_def is_identifier_def ctype_defs include_name_def
      EOF_def)

end
