(* ===== verification/Cscript.thy ===== *)
theory Cscript
  imports Base
begin

text \<open>
  libcscript (src/libcscript, src/inc/cscript.h): the representation of strings with graphic
  characters only, the names of error numbers, the check of file names, the guarded
  allocators, the last component of a path, and the choice of the streams for messages.

  The operating system is given by parameters: whether \<open>access\<close> finds a file, what \<open>malloc\<close>,
  \<open>fstat\<close>, \<open>fopen\<close> and \<open>getenv\<close> return, the texts of \<open>strerror_r\<close>. A function that writes to a
  stream returns the text it writes. The declarations of cscript.h for functions that the
  repository does not have are left out.
\<close>

section \<open>Characters and strings (show-char.c, fshow-str.c, fshow-fname.c)\<close>

text \<open>What \<open>show_char_r\<close> leaves in a buffer of \<open>sz\<close> bytes.\<close>

definition show_char_r :: "nat \<Rightarrow> int \<Rightarrow> string outcome" where
  "show_char_r sz c =
     (if \<not> 5 \<le> sz then
        Inl (Abort (''show_char_r: buffer size is '' @ dec_nat sz @ ''.  It must be >= 5.'' @ [CHR 0x0A]))
      else if c_isprint c then Inr [to_char c]
      else if length (escape c) < sz then Inr (escape c) else Inl Undef)"

fun show_chars :: "string \<Rightarrow> string outcome" where
  "show_chars [] = Inr []"
| "show_chars (c # cs) =
     andthen (show_char_r 8 (sc c)) (\<lambda>d. andthen (show_chars cs) (\<lambda>out. Inr (d @ out)))"

definition fshow_str :: "string \<Rightarrow> string outcome" where
  "fshow_str s = show_chars s"

definition fshow_fname :: "string \<Rightarrow> string outcome" where
  "fshow_fname s = show_chars s"

fun show_array_from :: "nat \<Rightarrow> nat \<Rightarrow> string list \<Rightarrow> string outcome" where
  "show_array_from w i [] = Inr []"
| "show_array_from w i (s # ss) =
     andthen (fshow_str s) (\<lambda>t.
       andthen (show_array_from w (i + 1) ss) (\<lambda>out.
         Inr (dec_width w i @ '') ['' @ t @ '']'' @ [CHR 0x0A] @ out)))"

definition fshow_str_array :: "string list \<Rightarrow> string outcome" where
  "fshow_str_array av = show_array_from (length (dec_nat (length av))) 0 av"

datatype fh = Stdout | Stderr | File string

section \<open>Names of error numbers (decode-esym.c, decode-emsg.c, explain-err.c)\<close>

definition errno_table :: "string option list" where
  "errno_table = [
    None, Some ''EPERM'', Some ''ENOENT'', Some ''ESRCH'', Some ''EINTR'', Some ''EIO'',
    Some ''ENXIO'', Some ''E2BIG'', Some ''ENOEXEC'', Some ''EBADF'', Some ''ECHILD'',
    Some ''EAGAIN'', Some ''ENOMEM'', Some ''EACCES'', Some ''EFAULT'', Some ''ENOTBLK'',
    Some ''EBUSY'', Some ''EEXIST'', Some ''EXDEV'', Some ''ENODEV'', Some ''ENOTDIR'',
    Some ''EISDIR'', Some ''EINVAL'', Some ''ENFILE'', Some ''EMFILE'', Some ''ENOTTY'',
    Some ''ETXTBSY'', Some ''EFBIG'', Some ''ENOSPC'', Some ''ESPIPE'', Some ''EROFS'',
    Some ''EMLINK'', Some ''EPIPE'', Some ''EDOM'', Some ''ERANGE'', Some ''EDEADLK'',
    Some ''ENAMETOOLONG'', Some ''ENOLCK'', Some ''ENOSYS'', Some ''ENOTEMPTY'', Some ''ELOOP'',
    None, Some ''ENOMSG'', Some ''EIDRM'', Some ''ECHRNG'', Some ''EL2NSYNC'', Some ''EL3HLT'',
    Some ''EL3RST'', Some ''ELNRNG'', Some ''EUNATCH'', Some ''ENOCSI'', Some ''EL2HLT'',
    Some ''EBADE'', Some ''EBADR'', Some ''EXFULL'', Some ''ENOANO'', Some ''EBADRQC'',
    Some ''EBADSLT'', None, Some ''EBFONT'', Some ''ENOSTR'', Some ''ENODATA'', Some ''ETIME'',
    Some ''ENOSR'', Some ''ENONET'', Some ''ENOPKG'', Some ''EREMOTE'', Some ''ENOLINK'',
    Some ''EADV'', Some ''ESRMNT'', Some ''ECOMM'', Some ''EPROTO'', Some ''EMULTIHOP'',
    Some ''EDOTDOT'', Some ''EBADMSG'', Some ''EOVERFLOW'', Some ''ENOTUNIQ'', Some ''EBADFD'',
    Some ''EREMCHG'', Some ''ELIBACC'', Some ''ELIBBAD'', Some ''ELIBSCN'', Some ''ELIBMAX'',
    Some ''ELIBEXEC'', Some ''EILSEQ'', Some ''ERESTART'', Some ''ESTRPIPE'', Some ''EUSERS'',
    Some ''ENOTSOCK'', Some ''EDESTADDRREQ'', Some ''EMSGSIZE'', Some ''EPROTOTYPE'',
    Some ''ENOPROTOOPT'', Some ''EPROTONOSUPPORT'', Some ''ESOCKTNOSUPPORT'',
    Some ''EOPNOTSUPP'', Some ''EPFNOSUPPORT'', Some ''EAFNOSUPPORT'', Some ''EADDRINUSE'',
    Some ''EADDRNOTAVAIL'', Some ''ENETDOWN'', Some ''ENETUNREACH'', Some ''ENETRESET'',
    Some ''ECONNABORTED'', Some ''ECONNRESET'', Some ''ENOBUFS'', Some ''EISCONN'',
    Some ''ENOTCONN'', Some ''ESHUTDOWN'', Some ''ETOOMANYREFS'', Some ''ETIMEDOUT'',
    Some ''ECONNREFUSED'', Some ''EHOSTDOWN'', Some ''EHOSTUNREACH'', Some ''EALREADY'',
    Some ''EINPROGRESS'', Some ''ESTALE'', Some ''EUCLEAN'', Some ''ENOTNAM'', Some ''ENAVAIL'',
    Some ''EISNAM'', Some ''EREMOTEIO'', Some ''EDQUOT'', Some ''ENOMEDIUM'',
    Some ''EMEDIUMTYPE'', Some ''ECANCELED'', Some ''ENOKEY'', Some ''EKEYEXPIRED'',
    Some ''EKEYREVOKED'', Some ''EKEYREJECTED'', Some ''EOWNERDEAD'', Some ''ENOTRECOVERABLE'',
    Some ''ERFKILL'', Some ''EHWPOISON'']"

definition decode_esym_r :: "nat \<Rightarrow> int \<Rightarrow> string outcome" where
  "decode_esym_r bufsz err =
     (case (if 0 \<le> err \<and> nat err < length errno_table then errno_table ! nat err else None) of
        Some s \<Rightarrow> Inr s
      | None \<Rightarrow> if bufsz = 0 then Inl Undef else Inr (take (bufsz - 1) (CHR ''#'' # dec_int err)))"

text \<open>\<open>strerror_r\<close> is a function from the size of the buffer and the error number to a text.\<close>

definition decode_emsg_r :: "(nat \<Rightarrow> int \<Rightarrow> string) \<Rightarrow> nat \<Rightarrow> int \<Rightarrow> string" where
  "decode_emsg_r strerror_r sz err = strerror_r sz err"

definition fexplain_err :: "(nat \<Rightarrow> int \<Rightarrow> string) \<Rightarrow> int \<Rightarrow> string outcome" where
  "fexplain_err strerror_r err =
     (let emsgp = decode_emsg_r strerror_r 100 err
      in andthen (decode_esym_r 32 err) (\<lambda>esymp.
           Inr (''    '' @ dec_int err @ ''='' @ esymp @ ''='' @ [CHR 0x27] @ emsgp @ [CHR 0x27, CHR 0x0A])))"

text \<open>The stream, and the text for it; \<open>errprint_fh\<close> is null before \<open>set_eprint_fh\<close>.\<close>

definition explain_err :: "(nat \<Rightarrow> int \<Rightarrow> string) \<Rightarrow> int \<Rightarrow> (fh \<times> string) outcome" where
  "explain_err strerror_r err = andthen (fexplain_err strerror_r err) (\<lambda>t. Inr (Stdout, t))"

definition eexplain_err :: "(nat \<Rightarrow> int \<Rightarrow> string) \<Rightarrow> fh option \<Rightarrow> int \<Rightarrow> (fh \<times> string) outcome" where
  "eexplain_err strerror_r errprint_fh err =
     (case errprint_fh of None \<Rightarrow> Inl Undef
      | Some h \<Rightarrow> andthen (fexplain_err strerror_r err) (\<lambda>t. Inr (h, t)))"

section \<open>File names (filev-probe.c, sname.c)\<close>

text \<open>\<open>access(fname, F_OK)\<close>; the second result is the text written to \<open>errprint_fh\<close>.\<close>

definition fname_probe :: "(string \<Rightarrow> int) \<Rightarrow> string \<Rightarrow> (int \<times> string) outcome" where
  "fname_probe access fname =
     (if fname = ''-'' then Inr (0, [])
      else let rv = access fname
           in if rv \<noteq> 0 then
                andthen (fshow_fname fname) (\<lambda>s.
                  Inr (rv, [CHR 0x27] @ s @ [CHR 0x27] @ '' does not exist.'' @ [CHR 0x0A]))
              else Inr (rv, []))"

fun probe_loop :: "(string \<Rightarrow> int) \<Rightarrow> int \<Rightarrow> string list \<Rightarrow> (int \<times> string) outcome" where
  "probe_loop access any_rv [] = Inr (any_rv, [])"
| "probe_loop access any_rv (f # fs) =
     andthen (fname_probe access f) (\<lambda>(rv, msg).
       andthen (probe_loop access (if rv \<noteq> 0 then rv else any_rv) fs) (\<lambda>(res, msgs).
         Inr (res, msg @ msgs)))"

definition filev_probe :: "(string \<Rightarrow> int) \<Rightarrow> string list \<Rightarrow> (int \<times> string) outcome" where
  "filev_probe access filev = probe_loop access 0 filev"

text \<open>\<open>s\<close> and \<open>p\<close> are pointers into the path: the strings that start there.\<close>

fun sname_loop :: "string \<Rightarrow> int \<Rightarrow> string \<Rightarrow> string" where
  "sname_loop s prevc [] = s"
| "sname_loop s prevc (c # p) =
     sname_loop (if prevc = chSLASH then c # p else s) (sc c) p"

definition sname :: "string \<Rightarrow> string" where
  "sname path = sname_loop path 0 path"

section \<open>Allocation (guard-malloc.c, guard-realloc.c, guard-calloc.c)\<close>

text \<open>An allocator gives memory or the value of \<open>errno\<close>. The functions print why they give up.\<close>

definition alt_hex :: "nat \<Rightarrow> string" where
  "alt_hex n = (if n = 0 then ''0'' else ''0x'' @ hex_nat n)"

definition alloc_failed ::
  "(nat \<Rightarrow> int \<Rightarrow> string) \<Rightarrow> fh option \<Rightarrow> string \<Rightarrow> int \<Rightarrow> 'p outcome" where
  "alloc_failed strerror_r errprint_fh msg err =
     andthen (eexplain_err strerror_r errprint_fh err) (\<lambda>(h, t). Inl (Exit ENOMEM (msg @ t)))"

definition guard_malloc ::
  "(nat \<Rightarrow> int \<Rightarrow> string) \<Rightarrow> fh option \<Rightarrow> (nat \<Rightarrow> int + 'p) \<Rightarrow> nat \<Rightarrow> 'p outcome" where
  "guard_malloc strerror_r errprint_fh malloc sz =
     (case malloc sz of Inr mem \<Rightarrow> Inr mem
      | Inl err \<Rightarrow>
          alloc_failed strerror_r errprint_fh (''malloc('' @ alt_hex sz @ '') failed'' @ [CHR 0x0A]) err)"

definition guard_realloc ::
  "(nat \<Rightarrow> int \<Rightarrow> string) \<Rightarrow> fh option \<Rightarrow> ('p \<Rightarrow> nat \<Rightarrow> int + 'p) \<Rightarrow> 'p \<Rightarrow> nat \<Rightarrow> 'p outcome"
where
  "guard_realloc strerror_r errprint_fh realloc mem sz =
     (case realloc mem sz of Inr new_mem \<Rightarrow> Inr new_mem
      | Inl err \<Rightarrow>
          alloc_failed strerror_r errprint_fh (''realloc(_, '' @ alt_hex sz @ '') failed'' @ [CHR 0x0A]) err)"

definition guard_calloc ::
  "(nat \<Rightarrow> int \<Rightarrow> string) \<Rightarrow> fh option \<Rightarrow> (nat \<Rightarrow> nat \<Rightarrow> int + 'p) \<Rightarrow> nat \<Rightarrow> nat \<Rightarrow> 'p outcome"
where
  "guard_calloc strerror_r errprint_fh calloc nelem sz =
     (case calloc nelem sz of Inr mem \<Rightarrow> Inr mem
      | Inl err \<Rightarrow>
          alloc_failed strerror_r errprint_fh
            (''calloc('' @ dec_nat nelem @ '', '' @ alt_hex sz @ '') failed'' @ [CHR 0x0A]) err)"

section \<open>Streams for messages (set-print-fh.c)\<close>

text \<open>\<open>fstat\<close> gives the device and inode of a descriptor, or fails.\<close>

definition stderr_redirected :: "(int \<Rightarrow> (nat \<times> nat) option) \<Rightarrow> int" where
  "stderr_redirected fstat =
     (case fstat 1 of
        None \<Rightarrow> -1
      | Some stdout_id \<Rightarrow>
          (case fstat 2 of
             None \<Rightarrow> -1
           | Some stderr_id \<Rightarrow> if stderr_id \<noteq> stdout_id then 1 else 0))"

definition set_eprint_fh :: "(int \<Rightarrow> (nat \<times> nat) option) \<Rightarrow> fh option \<Rightarrow> fh option" where
  "set_eprint_fh fstat errprint_fh =
     (let efh = (if stderr_redirected fstat = 0 then Stdout else Stderr)
      in case errprint_fh of None \<Rightarrow> Some efh | Some _ \<Rightarrow> errprint_fh)"

text \<open>
  \<open>opens\<close> says for which names \<open>fopen(_, "w")\<close> succeeds. The blocks of the function, each of
  which returns if its file opens, are tried in order.
\<close>

definition set_debug_fh ::
  "(string \<Rightarrow> bool) \<Rightarrow> (string \<Rightarrow> string option) \<Rightarrow> string \<Rightarrow> fh option \<Rightarrow> string option \<Rightarrow> fh" where
  "set_debug_fh opens getenv program_name errprint_fh dbg_fname =
     (let try = (\<lambda>name rest. case name of None \<Rightarrow> rest
                   | Some f \<Rightarrow> if opens f then File f else rest)
      in try (case dbg_fname of None \<Rightarrow> None | Some f \<Rightarrow> if f \<noteq> [] then Some f else None)
         (try (getenv (take 31 (''DEBUG_'' @ program_name)))
         (try (getenv ''DEBUG_TTY'')
         (try (getenv ''ETTY'')
         (if opens ''/proc/fd/self/3'' then File ''/proc/fd/self/3''
          else case errprint_fh of Some h \<Rightarrow> h | None \<Rightarrow> Stderr)))))"

section \<open>Numbers\<close>

lemma of_char_digit: "d < 16 \<Longrightarrow> (of_char (digit_char d) :: nat) = (if d < 10 then 48 + d else 87 + d)"
  by (simp add: digit_char_def)

definition undec :: "string \<Rightarrow> nat" where
  "undec s = foldl (\<lambda>a c. 10 * a + (of_char c - 48)) 0 s"

lemma undec_dec: "undec (dec_nat n) = n"
proof (induction n rule: dec_nat.induct)
  case (1 n)
  show ?case
  proof (cases "n < 10")
    case True
    then show ?thesis by (simp add: dec_nat.simps [of n] undec_def of_char_digit)
  next
    case False
    then have "undec (dec_nat n) = 10 * undec (dec_nat (n div 10)) + (of_char (digit_char (n mod 10)) - 48)"
      by (simp add: dec_nat.simps [of n] undec_def)
    also have "\<dots> = n" using 1 False by (simp add: of_char_digit)
    finally show ?thesis .
  qed
qed

lemma dec_nat_inject: "dec_nat m = dec_nat n \<longleftrightarrow> m = n"
  by (metis undec_dec)

lemma dec_nat_length: "n < 10 ^ k \<Longrightarrow> 0 < k \<Longrightarrow> length (dec_nat n) \<le> k"
proof (induction k arbitrary: n)
  case 0
  then show ?case by simp
next
  case (Suc k)
  show ?case
  proof (cases "n < 10")
    case True
    then show ?thesis by (simp add: dec_nat.simps [of n])
  next
    case False
    with Suc.prems have "0 < k" by (cases k) auto
    with Suc False have "length (dec_nat (n div 10)) \<le> k" by simp
    with False show ?thesis by (simp add: dec_nat.simps [of n])
  qed
qed

lemma uc_nat: "uc c = int (of_char c)"
  by (simp add: uc_def of_nat_of_char)

lemma dec_nat_digit: "c \<in> set (dec_nat n) \<Longrightarrow> 48 \<le> uc c \<and> uc c \<le> 57"
proof (induction n rule: dec_nat.induct)
  case (1 n)
  have d: "48 \<le> uc (digit_char d) \<and> uc (digit_char d) \<le> 57" if "d < 10" for d
    using of_char_digit [of d] that by (simp add: uc_nat)
  with 1 show ?case by (cases "n < 10") (auto simp: dec_nat.simps [of n])
qed

lemma dec_nat_nonempty: "dec_nat n \<noteq> []"
  by (cases "n < 10") (simp_all add: dec_nat.simps [of n])

lemma dec_int_inject: "dec_int i = dec_int j \<longleftrightarrow> i = j"
proof -
  have neq: "dec_nat n \<noteq> CHR ''-'' # s" for n s
    using dec_nat_digit [of "CHR ''-''" n] by (auto simp: uc_def)
  show ?thesis
    using neq neq [symmetric] by (auto simp: dec_int_def dec_nat_inject)
qed

lemma dec_int_length: "\<bar>i\<bar> < 10 ^ k \<Longrightarrow> 0 < k \<Longrightarrow> length (dec_int i) \<le> k + 1"
  using dec_nat_length [of "nat i" k] dec_nat_length [of "nat (- i)" k]
  by (auto simp: dec_int_def nat_less_iff)

text \<open>The characters that are shown at all: those of seven bits, since a \<open>char\<close> is signed and
  \<open>\<dots>%02x\<close> of a negative one does not fit the buffer of eight bytes.\<close>

lemma sc_ascii: "uc c < 128 \<Longrightarrow> sc c = uc c"
  by (simp add: sc_def)

lemma digit_print: "d < 16 \<Longrightarrow> c_isprint (uc (digit_char d))"
  by (simp add: c_isprint_def uc_nat of_char_digit)

lemma digit_zero: "digit_char 0 = CHR ''0''"
  by code_simp

lemma hex_nat_small: "n < 16 \<Longrightarrow> hex_nat n = [digit_char n]"
  by (simp add: hex_nat.simps [of n])

lemma hex_nat_byte: "16 \<le> n \<Longrightarrow> n < 256 \<Longrightarrow> hex_nat n = [digit_char (n div 16), digit_char (n mod 16)]"
  by (simp add: hex_nat.simps [of n] hex_nat_small)

lemma hex02_byte:
  "0 \<le> c \<Longrightarrow> c < 256 \<Longrightarrow> hex02 c = [digit_char (nat c div 16), digit_char (nat c mod 16)]"
proof (cases "nat c < 16")
  case True
  assume "0 \<le> c" "c < 256"
  with True show ?thesis by (simp add: hex02_def hex_nat_small digit_zero)
next
  case False
  assume "0 \<le> c" "c < 256"
  with False show ?thesis by (simp add: hex02_def hex_nat_byte nat_less_iff)
qed

section \<open>Properties of the representation of strings\<close>

text \<open>A byte of seven bits as it is shown: itself if graphic, else an escape of four characters.\<close>

definition visible :: "char \<Rightarrow> string" where
  "visible c =
     (if c_isprint (uc c) then [c]
      else [CHR 0x5C, CHR ''x'', digit_char (nat (uc c) div 16), digit_char (nat (uc c) mod 16)])"

lemma show_char_byte:
  assumes "uc c < 128"
  shows "show_char_r 8 (sc c) = Inr (visible c)"
  using assms uc_range [of c] hex02_byte [of "uc c"]
  by (simp add: show_char_r_def visible_def escape_def sc_ascii)

lemma hex_nat_length: "16 ^ k \<le> n \<Longrightarrow> k < length (hex_nat n)"
proof (induction k arbitrary: n)
  case 0
  then show ?case by (simp add: hex_nat.simps [of n])
next
  case (Suc k)
  then have "16 ^ k \<le> n div 16" by (simp add: less_eq_div_iff_mult_less_eq mult.commute)
  moreover have "(16 :: nat) \<le> 16 ^ Suc k" by simp
  with Suc.prems have "\<not> n < 16" by linarith
  ultimately show ?case using Suc.IH by (simp add: hex_nat.simps [of n])
qed

lemma show_char_high:
  assumes "128 \<le> uc c"
  shows "show_char_r 8 (sc c) = Inl Undef"
proof -
  from assms uc_range [of c] have s: "sc c < 0" "- 128 \<le> sc c" by (simp_all add: sc_def)
  let ?n = "nat (sc c + 4294967296)"
  have "16 ^ 7 \<le> ?n" using s by simp
  from hex_nat_length [OF this] s have "8 \<le> length (escape (sc c))"
    by (simp add: escape_def hex02_def Let_def)
  with s show ?thesis by (simp add: show_char_r_def c_isprint_def)
qed

lemma visible_print: "uc c < 128 \<Longrightarrow> d \<in> set (visible c) \<Longrightarrow> c_isprint (uc d)"
  using uc_range [of c] digit_print [of "nat (uc c) div 16"] digit_print [of "nat (uc c) mod 16"]
  by (auto simp: visible_def c_isprint_def [of 92] c_isprint_def [of 120]
      uc_def [of "CHR 0x5C"] uc_def [of "CHR ''x''"] split: if_splits)

lemma show_chars_spec:
  "show_chars s =
     (if list_all (\<lambda>c. uc c < 128) s then Inr (concat (map visible s)) else Inl Undef)"
proof (induction s)
  case Nil
  then show ?case by simp
next
  case (Cons c s)
  then show ?case by (cases "uc c < 128") (simp_all add: show_char_byte show_char_high)
qed

text \<open>C34: \<open>fshow_str\<close> writes graphic characters only, as documented: for a string of seven-bit
  characters it writes every graphic character as it is and every other one as an escape. A
  string with any other character makes \<open>show_char_r\<close> write past the end of the buffer of
  eight bytes, because \<open>char\<close> is signed and the escape then has ten characters.\<close>

theorem fshow_str_graphic:
  "fshow_str s =
     (if list_all (\<lambda>c. uc c < 128) s then Inr (concat (map visible s)) else Inl Undef) \<and>
   list_all (\<lambda>d. c_isprint (uc d)) (concat (map visible (filter (\<lambda>c. uc c < 128) s)))"
proof
  show "list_all (\<lambda>d. c_isprint (uc d)) (concat (map visible (filter (\<lambda>c. uc c < 128) s)))"
    using visible_print by (fastforce simp: list_all_iff)
qed (simp add: fshow_str_def show_chars_spec)

section \<open>Properties of the names of error numbers\<close>

lemma nth_filter_inject:
  assumes "distinct (filter P xs)" and "i < length xs" and "j < length xs"
    and "xs ! i = xs ! j" and "P (xs ! i)"
  shows "i = j"
  using assms
proof (induction xs arbitrary: i j)
  case Nil
  then show ?case by simp
next
  case (Cons x xs)
  have "x \<notin> set xs" if "P x" using Cons.prems(1) that by simp
  with Cons show ?case
    by (cases i; cases j) (auto split: if_splits)
qed

lemma errno_names_distinct: "distinct (filter (\<lambda>x. x \<noteq> None) errno_table)"
  by code_simp

lemma errno_names_E:
  "list_all (\<lambda>x. case x of None \<Rightarrow> True | Some s \<Rightarrow> s \<noteq> [] \<and> hd s = CHR ''E'') errno_table"
  by code_simp

text \<open>The entry of an error number.\<close>

definition esym :: "int \<Rightarrow> string option" where
  "esym err = (if 0 \<le> err \<and> nat err < length errno_table then errno_table ! nat err else None)"

lemma esym_inject: "esym a = Some s \<Longrightarrow> esym b = Some s \<Longrightarrow> a = b"
  using nth_filter_inject [OF errno_names_distinct, of "nat a" "nat b"]
  by (auto simp: esym_def split: if_splits)

lemma esym_E: "esym a = Some s \<Longrightarrow> s \<noteq> CHR ''#'' # t"
  using errno_names_E by (force simp: esym_def list_all_length split: if_splits)

lemma decode_esym_32:
  assumes "- (2 ^ 31) \<le> a" and "a < 2 ^ 31"
  shows "decode_esym_r 32 a = Inr (case esym a of Some s \<Rightarrow> s | None \<Rightarrow> CHR ''#'' # dec_int a)"
proof -
  have "\<bar>a\<bar> < 10 ^ 29" using assms by simp
  from dec_int_length [OF this] have "length (dec_int a) \<le> 30" by simp
  then show ?thesis by (simp add: decode_esym_r_def esym_def split: option.split)
qed

text \<open>C31: \<open>decode_esym_r\<close>, with the buffer of 32 bytes that the program gives it, always returns
  and names each \<open>int\<close> by a text of its own, known error numbers by their symbol and the others
  by \<open>#\<close> and the number.\<close>

theorem decode_esym_unique:
  assumes "- (2 ^ 31) \<le> a" "a < 2 ^ 31" and "- (2 ^ 31) \<le> b" "b < 2 ^ 31"
  shows "(\<exists>s. decode_esym_r 32 a = Inr s) \<and> (decode_esym_r 32 a = decode_esym_r 32 b \<longleftrightarrow> a = b)"
  unfolding decode_esym_32 [OF assms(1,2)] decode_esym_32 [OF assms(3,4)]
  using esym_inject [of a _ b] esym_E [of a] esym_E [of b] esym_E [of b, THEN not_sym]
  by (auto simp: dec_int_inject split: option.splits)

theorem decode_esym_unique_witness:
  "(\<exists>s. decode_esym_r 32 2 = Inr s) \<and> decode_esym_r 32 2 \<noteq> decode_esym_r 32 (- 41)"
  using decode_esym_unique [of 2 "- 41"] by simp

section \<open>Properties of file names\<close>

lemma sc_slash: "sc c = 47 \<longleftrightarrow> c = CHR ''/''"
proof -
  have "sc c = 47 \<longleftrightarrow> uc c = uc (CHR ''/'')"
    using uc_range [of c] by (auto simp: sc_def uc_def [of "CHR ''/''"])
  then show ?thesis by simp
qed

lemma sname_loop_split:
  assumes "pre = [] \<or> last pre = CHR ''/''" and "CHR ''/'' \<notin> set (butlast cur)"
    and "prevc = (if cur = [] then 0 else sc (last cur))" and "cur = [] \<Longrightarrow> pre = []"
  shows "\<exists>pre'. pre @ cur @ p = pre' @ sname_loop (cur @ p) prevc p \<and>
    (pre' = [] \<or> last pre' = CHR ''/'') \<and>
    CHR ''/'' \<notin> set (butlast (sname_loop (cur @ p) prevc p)) \<and>
    (sname_loop (cur @ p) prevc p = [] \<longrightarrow> pre' = [])"
  using assms
proof (induction p arbitrary: pre cur prevc)
  case Nil
  then show ?case by (intro exI [of _ pre]) simp
next
  case (Cons c p)
  show ?case
  proof (cases "prevc = 47")
    case True
    with Cons.prems(3) have l: "cur \<noteq> []" "last cur = CHR ''/''"
      by (auto simp: sc_slash split: if_splits)
    from Cons.IH [of "pre @ cur" "[c]" "sc c"] l True show ?thesis by simp
  next
    case False
    with Cons.prems(3) have "cur \<noteq> [] \<Longrightarrow> last cur \<noteq> CHR ''/''" by (auto simp: sc_slash)
    then have "CHR ''/'' \<notin> set cur"
      using Cons.prems(2) append_butlast_last_id [of cur]
      by (metis Un_iff empty_iff empty_set set_append set_ConsD)
    with Cons.IH [of pre "cur @ [c]" "sc c"] Cons.prems(1) Cons.prems(4) False show ?thesis
      by (cases "cur = []") (simp_all add: butlast_append)
  qed
qed

text \<open>\<open>sname\<close> returns the last component of a path: what it cuts off is empty or ends with a
  slash, and what it returns has no slash except possibly as its last character, and is empty
  for the empty path only.\<close>

theorem sname_last_component:
  "\<exists>dir. path = dir @ sname path \<and> (dir = [] \<or> last dir = CHR ''/'') \<and>
    CHR ''/'' \<notin> set (butlast (sname path)) \<and> (sname path = [] \<longleftrightarrow> path = [])"
  using sname_loop_split [of "[]" "[]" 0 path] by (auto simp: sname_def)

text \<open>The message for a name, and the check of one name.\<close>

definition found :: "(string \<Rightarrow> int) \<Rightarrow> string \<Rightarrow> bool" where
  "found access f \<longleftrightarrow> f = ''-'' \<or> access f = 0"

definition complaint :: "(string \<Rightarrow> int) \<Rightarrow> string \<Rightarrow> string" where
  "complaint access f =
     (if found access f then []
      else [CHR 0x27] @ concat (map visible f) @ [CHR 0x27] @ '' does not exist.'' @ [CHR 0x0A])"

lemma fname_probe_ok:
  assumes "list_all (\<lambda>c. uc c < 128) f"
  shows "fname_probe access f = Inr (if found access f then 0 else access f, complaint access f)"
  using assms by (simp add: fname_probe_def found_def complaint_def fshow_fname_def show_chars_spec Let_def)

lemma probe_loop_ok:
  assumes "list_all (list_all (\<lambda>c. uc c < 128)) fs"
  shows "probe_loop access rv fs =
    Inr (foldl (\<lambda>rv f. if found access f then rv else access f) rv fs,
         concat (map (complaint access) fs))"
  using assms
proof (induction fs arbitrary: rv)
  case Nil
  then show ?case by simp
next
  case (Cons f fs)
  then show ?case by (cases "found access f") (auto simp: fname_probe_ok found_def)
qed

lemma probe_status:
  "foldl (\<lambda>rv f. if found access f then rv else access f) 0 fs = 0 \<longleftrightarrow> list_all (found access) fs"
  by (induction fs rule: rev_induct) (auto simp: found_def)

text \<open>C33: for names of seven-bit characters \<open>filev_probe\<close> reports every name, in order, that is not
  the standard input and that \<open>access\<close> does not find, once for each time it is given, and it
  returns 0 exactly when there is none.\<close>

theorem filev_probe_complete:
  assumes "list_all (list_all (\<lambda>c. uc c < 128)) filev"
  shows "\<exists>rv. filev_probe access filev = Inr (rv, concat (map (complaint access) filev)) \<and>
    (rv = 0 \<longleftrightarrow> list_all (found access) filev)"
  using probe_loop_ok [OF assms, of access 0] probe_status [of access filev]
  by (simp add: filev_probe_def)

theorem filev_probe_complete_witness:
  "\<exists>rv. filev_probe (\<lambda>f. if f = ''a.c'' then 0 else -1) [''a.c'', ''-'', ''b'', ''b''] =
     Inr (rv, concat (replicate 2 ([CHR 0x27] @ ''b'' @ [CHR 0x27] @ '' does not exist.'' @ [CHR 0x0A])))
   \<and> rv \<noteq> 0"
  using filev_probe_complete [of "[''a.c'', ''-'', ''b'', ''b'']" "\<lambda>f. if f = ''a.c'' then 0 else -1"]
  by (simp add: uc_def complaint_def found_def visible_def c_isprint_def numeral_2_eq_2)

end
