(* ===== verification/Command.thy ===== *)
theory Command
  imports Scan Includes Cscript
begin

text \<open>
  The command of src/cmd/incbot.c: the options, the choice of the id-table, the traced
  identifiers and the loop over the source files.

  The environment gives what the operating system answers: the contents of files, whether
  files exist or can be read, the real path of the program, the standard input. A call of
  \<open>exit\<close> in this file ends the run with its status and the final state, a pair; a call of
  \<open>exit\<close> or \<open>abort\<close> in the library is an \<open>Inl\<close>. The
  library and this file share the variable \<open>debug\<close> and write to the same streams: the standard
  output and \<open>errprint_fh\<close> are the \<open>stdout_text\<close> and the \<open>errprint_text\<close> of the library's state.
\<close>

section \<open>State\<close>

record env =
  fopen_r :: files
  opens_w :: "string \<Rightarrow> bool"
  access_F :: "string \<Rightarrow> int"
  access_R :: "string \<Rightarrow> int"
  real_path :: "string \<Rightarrow> string option"
  get_env :: "string \<Rightarrow> string option"
  f_stat :: "int \<Rightarrow> (nat \<times> nat) option"
  stdin_contents :: string
  write_error :: stream

record cmd =
  lib :: incbot
  verbose :: bool
  errprint_fh :: "fh option"
  dbgprint_fh :: "fh option"
  have_id_table :: bool
  trcv :: "string list"
  err_count :: nat

definition static_cmd :: cmd where
  "static_cmd =
     \<lparr>lib = static_incbot, verbose = False, errprint_fh = None, dbgprint_fh = None,
      have_id_table = False, trcv = [], err_count = 0\<rparr>"

definition eprint :: "string \<Rightarrow> cmd \<Rightarrow> cmd" where
  "eprint s st = st\<lparr>lib := eprintf s (lib st)\<rparr>"

definition print_out :: "env \<Rightarrow> string list \<Rightarrow> cmd \<Rightarrow> cmd" where
  "print_out env ws st = st\<lparr>lib := puts (write_error env) ws (lib st)\<rparr>"

section \<open>Texts\<close>

definition text_lines :: "string list \<Rightarrow> string" where
  "text_lines ls = concat (map (\<lambda>l. l @ [CHR 0x0A]) ls)"

definition usage_text :: string where
  "usage_text = text_lines [
     ''Options:'',
     ''  --help|-h|-?         Show this help message and exit'',
     ''  --version            Show version information and exit'',
     ''  --verbose|-v         verbose'',
     ''  --debug|-d           debug'',
     ''  --conf      <fname>  configuration file'',
     ''  --id-table  <fname>  load file containing descriptions of identifiers'',
     ''                       There can be any number of id-table files.'',
     ''  --trace=<symbol>     Trace usage of the given symbol'',
     ''                       There can be any number of --trace=symbol'']"

definition version_text :: string where
  "version_text = text_lines [''0.1'']"

definition copyright_text :: string where
  "copyright_text = text_lines [''Copyright (C) 2016 Guy Shaw'', ''Written by Guy Shaw'']"

definition license_text :: string where
  "license_text = text_lines [
     ''License GPLv3+: GNU GPL version 3 or later <http://gnu.org/licenses/gpl.html>.'',
     ''This is free software: you are free to change and redistribute it.'',
     ''There is NO WARRANTY, to the extent permitted by law.'']"

definition show_program_version :: "env \<Rightarrow> cmd \<Rightarrow> cmd" where
  "show_program_version env st =
     print_out env [version_text, [CHR 0x0A], copyright_text, [CHR 0x0A], license_text, [CHR 0x0A]] st"

definition usage :: "string \<Rightarrow> cmd \<Rightarrow> cmd" where
  "usage program_name st =
     eprint usage_text (eprint (''usage: '' @ program_name @ '' [ <options> ]'' @ [CHR 0x0A]) st)"

definition default_id_table :: string where
  "default_id_table = ''/home/shaw/v/psdk/dist/share/lib/incbot/id-table''"

definition is_long_option :: "string \<Rightarrow> bool" where
  "is_long_option s \<longleftrightarrow> take 2 s = ''--''"

text \<open>\<open>snprintf\<close> cuts what does not fit the buffer.\<close>

definition vischar_r :: "nat \<Rightarrow> int \<Rightarrow> string" where
  "vischar_r bufsz c = (if c_isprint c then [to_char c] else take (bufsz - 1) (escape c))"

section \<open>getopt\_long\<close>

text \<open>
  The function of the C library, on the option string and the table of long options that the
  program gives it. \<open>argv_rest\<close> are the elements of \<open>argv\<close> from \<open>optind\<close> on; while a group of
  short options is read, \<open>nextchar\<close> is what is left of the first of them. The leading \<open>+\<close> of
  the option string stops the scan at the first element that is not an option.
\<close>

record getopt =
  nextchar :: string
  argv_rest :: "string list"
  optopt :: int

definition optstring :: string where "optstring = ''hVdvc:t:T:''"

definition long_options :: "(string \<times> bool \<times> char) list" where
  "long_options =
     [(''help'', False, CHR ''h''), (''version'', False, CHR ''V''), (''verbose'', False, CHR ''v''),
      (''debug'', False, CHR ''d''), (''conf'', True, CHR ''c''), (''id-table'', True, CHR ''t''),
      (''trace'', True, CHR ''T'')]"

text \<open>Whether a short option takes an argument; \<open>None\<close> for an unknown one.\<close>

definition short_option :: "char \<Rightarrow> bool option" where
  "short_option c =
     (if c = CHR '':'' \<or> c = CHR '';'' then None
      else case dropWhile (\<lambda>d. d \<noteq> c) optstring of
             [] \<Rightarrow> None
           | _ # r \<Rightarrow> Some (r \<noteq> [] \<and> hd r = CHR '':''))"

text \<open>An exact match, or else the only option that the name abbreviates.\<close>

definition long_option :: "string \<Rightarrow> (bool \<times> char) option" where
  "long_option name =
     (case filter (\<lambda>(n, _). n = name) long_options of
        (_, o1) # _ \<Rightarrow> Some o1
      | [] \<Rightarrow>
          (case filter (\<lambda>(n, _). take (length name) n = name) long_options of
             [(_, o1)] \<Rightarrow> Some o1
           | _ \<Rightarrow> None))"

abbreviation (input) chQM :: int where "chQM \<equiv> 63"

text \<open>The result: \<open>optc\<close>, \<open>optarg\<close> and the new state.\<close>

type_synonym opt = "int \<times> string option \<times> getopt"

fun getopt_short :: "getopt \<Rightarrow> string \<Rightarrow> opt" where
  "getopt_short gs [] = (-1, None, gs)"
| "getopt_short gs (c # cs) =
     (let rest = tl (argv_rest gs);
          next = gs\<lparr>nextchar := cs, argv_rest := (if cs = [] then rest else argv_rest gs)\<rparr>
      in case short_option c of
           None \<Rightarrow> (chQM, None, next\<lparr>optopt := sc c\<rparr>)
         | Some False \<Rightarrow> (sc c, None, next)
         | Some True \<Rightarrow>
             (if cs \<noteq> [] then (sc c, Some cs, gs\<lparr>nextchar := [], argv_rest := rest\<rparr>)
              else case rest of
                     [] \<Rightarrow> (chQM, None, gs\<lparr>nextchar := [], argv_rest := [], optopt := sc c\<rparr>)
                   | a # as \<Rightarrow> (sc c, Some a, gs\<lparr>nextchar := [], argv_rest := as\<rparr>)))"

definition getopt_name :: "getopt \<Rightarrow> string \<Rightarrow> opt" where
  "getopt_name gs s =
     (let rest = tl (argv_rest gs);
          gs = gs\<lparr>nextchar := [], argv_rest := rest\<rparr>;
          name = takeWhile (\<lambda>c. c \<noteq> CHR ''='') s;
          val = drop (length name) s
      in case long_option name of
           None \<Rightarrow> (chQM, None, gs\<lparr>optopt := 0\<rparr>)
         | Some (has_arg, c) \<Rightarrow>
             (if val \<noteq> [] then
                (if has_arg then (sc c, Some (tl val), gs)
                 else (chQM, None, gs\<lparr>optopt := sc c\<rparr>))
              else if has_arg then
                (case rest of
                   [] \<Rightarrow> (chQM, None, gs\<lparr>optopt := sc c\<rparr>)
                 | a # as \<Rightarrow> (sc c, Some a, gs\<lparr>argv_rest := as\<rparr>))
              else (sc c, None, gs)))"

definition getopt_long :: "getopt \<Rightarrow> opt" where
  "getopt_long gs =
     (if nextchar gs \<noteq> [] then getopt_short gs (nextchar gs)
      else case argv_rest gs of
             [] \<Rightarrow> (-1, None, gs)
           | a # as \<Rightarrow>
               (if a = ''--'' then (-1, None, gs\<lparr>argv_rest := as\<rparr>)
                else if take 1 a \<noteq> ''-'' \<or> a = ''-'' then (-1, None, gs)
                else if take 2 a = ''--'' then getopt_name gs (drop 2 a)
                else getopt_short gs (tl a)))"

text \<open>What is left to scan; it shrinks with every option, so the loop of \<open>main\<close> ends.\<close>

definition unscanned :: "getopt \<Rightarrow> nat" where
  "unscanned gs =
     length (nextchar gs) + sum_list (map (\<lambda>a. Suc (length a))
       (if nextchar gs = [] then argv_rest gs else tl (argv_rest gs)))"

lemma getopt_short_unscanned:
  assumes "getopt_short gs s = (c, arg, gs')" and "s \<noteq> []"
  shows "unscanned gs' < length s + sum_list (map (\<lambda>a. Suc (length a)) (tl (argv_rest gs)))"
  using assms
  by (cases s) (auto simp: unscanned_def Let_def split: option.splits bool.splits if_splits list.splits)

lemma getopt_name_unscanned:
  assumes "getopt_name gs s = (c, arg, gs')"
  shows "unscanned gs' \<le> sum_list (map (\<lambda>a. Suc (length a)) (tl (argv_rest gs)))"
  using assms
  by (auto simp: getopt_name_def unscanned_def Let_def
      split: option.splits bool.splits if_splits list.splits)

lemma getopt_long_unscanned:
  assumes "getopt_long gs = (c, arg, gs')" and "c \<noteq> -1"
  shows "unscanned gs' < unscanned gs"
proof (cases "nextchar gs = []")
  case False
  with assms getopt_short_unscanned [of gs "nextchar gs"] show ?thesis
    by (auto simp: getopt_long_def unscanned_def)
next
  case True
  show ?thesis
  proof (cases "argv_rest gs")
    case Nil
    with True assms show ?thesis by (simp add: getopt_long_def)
  next
    case (Cons a as)
    have l: "length (tl a) \<le> length a" by simp
    from assms True Cons consider (short) "getopt_short gs (tl a) = (c, arg, gs')" "tl a \<noteq> []"
      | (long) "getopt_name gs (drop 2 a) = (c, arg, gs')"
      by (cases a) (auto simp: getopt_long_def split: if_splits)
    then show ?thesis
    proof cases
      case short
      from getopt_short_unscanned [OF short] True Cons l show ?thesis by (simp add: unscanned_def)
    next
      case long
      from getopt_name_unscanned [OF long] True Cons show ?thesis by (simp add: unscanned_def)
    qed
  qed
qed

section \<open>Tracing\<close>

definition NTRACE :: nat where "NTRACE = 64"

definition add_trace_identifiers :: "string \<Rightarrow> cmd \<Rightarrow> cmd outcome" where
  "add_trace_identifiers s st =
     (if length (trcv st) < NTRACE then Inr (st\<lparr>trcv := trcv st @ [s]\<rparr>) else Inl Undef)"

fun mark_loop :: "string list \<Rightarrow> incbot \<Rightarrow> incbot outcome" where
  "mark_loop [] l = Inr l"
| "mark_loop (s # ss) l = andthen (trace_identifier l s) (\<lambda>(rv, l). mark_loop ss l)"

definition mark_all_traced_identifiers :: "cmd \<Rightarrow> cmd outcome" where
  "mark_all_traced_identifiers st =
     andthen (mark_loop (trcv st) (lib st)) (\<lambda>l. Inr (st\<lparr>lib := l\<rparr>))"

section \<open>Options\<close>

definition read_config_file :: "string \<Rightarrow> cmd \<Rightarrow> int \<times> cmd" where
  "read_config_file path st =
     (2, eprint (''*** not implemented ***'' @ [CHR 0x0A])
           (eprint (''read_config_file('' @ path @ ''):'' @ [CHR 0x0A]) st))"

text \<open>The value of \<open>optarg\<close>, where it is used.\<close>

definition the_arg :: "string option \<Rightarrow> string outcome" where
  "the_arg optarg = (case optarg of None \<Rightarrow> Inl Undef | Some s \<Rightarrow> Inr s)"

text \<open>\<open>read_id_table_file\<close> on the library's part of the state.\<close>

definition load_table :: "env \<Rightarrow> string \<Rightarrow> cmd \<Rightarrow> (int \<times> cmd) outcome" where
  "load_table env fname st =
     andthen (read_id_table_file (verbose st) (lib st) fname (fopen_r env fname))
       (\<lambda>(rv, l). Inr (rv, st\<lparr>lib := l\<rparr>))"

text \<open>
  The \<open>switch\<close> on the option, with the element of \<open>argv\<close> where the option was found; \<open>Inl\<close> of
  the result for the cases that exit.
\<close>

definition handle_opt ::
  "env \<Rightarrow> string \<Rightarrow> int \<Rightarrow> string option \<Rightarrow> int \<Rightarrow> string \<Rightarrow> cmd \<Rightarrow> (int \<times> cmd + cmd) outcome" where
  "handle_opt env program_name optc optarg optop this st =
     (let optc = (if optc = chQM \<and> optop = chQM then 104 else optc)
      in if optc = 86 then Inr (Inl (0, show_program_version env st))
         else if optc = 104 then Inr (Inl (0, print_out env [usage_text] st))
         else if optc = 100 then
           (let st = st\<lparr>lib := (lib st)\<lparr>debug := True\<rparr>\<rparr>
            in Inr (Inr (st\<lparr>dbgprint_fh :=
                 Some (set_debug_fh (opens_w env) (get_env env) program_name (errprint_fh st) None)\<rparr>)))
         else if optc = 118 then Inr (Inr (st\<lparr>verbose := True\<rparr>))
         else if optc = 99 then andthen (the_arg optarg) (\<lambda>s. Inr (Inl (read_config_file s st)))
         else if optc = 116 then
           andthen (the_arg optarg) (\<lambda>s. andthen (load_table env s st) (\<lambda>(rv, st).
             Inr (Inr (st\<lparr>have_id_table := True\<rparr>))))
         else if optc = 84 then
           andthen (the_arg optarg) (\<lambda>s. andthen (add_trace_identifiers s st) (\<lambda>st. Inr (Inr st)))
         else if optc = chQM then
           (let st = eprint '': '' (eprint program_name st);
                st = (if is_long_option this
                      then eprint (''unknown long option, '' @ [CHR 0x27] @ this @ [CHR 0x27, CHR 0x0A]) st
                      else eprint (''unknown short option, '' @ [CHR 0x27] @ vischar_r 10 optop
                             @ [CHR 0x27, CHR 0x0A]) st)
            in Inr (Inr (st\<lparr>err_count := err_count st + 1\<rparr>)))
         else Inr (Inl (64, eprint (program_name @ '': INTERNAL ERROR: unknown option, '' @ [CHR 0x27]
                @ [to_char optop] @ [CHR 0x27, CHR 0x0A]) st)))"

text \<open>The loop, up to the first element that is not an option.\<close>

function opt_loop ::
  "env \<Rightarrow> string \<Rightarrow> getopt \<Rightarrow> cmd \<Rightarrow> (int \<times> cmd + getopt \<times> cmd) outcome" where
  "opt_loop env program_name gs st =
     (if 10 < err_count st then
        Inr (Inr (gs, eprint (program_name @ '': Too many option errors.'' @ [CHR 0x0A]) st))
      else
        (let (optc, optarg, gs') = getopt_long gs
         in if optc = -1 then Inr (Inr (gs', st))
            else
              andthen (handle_opt env program_name optc optarg (optopt gs') (hd (argv_rest gs)) st)
                (\<lambda>r. case r of
                   Inl stop \<Rightarrow> Inr (Inl stop)
                 | Inr st' \<Rightarrow> opt_loop env program_name gs' st')))"
  by pat_completeness auto
termination
  by (relation "measure (\<lambda>(env, name, gs, st). unscanned gs)")
    (auto dest: sym intro: getopt_long_unscanned)

declare opt_loop.simps [simp del]

section \<open>Source files\<close>

text \<open>
  The loop over the files; \<open>sin\<close> is what the standard input holds, \<open>None\<close> once
  \<open>incbot_src_file\<close> has closed it.
\<close>

fun files_loop :: "env \<Rightarrow> string option \<Rightarrow> int \<Rightarrow> incbot \<Rightarrow> string list \<Rightarrow> (int \<times> incbot) outcome" where
  "files_loop env sin rv l [] = Inr (rv, l)"
| "files_loop env sin rv l (f # fs) =
     (if f = ''-'' \<and> sin = None then Inl Undef
      else
        andthen (incbot_src_file (fopen_r env) (case sin of None \<Rightarrow> [] | Some t \<Rightarrow> t) l f) (\<lambda>(rv, l).
          if rv \<noteq> 0 then Inr (rv, l)
          else
            andthen (show_includes (write_error env) l) (\<lambda>l.
              files_loop env (if f = ''-'' then None else sin) rv l fs)))"

definition incbot_all_files :: "env \<Rightarrow> string list \<Rightarrow> cmd \<Rightarrow> (int \<times> cmd) outcome" where
  "incbot_all_files env filev st =
     andthen (filev_probe (access_F env) filev) (\<lambda>(rv, msg).
       let st = eprint msg st
       in if rv \<noteq> 0 then Inr (rv, st)
          else andthen (files_loop env (Some (stdin_contents env)) rv (lib st) filev)
                 (\<lambda>(rv, l). Inr (rv, st\<lparr>lib := l\<rparr>)))"

section \<open>main\<close>

text \<open>
  The default id-table, then the one beside the sources that the program was built from.
  \<open>Inl\<close> for an exit.
\<close>

definition try_table :: "env \<Rightarrow> string \<Rightarrow> cmd \<Rightarrow> (int \<times> cmd + cmd) outcome" where
  "try_table env fname st =
     (if access_R env fname = 0 then
        andthen (load_table env fname st) (\<lambda>(rv, st).
          if rv \<noteq> 0 then Inr (Inl (rv, st)) else Inr (Inr (st\<lparr>have_id_table := True\<rparr>)))
      else Inr (Inr st))"

definition cmd_sfx :: string where "cmd_sfx = ''/src/cmd/incbot''"
definition tbl_sfx :: string where "tbl_sfx = ''/src/table/id-table''"

definition program_table :: "env \<Rightarrow> string \<Rightarrow> cmd \<Rightarrow> (int \<times> cmd + cmd) outcome" where
  "program_table env program_path st =
     (case real_path env program_path of
        None \<Rightarrow> Inl Undef
      | Some program_realpath \<Rightarrow>
          (if length program_realpath < length cmd_sfx then Inl Undef
           else
             (let off = length program_realpath - length cmd_sfx
              in if strcmp (drop off program_realpath) cmd_sfx = 0
                 then try_table env (take off program_realpath @ tbl_sfx) st
                 else Inr (Inr st))))"

definition find_table :: "env \<Rightarrow> string \<Rightarrow> cmd \<Rightarrow> (int \<times> cmd + cmd) outcome" where
  "find_table env program_path st =
     (if have_id_table st then Inr (Inr st)
      else
        andthen (try_table env default_id_table st) (\<lambda>r. case r of
          Inl stop \<Rightarrow> Inr (Inl stop)
        | Inr st \<Rightarrow> if have_id_table st then Inr (Inr st) else program_table env program_path st))"

text \<open>What follows the options, for the arguments \<open>filev\<close> that are left.\<close>

definition run_files :: "env \<Rightarrow> string list \<Rightarrow> cmd \<Rightarrow> (int \<times> cmd) outcome" where
  "run_files env filev st =
     andthen (mark_all_traced_identifiers st) (\<lambda>st.
       if filev = [] then incbot_all_files env [''-''] st
       else
         andthen (filev_probe (access_F env) filev) (\<lambda>(rv, msg).
           let st = eprint msg st
           in if rv \<noteq> 0 then Inr (rv, st) else incbot_all_files env filev st))"

definition show_arguments :: "string list \<Rightarrow> cmd \<Rightarrow> cmd outcome" where
  "show_arguments filev st =
     (if verbose st then
        andthen (fshow_str_array filev) (\<lambda>s.
          let st = eprint s st
          in Inr (if filev \<noteq> []
                  then eprint (''non-option ARGV-elements:'' @ [CHR 0x0A]
                         @ concat (map (\<lambda>a. ''    '' @ a @ [CHR 0x0A]) filev)) st
                  else st))
      else Inr st)"

definition main_prog :: "env \<Rightarrow> string \<Rightarrow> string list \<Rightarrow> (int \<times> cmd) outcome" where
  "main_prog env program_path args =
     (let st = static_cmd\<lparr>errprint_fh := set_eprint_fh (f_stat env) None\<rparr>;
          program_name = sname program_path
      in andthen (opt_loop env program_name \<lparr>nextchar = [], argv_rest = args, optopt = chQM\<rparr> st) (\<lambda>r.
           case r of
             Inl stop \<Rightarrow> Inr stop
           | Inr (gs, st) \<Rightarrow>
               (let st = st\<lparr>verbose := verbose st \<or> debug (lib st)\<rparr>;
                    filev = argv_rest gs
                in andthen (show_arguments filev st) (\<lambda>st.
                     if err_count st \<noteq> 0 then Inr (1, usage program_name st)
                     else
                       andthen (find_table env program_path st) (\<lambda>r. case r of
                         Inl stop \<Rightarrow> Inr stop
                       | Inr st \<Rightarrow>
                           (if \<not> have_id_table st
                            then Inr (2, eprint (''Could not find identifier table.'' @ [CHR 0x0A]) st)
                            else run_files env filev st))))))"

end
