(* ===== verification/Options.thy ===== *)
theory Options
  imports Command
begin

text \<open>
  What the options of the command mean, apart from how they are spelled. A \<open>request\<close> is one
  option; \<open>command_line reqs fs args\<close> says that the arguments \<open>args\<close> spell the requests \<open>reqs\<close> and
  leave the operands \<open>fs\<close>, and \<open>obey\<close> is the effect of a list of requests. \<open>opt_loop_obeys\<close>
  shows that the loop over the options does what the requests say, whatever their spelling.
  \<open>option_line items fs args\<close> is the same for arguments with errors among the options.
\<close>

section \<open>Requests and their spellings\<close>

datatype request =
    Help | Version | Verbose | Debug
  | Config string | Table string | Trace string

fun flag_request :: "char \<Rightarrow> request option" where
  "flag_request c =
     (if c = CHR ''h'' then Some Help else if c = CHR ''V'' then Some Version
      else if c = CHR ''v'' then Some Verbose else if c = CHR ''d'' then Some Debug else None)"

fun arg_request :: "char \<Rightarrow> string \<Rightarrow> request option" where
  "arg_request c s =
     (if c = CHR ''c'' then Some (Config s) else if c = CHR ''t'' then Some (Table s)
      else if c = CHR ''T'' then Some (Trace s) else None)"

definition operand :: "string \<Rightarrow> bool" where
  "operand f \<longleftrightarrow> take 1 f \<noteq> ''-'' \<or> f = ''-''"

text \<open>
  The argument of an option is the next element of \<open>argv\<close> or follows in the same one. Flags of one
  letter may be put together. A long name may be cut short where that is not ambiguous. The
  options end at the first operand or at \<open>--\<close>.
\<close>

inductive command_line :: "request list \<Rightarrow> string list \<Rightarrow> string list \<Rightarrow> bool" where
  operands: "fs = [] \<or> operand (hd fs) \<Longrightarrow> command_line [] fs fs"
| dashes: "command_line [] fs (''--'' # fs)"
| short_flag: "flag_request c = Some r \<Longrightarrow> command_line rs fs as \<Longrightarrow>
    command_line (r # rs) fs ([CHR ''-'', c] # as)"
| cluster: "flag_request c = Some r \<Longrightarrow> w \<noteq> [] \<Longrightarrow> hd w \<noteq> CHR ''-'' \<Longrightarrow>
    command_line rs fs ((CHR ''-'' # w) # as) \<Longrightarrow> command_line (r # rs) fs ((CHR ''-'' # c # w) # as)"
| short_next: "arg_request c s = Some r \<Longrightarrow> command_line rs fs as \<Longrightarrow>
    command_line (r # rs) fs ([CHR ''-'', c] # s # as)"
| short_same: "arg_request c s = Some r \<Longrightarrow> s \<noteq> [] \<Longrightarrow> command_line rs fs as \<Longrightarrow>
    command_line (r # rs) fs ((CHR ''-'' # c # s) # as)"
| long_flag: "long_option n = Some (False, c) \<Longrightarrow> CHR ''='' \<notin> set n \<Longrightarrow> flag_request c = Some r \<Longrightarrow>
    command_line rs fs as \<Longrightarrow> command_line (r # rs) fs ((''--'' @ n) # as)"
| long_next: "long_option n = Some (True, c) \<Longrightarrow> CHR ''='' \<notin> set n \<Longrightarrow> arg_request c s = Some r \<Longrightarrow>
    command_line rs fs as \<Longrightarrow> command_line (r # rs) fs ((''--'' @ n) # s # as)"
| long_same: "long_option n = Some (True, c) \<Longrightarrow> CHR ''='' \<notin> set n \<Longrightarrow> arg_request c s = Some r \<Longrightarrow>
    command_line rs fs as \<Longrightarrow> command_line (r # rs) fs ((''--'' @ n @ ''='' @ s) # as)"

text \<open>
  An \<open>item\<close> is a request or an error, with the complaint about it. \<open>reads i as as'\<close>: the item \<open>i\<close> is
  at the beginning of the arguments \<open>as\<close>, and \<open>as'\<close> are left, for a letter of a group the group
  without it. The errors are an unknown letter, by itself or in a group, a long name that is
  unknown or an ambiguous abbreviation, an argument for a flag, and an option at the end of the
  arguments that lacks its own.
\<close>

datatype item = Asked request | Wrong string

definition quoted :: "string \<Rightarrow> string" where
  "quoted s = [CHR 0x27] @ s @ [CHR 0x27]"

definition unknown_long :: "string \<Rightarrow> string" where
  "unknown_long a = ''unknown long option, '' @ quoted a"

definition unknown_short :: "char \<Rightarrow> string" where
  "unknown_short c = ''unknown short option, '' @
     quoted (if 32 \<le> uc c \<and> uc c < 127 then [c] else take 9 (escape (sc c)))"

inductive reads :: "item \<Rightarrow> string list \<Rightarrow> string list \<Rightarrow> bool" where
  flag_letter: "flag_request c = Some r \<Longrightarrow> reads (Asked r) ([CHR ''-'', c] # as) as"
| flag_in_group: "flag_request c = Some r \<Longrightarrow> w \<noteq> [] \<Longrightarrow> hd w \<noteq> CHR ''-'' \<Longrightarrow>
    reads (Asked r) ((CHR ''-'' # c # w) # as) ((CHR ''-'' # w) # as)"
| arg_next: "arg_request c s = Some r \<Longrightarrow> reads (Asked r) ([CHR ''-'', c] # s # as) as"
| arg_same: "arg_request c s = Some r \<Longrightarrow> s \<noteq> [] \<Longrightarrow> reads (Asked r) ((CHR ''-'' # c # s) # as) as"
| flag_name: "long_option n = Some (False, c) \<Longrightarrow> CHR ''='' \<notin> set n \<Longrightarrow> flag_request c = Some r \<Longrightarrow>
    reads (Asked r) ((''--'' @ n) # as) as"
| name_next: "long_option n = Some (True, c) \<Longrightarrow> CHR ''='' \<notin> set n \<Longrightarrow> arg_request c s = Some r \<Longrightarrow>
    reads (Asked r) ((''--'' @ n) # s # as) as"
| name_same: "long_option n = Some (True, c) \<Longrightarrow> CHR ''='' \<notin> set n \<Longrightarrow> arg_request c s = Some r \<Longrightarrow>
    reads (Asked r) ((''--'' @ n @ ''='' @ s) # as) as"
| bad_letter: "short_option c = None \<Longrightarrow> c \<notin> {CHR ''-'', CHR ''?''} \<Longrightarrow>
    reads (Wrong (unknown_short c)) ([CHR ''-'', c] # as) as"
| bad_in_group: "short_option c = None \<Longrightarrow> c \<notin> {CHR ''-'', CHR ''?''} \<Longrightarrow> w \<noteq> [] \<Longrightarrow> hd w \<noteq> CHR ''-'' \<Longrightarrow>
    reads (Wrong (unknown_short c)) ((CHR ''-'' # c # w) # as) ((CHR ''-'' # w) # as)"
| letter_alone: "short_option c = Some True \<Longrightarrow> reads (Wrong (unknown_short c)) [[CHR ''-'', c]] []"
| bad_name: "long_option n = None \<Longrightarrow> CHR ''='' \<notin> set n \<Longrightarrow> v = [] \<or> hd v = CHR ''='' \<Longrightarrow> n @ v \<noteq> [] \<Longrightarrow>
    reads (Wrong (unknown_long (''--'' @ n @ v))) ((''--'' @ n @ v) # as) as"
| bad_value: "long_option n = Some (False, c) \<Longrightarrow> CHR ''='' \<notin> set n \<Longrightarrow>
    reads (Wrong (unknown_long (''--'' @ n @ ''='' @ s))) ((''--'' @ n @ ''='' @ s) # as) as"
| name_alone: "long_option n = Some (True, c) \<Longrightarrow> CHR ''='' \<notin> set n \<Longrightarrow>
    reads (Wrong (unknown_long (''--'' @ n))) [''--'' @ n] []"

inductive option_line :: "item list \<Rightarrow> string list \<Rightarrow> string list \<Rightarrow> bool" where
  no_options: "fs = [] \<or> operand (hd fs) \<Longrightarrow> option_line [] fs fs"
| end_mark: "option_line [] fs (''--'' # fs)"
| item: "reads i as as' \<Longrightarrow> option_line is fs as' \<Longrightarrow> option_line (i # is) fs as"

lemma command_line_items: "command_line rs fs as \<Longrightarrow> option_line (map Asked rs) fs as"
  by (induction rule: command_line.induct; simp only: list.map; blast intro: option_line.intros reads.intros)

section \<open>Their effect\<close>

fun obey :: "env \<Rightarrow> string \<Rightarrow> request list \<Rightarrow> cmd \<Rightarrow> (int \<times> cmd + cmd) outcome" where
  "obey env pn [] st = Inr (Inr st)"
| "obey env pn (Help # rs) st = Inr (Inl (0, print_out env [usage_text] st))"
| "obey env pn (Version # rs) st = Inr (Inl (0, show_program_version env st))"
| "obey env pn (Config s # rs) st = Inr (Inl (read_config_file s st))"
| "obey env pn (Verbose # rs) st = obey env pn rs (st\<lparr>verbose := True\<rparr>)"
| "obey env pn (Debug # rs) st =
     obey env pn rs (st\<lparr>lib := (lib st)\<lparr>debug := True\<rparr>,
       dbgprint_fh := Some (set_debug_fh (opens_w env) (get_env env) pn (errprint_fh st) None)\<rparr>)"
| "obey env pn (Table t # rs) st =
     andthen (load_table env t st) (\<lambda>(rv, st). obey env pn rs (st\<lparr>have_id_table := True\<rparr>))"
| "obey env pn (Trace s # rs) st = andthen (add_trace_identifiers s st) (obey env pn rs)"

text \<open>One request, as the \<open>switch\<close> of \<open>main\<close> has it.\<close>

lemma handle_flag:
  "flag_request c = Some r \<Longrightarrow>
   andthen (handle_opt env pn (sc c) None optop this st)
     (\<lambda>q. case q of Inl stop \<Rightarrow> Inr (Inl stop) | Inr st' \<Rightarrow> obey env pn rs st') = obey env pn (r # rs) st"
  by (auto simp: handle_opt_def sc_def uc_def Let_def split: if_splits)

lemma handle_arg:
  "arg_request c s = Some r \<Longrightarrow>
   andthen (handle_opt env pn (sc c) (Some s) optop this st)
     (\<lambda>q. case q of Inl stop \<Rightarrow> Inr (Inl stop) | Inr st' \<Rightarrow> obey env pn rs st') = obey env pn (r # rs) st"
  by (cases "load_table env s st"; cases "add_trace_identifiers s st")
    (auto simp: handle_opt_def the_arg_def sc_def uc_def Let_def split: if_splits)

lemma handle_keeps_errors:
  "flag_request c = Some r \<Longrightarrow> handle_opt env pn (sc c) None optop this st = Inr (Inr st') \<Longrightarrow>
     err_count st' = err_count st"
  "arg_request c s = Some r \<Longrightarrow> handle_opt env pn (sc c) (Some s) optop this st = Inr (Inr st') \<Longrightarrow>
     err_count st' = err_count st"
  by (auto simp: handle_opt_def the_arg_def load_table_def add_trace_identifiers_def sc_def uc_def
      Let_def andthen_Inr_iff split: if_splits)

section \<open>The loop over the options\<close>

text \<open>
  \<open>at_word gs w rest\<close>: the letters \<open>w\<close> of a group of short options are next, at the start of the
  group or inside it.
\<close>

definition at_word :: "getopt \<Rightarrow> string \<Rightarrow> string list \<Rightarrow> bool" where
  "at_word gs w rest \<longleftrightarrow> w \<noteq> [] \<and> hd w \<noteq> CHR ''-'' \<and>
     (nextchar gs = [] \<and> argv_rest gs = (CHR ''-'' # w) # rest \<or>
      nextchar gs = w \<and> (\<exists>a. argv_rest gs = a # rest \<and> \<not> is_long_option a))"

lemma getopt_word: "at_word gs w rest \<Longrightarrow> getopt_long gs = getopt_short gs w \<and> tl (argv_rest gs) = rest"
  by (cases w) (auto simp: at_word_def getopt_long_def)

lemma word_not_long: "at_word gs w rest \<Longrightarrow> \<not> is_long_option (hd (argv_rest gs))"
  by (cases w) (auto simp: at_word_def is_long_option_def)

lemma at_word_next: "at_word gs (c # w) rest \<Longrightarrow> w \<noteq> [] \<Longrightarrow> hd w \<noteq> CHR ''-'' \<Longrightarrow>
  at_word (gs\<lparr>nextchar := w\<rparr>) w rest"
  by (auto simp: at_word_def is_long_option_def)

text \<open>A reader of options is about to read the arguments \<open>as\<close>.\<close>

definition about_to_read :: "getopt \<Rightarrow> string list \<Rightarrow> bool" where
  "about_to_read gs as \<longleftrightarrow>
     nextchar gs = [] \<and> argv_rest gs = as \<or> (\<exists>w rest. as = (CHR ''-'' # w) # rest \<and> at_word gs w rest)"

lemma about_to_read_now [simp]: "about_to_read (gs\<lparr>nextchar := [], argv_rest := as\<rparr>) as"
  by (simp add: about_to_read_def)

lemma about_to_read_word:
  "about_to_read gs ((CHR ''-'' # w) # rest) \<Longrightarrow> w \<noteq> [] \<Longrightarrow> hd w \<noteq> CHR ''-'' \<Longrightarrow> at_word gs w rest"
  by (auto simp: about_to_read_def at_word_def)

lemma about_to_read_other:
  "about_to_read gs as \<Longrightarrow> as = [] \<or> operand (hd as) \<or> take 2 (hd as) = ''--'' \<Longrightarrow>
   nextchar gs = [] \<and> argv_rest gs = as"
  unfolding about_to_read_def at_word_def operand_def
  by (elim disjE exE conjE) (auto simp: neq_Nil_conv)

lemma request_options:
  "flag_request c = Some r \<Longrightarrow> short_option c = Some False \<and> c \<noteq> CHR ''-'' \<and> sc c \<noteq> -1"
  "arg_request c s = Some r \<Longrightarrow> short_option c = Some True \<and> c \<noteq> CHR ''-'' \<and> sc c \<noteq> -1"
  by (auto simp: short_option_def optstring_def sc_def uc_def split: if_splits)

text \<open>What the loop delivers when it is done with the options.\<close>

definition leave :: "getopt \<Rightarrow> string list \<Rightarrow> int \<times> cmd + cmd \<Rightarrow> (int \<times> cmd + getopt \<times> cmd) outcome" where
  "leave gs fs q =
     (case q of Inl stop \<Rightarrow> Inr (Inl stop)
      | Inr st \<Rightarrow> Inr (Inr (\<lparr>nextchar = [], argv_rest = fs, optopt = optopt gs\<rparr>, st)))"

lemma opt_loop_step:
  assumes "getopt_long gs = (sc c, arg, gs')" and "sc c \<noteq> -1" and "err_count st \<le> 10"
    and "\<And>optop this. andthen (handle_opt env pn (sc c) arg optop this st)
       (\<lambda>q. case q of Inl stop \<Rightarrow> Inr (Inl stop) | Inr st' \<Rightarrow> obey env pn rs st') = obey env pn (r # rs) st"
    and "\<And>optop this st'. handle_opt env pn (sc c) arg optop this st = Inr (Inr st') \<Longrightarrow>
       err_count st' = err_count st"
    and "\<And>st'. err_count st' \<le> 10 \<Longrightarrow>
       opt_loop env pn gs' st' = andthen (obey env pn rs st') (leave gs fs)"
  shows "opt_loop env pn gs st = andthen (obey env pn (r # rs) st) (leave gs fs)"
proof -
  let ?h = "handle_opt env pn (sc c) arg (optopt gs') (hd (argv_rest gs)) st"
  have "opt_loop env pn gs st = andthen ?h (\<lambda>r. case r of Inl stop \<Rightarrow> Inr (Inl stop)
      | Inr st' \<Rightarrow> opt_loop env pn gs' st')"
    using assms(1-3) by (subst opt_loop.simps) simp
  also have "\<dots> = andthen (andthen ?h (\<lambda>q. case q of Inl stop \<Rightarrow> Inr (Inl stop)
      | Inr st' \<Rightarrow> obey env pn rs st')) (leave gs fs)"
  proof (cases ?h)
    case (Inr q)
    then show ?thesis
    proof (cases q)
      case (Inr st')
      with \<open>?h = Inr q\<close> have "err_count st' \<le> 10" using assms(3,5) by simp
      with assms(6) \<open>?h = Inr q\<close> Inr show ?thesis by simp
    qed (simp add: leave_def)
  qed simp
  finally show ?thesis unfolding assms(4) .
qed

lemma leave_same: "optopt gs' = optopt gs \<Longrightarrow> leave gs' fs = leave gs fs"
  by (rule ext) (simp add: leave_def cong: sum.case_cong)

lemma opt_loop_flag:
  assumes "flag_request c = Some r" and "getopt_long gs = (sc c, None, gs')" and "optopt gs' = optopt gs"
    and "err_count st \<le> 10"
    and "\<And>st'. err_count st' \<le> 10 \<Longrightarrow>
       opt_loop env pn gs' st' = andthen (obey env pn rs st') (leave gs' fs)"
  shows "opt_loop env pn gs st = andthen (obey env pn (r # rs) st) (leave gs fs)"
proof -
  have "sc c \<noteq> -1" using request_options(1) [OF assms(1)] by simp
  from opt_loop_step [OF assms(2) this assms(4) handle_flag [OF assms(1)] handle_keeps_errors(1) [OF assms(1)]
      assms(5) [unfolded leave_same [OF assms(3)]]]
  show ?thesis .
qed

lemma opt_loop_arg:
  assumes "arg_request c s = Some r" and "getopt_long gs = (sc c, Some s, gs')" and "optopt gs' = optopt gs"
    and "err_count st \<le> 10"
    and "\<And>st'. err_count st' \<le> 10 \<Longrightarrow>
       opt_loop env pn gs' st' = andthen (obey env pn rs st') (leave gs' fs)"
  shows "opt_loop env pn gs st = andthen (obey env pn (r # rs) st) (leave gs fs)"
proof -
  have "sc c \<noteq> -1" using request_options(2) [OF assms(1)] by simp
  from opt_loop_step [OF assms(2) this assms(4) handle_arg [OF assms(1)] handle_keeps_errors(2) [OF assms(1)]
      assms(5) [unfolded leave_same [OF assms(3)]]]
  show ?thesis .
qed

lemma long_option_char:
  assumes "long_option n = Some (b, c)"
  shows "c \<noteq> CHR ''?''"
proof -
  have table: "(a, b, c) \<in> set long_options \<Longrightarrow> c \<noteq> CHR ''?''" for a by (auto simp: long_options_def)
  have member: "filter P long_options = x # xs \<Longrightarrow> x \<in> set long_options" for P x xs
    by (metis filter_is_subset list.set_intros(1) subsetD)
  show ?thesis
  proof (cases "filter (\<lambda>(m, _). m = n) long_options")
    case (Cons x xs)
    with assms have "x = (fst x, b, c)" by (cases x) (simp add: long_option_def)
    with member [OF Cons] table [of "fst x"] show ?thesis by metis
  next
    case Nil
    with assms obtain a where "filter (\<lambda>(m, _). take (length n) m = n) long_options = [(a, b, c)]"
      by (auto simp: long_option_def split: list.splits)
    from member [OF this] table [of a] show ?thesis by blast
  qed
qed

lemma long_names: "long_option [] = None"
  by (simp add: long_option_def long_options_def)

lemma name_before: "CHR ''='' \<notin> set n \<Longrightarrow> takeWhile (\<lambda>c. c \<noteq> CHR ''='') (n @ v) =
    n @ takeWhile (\<lambda>c. c \<noteq> CHR ''='') v"
  by (rule takeWhile_append2) auto

lemma getopt_long_name:
  assumes "about_to_read gs ((''--'' @ n @ v) # as)" and "long_option n = Some o1" and "CHR ''='' \<notin> set n"
    and "v = [] \<or> hd v = CHR ''=''"
  shows "getopt_long gs = (let rest = as; gs = gs\<lparr>nextchar := [], argv_rest := as\<rparr> in
    (case o1 of (has_arg, c) \<Rightarrow>
      if v \<noteq> [] then (if has_arg then (sc c, Some (tl v), gs) else (chQM, None, gs\<lparr>optopt := sc c\<rparr>))
      else if has_arg then
        (case rest of [] \<Rightarrow> (chQM, None, gs\<lparr>optopt := sc c\<rparr>)
         | a # as \<Rightarrow> (sc c, Some a, gs\<lparr>argv_rest := as\<rparr>))
      else (sc c, None, gs)))"
proof -
  have ne: "n \<noteq> []" using assms(2) long_names by auto
  moreover have "takeWhile (\<lambda>c. c \<noteq> CHR ''='') (n @ v) = n"
    using name_before [OF assms(3), of v] assms(4) by (cases v) simp_all
  moreover have "nextchar gs = []" "argv_rest gs = (''--'' @ n @ v) # as"
    using about_to_read_other [OF assms(1)] by simp_all
  ultimately show ?thesis
    using assms(2) by (simp add: getopt_long_def getopt_name_def)
qed

text \<open>Elements of \<open>argv\<close> are only consumed.\<close>

lemma getopt_short_rest:
  "getopt_short gs w = (c, arg, gs') \<Longrightarrow> set (argv_rest gs') \<subseteq> set (argv_rest gs)"
  by (cases w; cases "argv_rest gs")
    (auto simp: Let_def split: option.splits bool.splits if_splits list.splits)

lemma getopt_name_rest:
  "getopt_name gs n = (c, arg, gs') \<Longrightarrow> set (argv_rest gs') \<subseteq> set (argv_rest gs)"
  by (cases "argv_rest gs")
    (auto simp: getopt_name_def Let_def split: option.splits bool.splits if_splits list.splits)

lemma getopt_long_rest:
  assumes "getopt_long gs = (c, arg, gs')"
  shows "set (argv_rest gs') \<subseteq> set (argv_rest gs)"
  using assms getopt_short_rest [of gs] getopt_name_rest [of gs]
  by (auto simp: getopt_long_def split: if_splits list.splits)

text \<open>The complaint of \<open>main\<close>, from the element of \<open>argv\<close> and \<open>optopt\<close>.\<close>

definition complaint_about :: "string \<Rightarrow> int \<Rightarrow> string" where
  "complaint_about this opt =
     (if is_long_option this then unknown_long this
      else ''unknown short option, '' @ quoted (vischar_r 10 opt))"

lemma handle_wrong:
  "opt \<noteq> chQM \<Longrightarrow> handle_opt env pn chQM arg opt this st =
   Inr (Inr ((eprint (pn @ '': '' @ complaint_about this opt @ [CHR 0x0A]) st)\<lparr>err_count := err_count st + 1\<rparr>))"
  by (simp add: handle_opt_def complaint_about_def unknown_long_def quoted_def eprint_def Let_def)

lemma sc_not_chQM: "c \<noteq> CHR ''?'' \<Longrightarrow> sc c \<noteq> chQM"
  using uc_range [of c] uc_inject [of c "CHR ''?''"]
  by (auto simp: sc_def uc_def [of "CHR ''?''"] split: if_splits)

lemma short_complaint:
  "\<not> is_long_option a \<Longrightarrow> complaint_about a (sc c) = unknown_short c"
  using uc_range [of c]
  by (auto simp: complaint_about_def unknown_short_def vischar_r_def c_isprint_def sc_def to_char_def uc_def)

text \<open>\<open>getopt_long\<close> delivers the items one by one.\<close>

fun delivers :: "getopt \<Rightarrow> item \<Rightarrow> opt \<Rightarrow> bool" where
  "delivers gs (Asked r) (c, arg, gs') \<longleftrightarrow> optopt gs' = optopt gs \<and>
     (\<exists>d. c = sc d \<and> (case arg of None \<Rightarrow> flag_request d = Some r | Some s \<Rightarrow> arg_request d s = Some r))"
| "delivers gs (Wrong m) (c, arg, gs') \<longleftrightarrow> c = chQM \<and> optopt gs' \<noteq> chQM \<and>
     complaint_about (hd (argv_rest gs)) (optopt gs') = m"

declare delivers.simps [simp del]

lemma delivers_asked:
  "flag_request c = Some r \<Longrightarrow> optopt gs' = optopt gs \<Longrightarrow> delivers gs (Asked r) (sc c, None, gs')"
  "arg_request c s = Some r \<Longrightarrow> optopt gs' = optopt gs \<Longrightarrow> delivers gs (Asked r) (sc c, Some s, gs')"
  unfolding delivers.simps option.case by blast+

lemma delivers_wrong:
  "optopt gs' \<noteq> chQM \<Longrightarrow> complaint_about (hd (argv_rest gs)) (optopt gs') = m \<Longrightarrow>
   delivers gs (Wrong m) (chQM, None, gs')"
  by (simp add: delivers.simps)

lemma delivered:
  "getopt_long gs = (c, arg, gs') \<Longrightarrow> about_to_read gs' as' \<Longrightarrow> delivers gs i (c, arg, gs') \<Longrightarrow>
   \<exists>c arg gs'. getopt_long gs = (c, arg, gs') \<and> about_to_read gs' as' \<and> delivers gs i (c, arg, gs')"
  by blast

lemma about_to_read_after [simp]: "about_to_read (gs\<lparr>nextchar := [], argv_rest := as, optopt := x\<rparr>) as"
  by (simp add: about_to_read_def)

lemma group_next:
  "at_word gs (c # w) as \<Longrightarrow> w \<noteq> [] \<Longrightarrow> hd w \<noteq> CHR ''-'' \<Longrightarrow>
   about_to_read (gs\<lparr>nextchar := w\<rparr>) ((CHR ''-'' # w) # as) \<and>
   about_to_read (gs\<lparr>nextchar := w, optopt := x\<rparr>) ((CHR ''-'' # w) # as)"
  using at_word_next [of gs c w as] by (auto simp: about_to_read_def at_word_def)

lemma reads_getopt:
  assumes "reads i as as'" and "about_to_read gs as"
  shows "\<exists>c arg gs'. getopt_long gs = (c, arg, gs') \<and> about_to_read gs' as' \<and> delivers gs i (c, arg, gs')"
  using assms
proof (induction rule: reads.induct)
  case (flag_letter c r as)
  note o = request_options(1) [OF flag_letter.hyps]
  from about_to_read_word [OF flag_letter.prems] o have "at_word gs [c] as" by simp
  from getopt_word [OF this] o have "getopt_long gs = (sc c, None, gs\<lparr>nextchar := [], argv_rest := as\<rparr>)"
    by simp
  from delivered [OF this _ delivers_asked(1) [OF flag_letter.hyps]] show ?case by simp
next
  case (flag_in_group c r w as)
  note o = request_options(1) [OF flag_in_group.hyps(1)]
  from about_to_read_word [OF flag_in_group.prems] o have w: "at_word gs (c # w) as" by simp
  from getopt_word [OF this] o flag_in_group.hyps(2) have "getopt_long gs = (sc c, None, gs\<lparr>nextchar := w\<rparr>)"
    by (cases gs) simp
  from delivered [OF this _ delivers_asked(1) [OF flag_in_group.hyps(1)]] group_next [OF w flag_in_group.hyps(2,3)]
  show ?case by simp
next
  case (arg_next c s r as)
  note o = request_options(2) [OF arg_next.hyps]
  from about_to_read_word [OF arg_next.prems] o have "at_word gs [c] (s # as)" by simp
  from getopt_word [OF this] o have "getopt_long gs = (sc c, Some s, gs\<lparr>nextchar := [], argv_rest := as\<rparr>)"
    by simp
  from delivered [OF this _ delivers_asked(2) [OF arg_next.hyps]] show ?case by simp
next
  case (arg_same c s r as)
  note o = request_options(2) [OF arg_same.hyps(1)]
  from about_to_read_word [OF arg_same.prems] o have "at_word gs (c # s) as" by simp
  from getopt_word [OF this] o arg_same.hyps(2) have
    "getopt_long gs = (sc c, Some s, gs\<lparr>nextchar := [], argv_rest := as\<rparr>)" by simp
  from delivered [OF this _ delivers_asked(2) [OF arg_same.hyps(1)]] show ?case by simp
next
  case (flag_name n c r as)
  from getopt_long_name [of gs n "[]" as, OF _ flag_name.hyps(1,2)] flag_name.prems have
    "getopt_long gs = (sc c, None, gs\<lparr>nextchar := [], argv_rest := as\<rparr>)" by simp
  from delivered [OF this _ delivers_asked(1) [OF flag_name.hyps(3)]] show ?case by simp
next
  case (name_next n c s r as)
  from getopt_long_name [of gs n "[]" "s # as", OF _ name_next.hyps(1,2)] name_next.prems have
    "getopt_long gs = (sc c, Some s, gs\<lparr>nextchar := [], argv_rest := as\<rparr>)" by simp
  from delivered [OF this _ delivers_asked(2) [OF name_next.hyps(3)]] show ?case by simp
next
  case (name_same n c s r as)
  from getopt_long_name [of gs n "''='' @ s" as, OF _ name_same.hyps(1,2)] name_same.prems have
    "getopt_long gs = (sc c, Some s, gs\<lparr>nextchar := [], argv_rest := as\<rparr>)" by simp
  from delivered [OF this _ delivers_asked(2) [OF name_same.hyps(3)]] show ?case by simp
next
  case (bad_letter c as)
  from about_to_read_word [OF bad_letter.prems] bad_letter.hyps(2) have w: "at_word gs [c] as" by simp
  from getopt_word [OF w] bad_letter.hyps(1) have
    "getopt_long gs = (chQM, None, gs\<lparr>nextchar := [], argv_rest := as, optopt := sc c\<rparr>)" by simp
  from delivered [OF this _ delivers_wrong] sc_not_chQM [of c] short_complaint [OF word_not_long [OF w]]
    bad_letter.hyps(2)
  show ?case by simp
next
  case (bad_in_group c w as)
  from about_to_read_word [OF bad_in_group.prems] bad_in_group.hyps(2) have w: "at_word gs (c # w) as" by simp
  from getopt_word [OF w] bad_in_group.hyps(1,3) have
    "getopt_long gs = (chQM, None, gs\<lparr>nextchar := w, optopt := sc c\<rparr>)" by (cases gs) simp
  from delivered [OF this _ delivers_wrong] sc_not_chQM [of c] short_complaint [OF word_not_long [OF w]]
    group_next [OF w bad_in_group.hyps(3,4), of "sc c"] bad_in_group.hyps(2)
  show ?case by simp
next
  case (letter_alone c)
  then have c: "c \<noteq> CHR ''-''" "c \<noteq> CHR ''?''" by (auto simp: short_option_def optstring_def)
  with about_to_read_word [OF letter_alone.prems] have w: "at_word gs [c] []" by simp
  from getopt_word [OF w] letter_alone.hyps have
    "getopt_long gs = (chQM, None, gs\<lparr>nextchar := [], argv_rest := [], optopt := sc c\<rparr>)" by simp
  from delivered [OF this _ delivers_wrong] sc_not_chQM [OF c(2)] short_complaint [OF word_not_long [OF w]]
  show ?case by simp
next
  case (bad_name n v as)
  have g: "nextchar gs = []" "argv_rest gs = (''--'' @ n @ v) # as"
    using about_to_read_other [OF bad_name.prems] by simp_all
  have "takeWhile (\<lambda>c. c \<noteq> CHR ''='') (n @ v) = n"
    using name_before [OF bad_name.hyps(2), of v] bad_name.hyps(3) by (cases v) simp_all
  with g bad_name.hyps(1,4) have
    "getopt_long gs = (chQM, None, gs\<lparr>nextchar := [], argv_rest := as, optopt := 0\<rparr>)"
    by (simp add: getopt_long_def getopt_name_def Let_def)
  from delivered [OF this _ delivers_wrong] g(2) show ?case
    by (simp add: complaint_about_def is_long_option_def)
next
  case (bad_value n c s as)
  have r: "argv_rest gs = (''--'' @ n @ ''='' @ s) # as" "sc c \<noteq> chQM"
    using about_to_read_other [OF bad_value.prems] sc_not_chQM [OF long_option_char [OF bad_value.hyps(1)]]
    by simp_all
  from getopt_long_name [of gs n "''='' @ s" as, OF _ bad_value.hyps(1,2)] bad_value.prems have g:
    "getopt_long gs = (chQM, None, gs\<lparr>nextchar := [], argv_rest := as, optopt := sc c\<rparr>)" by simp
  from delivered [OF g _ delivers_wrong] r show ?case
    by (simp add: complaint_about_def is_long_option_def)
next
  case (name_alone n c)
  have r: "argv_rest gs = [''--'' @ n]" "sc c \<noteq> chQM"
    using about_to_read_other [OF name_alone.prems] sc_not_chQM [OF long_option_char [OF name_alone.hyps(1)]]
    by simp_all
  from getopt_long_name [of gs n "[]" "[]", OF _ name_alone.hyps(1,2)] name_alone.prems have g:
    "getopt_long gs = (chQM, None, gs\<lparr>nextchar := [], argv_rest := [], optopt := sc c\<rparr>)" by simp
  from delivered [OF g _ delivers_wrong] r show ?case
    by (simp add: complaint_about_def is_long_option_def)
qed

text \<open>At the end of the options \<open>getopt_long\<close> returns -1 and leaves the operands.\<close>

lemma no_more_options:
  assumes "about_to_read gs as" and "(fs = [] \<or> operand (hd fs)) \<and> as = fs \<or> as = ''--'' # fs"
  shows "getopt_long gs = (-1, None, \<lparr>nextchar = [], argv_rest = fs, optopt = optopt gs\<rparr>)"
proof -
  from about_to_read_other [OF assms(1)] assms(2) have "nextchar gs = []" "argv_rest gs = as" by auto
  then show ?thesis using assms(2)
    by (cases gs) (auto simp: getopt_long_def operand_def split: list.splits)
qed

text \<open>The loop obeys the requests, however they are spelled.\<close>

lemma opt_loop_asked:
  assumes "option_line is fs as" and "is = map Asked rs" and "about_to_read gs as" and "err_count st \<le> 10"
  shows "opt_loop env pn gs st = andthen (obey env pn rs st) (leave gs fs)"
  using assms
proof (induction arbitrary: rs gs st rule: option_line.induct)
  case (no_options fs)
  then show ?case using no_more_options [of gs fs fs]
    by (simp add: opt_loop.simps [of env pn gs st] leave_def)
next
  case (end_mark fs)
  then show ?case using no_more_options [of gs "''--'' # fs" fs]
    by (simp add: opt_loop.simps [of env pn gs st] leave_def)
next
  case (item i as as' "is" fs)
  then obtain r rs' where r: "i = Asked r" "is = map Asked rs'" "rs = r # rs'" by (cases rs) auto
  from reads_getopt [OF item.hyps(1) item.prems(2)] obtain d arg gs' where
    g: "getopt_long gs = (sc d, arg, gs')" "about_to_read gs' as'" "optopt gs' = optopt gs"
    and d: "case arg of None \<Rightarrow> flag_request d = Some r | Some s \<Rightarrow> arg_request d s = Some r"
    unfolding r(1) delivers.simps by blast
  note next_items = item.IH [OF r(2) g(2)]
  show ?case
  proof (cases arg)
    case None
    with d opt_loop_flag [OF _ _ g(3) item.prems(3) next_items] g(1) show ?thesis unfolding r(3) by simp
  next
    case (Some s)
    with d opt_loop_arg [OF _ _ g(3) item.prems(3) next_items] g(1) show ?thesis unfolding r(3) by simp
  qed
qed

lemma opt_loop_obeys:
  assumes "command_line rs fs as" and "about_to_read gs as" and "err_count st \<le> 10"
  shows "opt_loop env pn gs st = andthen (obey env pn rs st) (leave gs fs)"
  by (rule opt_loop_asked [OF command_line_items [OF assms(1)] refl assms(2,3)])

text \<open>One turn of the loop for an error.\<close>

lemma opt_loop_wrong:
  assumes "reads (Wrong m) as as'" and "about_to_read gs as" and "err_count st \<le> 10"
  shows "\<exists>gs'. about_to_read gs' as' \<and> set (argv_rest gs') \<subseteq> set (argv_rest gs) \<and>
    opt_loop env pn gs st = opt_loop env pn gs'
      ((eprint (pn @ '': '' @ m @ [CHR 0x0A]) st)\<lparr>err_count := err_count st + 1\<rparr>)"
proof -
  from reads_getopt [OF assms(1,2)] obtain arg gs' where
    "getopt_long gs = (chQM, arg, gs')" "about_to_read gs' as'" "optopt gs' \<noteq> chQM"
    "complaint_about (hd (argv_rest gs)) (optopt gs') = m"
    unfolding delivers.simps by blast
  with assms(3) getopt_long_rest [of gs chQM arg gs'] show ?thesis
    by (intro exI [of _ gs']) (simp add: opt_loop.simps [of env pn gs st] handle_wrong)
qed

text \<open>One turn for a request that does not end the run.\<close>

lemma opt_loop_request:
  assumes "reads (Asked r) as as'" and "about_to_read gs as" and "err_count st \<le> 10"
    and "obey env pn [r] st = Inr (Inr st')"
  shows "\<exists>gs'. about_to_read gs' as' \<and> set (argv_rest gs') \<subseteq> set (argv_rest gs) \<and>
    opt_loop env pn gs st = opt_loop env pn gs' st'"
proof -
  from reads_getopt [OF assms(1,2)] obtain d arg gs' where
    g: "getopt_long gs = (sc d, arg, gs')" "about_to_read gs' as'"
    and d: "case arg of None \<Rightarrow> flag_request d = Some r | Some s \<Rightarrow> arg_request d s = Some r"
    unfolding delivers.simps by blast
  let ?h = "handle_opt env pn (sc d) arg (optopt gs') (hd (argv_rest gs)) st"
  have "andthen ?h (\<lambda>q. case q of Inl stop \<Rightarrow> Inr (Inl stop) | Inr st' \<Rightarrow> obey env pn [] st') =
      obey env pn [r] st"
    using d handle_flag [of d r env pn] handle_arg [of d _ r env pn]
    by (cases arg) (simp_all only: option.case)
  with assms(4) have "?h = Inr (Inr st')" by (cases ?h) (auto split: sum.splits)
  moreover have "sc d \<noteq> -1" using d request_options [of d] by (cases arg) auto
  ultimately show ?thesis using g assms(3) getopt_long_rest [OF g(1)]
    by (intro exI [of _ gs']) (simp add: opt_loop.simps [of env pn gs st])
qed

end
