(* ===== verification/CommandSpec.thy ===== *)
theory CommandSpec
  imports Pipeline Options
begin

text \<open>
  What a run of the command does: the requests that its options spell, with any number of tables,
  the probe of the file names, and the loop over the files, put together from the facts of the
  library.
\<close>

section \<open>Files\<close>

text \<open>The files of a run, and their contents.\<close>

definition sources :: "string list \<Rightarrow> string list" where
  "sources fs = (if fs = [] then [''-''] else fs)"

definition source_text :: "env \<Rightarrow> string \<Rightarrow> string" where
  "source_text env f =
     (if f = ''-'' then stdin_contents env
      else case fopen_r env f of Inr x \<Rightarrow> x | Inl _ \<Rightarrow> [])"

definition readable :: "env \<Rightarrow> string \<Rightarrow> bool" where
  "readable env f \<longleftrightarrow> f = ''-'' \<or> (\<exists>x. fopen_r env f = Inr x)"

abbreviation seven_bit :: "string \<Rightarrow> bool" where
  "seven_bit s \<equiv> list_all (\<lambda>c. uc c < 128) s"

text \<open>What is printed for a list of sources: after each, the includes for all so far.\<close>

fun outputs :: "string list list \<Rightarrow> occurrence list \<Rightarrow> string list \<Rightarrow> string" where
  "outputs rows ocs [] = []"
| "outputs rows ocs (x # xs) =
     listing (row_comment rows) (provided rows (ocs @ lookups x)) @ outputs rows (ocs @ lookups x) xs"

lemma files_loop_ok:
  assumes T: "table_ok rows" and "state_after rows tr ocs e t u l" and env: "write_error env = no_error"
    and "\<forall>f \<in> set fs. readable env f \<and> fits (source_text env f)"
    and "sin = Some (stdin_contents env) \<and> count_list fs ''-'' \<le> 1 \<or> ''-'' \<notin> set fs"
  shows "\<exists>l'. files_loop env sin 0 l fs = Inr (0, l') \<and>
    state_after rows tr (ocs @ concat (map (\<lambda>f. lookups (source_text env f)) fs))
      (e @ trace_log rows tr (concat (map (\<lambda>f. lookups (source_text env f)) fs)))
      (t @ outputs rows ocs (map (source_text env) fs)) u l'"
  using assms(2,4,5)
proof (induction fs arbitrary: ocs e t l sin)
  case Nil
  then show ?case by (simp add: trace_log_def)
next
  case (Cons f fs)
  let ?x = "source_text env f"
  have "fits ?x" using Cons.prems(2) by simp
  from file_step [OF T Cons.prems(1) this] obtain st2 st3 where
    st: "incbot_src_stream l ?x f = Inr (0, st2)" "show_includes no_error st2 = Inr st3"
    "state_after rows tr (ocs @ lookups ?x) (e @ trace_log rows tr (lookups ?x))
      (t @ listing (row_comment rows) (provided rows (ocs @ lookups ?x))) u st3"
    by blast
  have src: "incbot_src_file (fopen_r env) (case sin of None \<Rightarrow> [] | Some t \<Rightarrow> t) l f = Inr (0, st2)"
    using Cons.prems(2,3) st(1) by (auto simp: incbot_src_file_def source_text_def readable_def)
  let ?sin = "if f = ''-'' then None else sin"
  have "?sin = Some (stdin_contents env) \<and> count_list fs ''-'' \<le> 1 \<or> ''-'' \<notin> set fs"
    using Cons.prems(3) by (auto simp: count_list_0_iff split: if_splits)
  from Cons.IH [OF st(3) _ this] Cons.prems(2) obtain l' where
    l': "files_loop env ?sin 0 st3 fs = Inr (0, l')"
    "state_after rows tr ((ocs @ lookups ?x) @ concat (map (\<lambda>f. lookups (source_text env f)) fs))
      ((e @ trace_log rows tr (lookups ?x)) @
         trace_log rows tr (concat (map (\<lambda>f. lookups (source_text env f)) fs)))
      ((t @ listing (row_comment rows) (provided rows (ocs @ lookups ?x))) @
        outputs rows (ocs @ lookups ?x) (map (source_text env) fs)) u l'"
    by auto
  have "\<not> (f = ''-'' \<and> sin = None)" using Cons.prems(3) by auto
  with src st(2) l' env show ?case by (simp add: trace_log_def)
qed

lemma probe_found:
  assumes "\<forall>f \<in> set fs. seven_bit f \<and> found (access_F env) f"
  shows "filev_probe (access_F env) fs = Inr (0, [])"
proof -
  have "list_all seven_bit fs" and f: "list_all (found (access_F env)) fs"
    using assms by (simp_all add: list_all_iff)
  from probe_loop_ok [OF this(1), of "access_F env" 0] probe_status [of "access_F env" fs] f
  show ?thesis
    by (auto simp: filev_probe_def complaint_def list_all_iff concat_eq_Nil_conv)
qed

lemma eprint_nothing [simp]: "eprint [] st = st"
  by (simp add: eprint_def)

text \<open>The identifiers looked up in all files of a run.\<close>

definition all_lookups :: "env \<Rightarrow> string list \<Rightarrow> occurrence list" where
  "all_lookups env fs = concat (map (\<lambda>f. lookups (source_text env f)) (sources fs))"

lemma all_files_ok:
  assumes T: "table_ok rows" and "state_after rows tr [] e [] u (lib st)" and "write_error env = no_error"
    and "\<forall>f \<in> set fs. seven_bit f \<and> found (access_F env) f \<and> readable env f \<and> fits (source_text env f)"
    and "count_list fs ''-'' \<le> 1"
  shows "\<exists>l. incbot_all_files env fs st = Inr (0, st\<lparr>lib := l\<rparr>) \<and>
    stdout_text l = outputs rows [] (map (source_text env) fs) \<and>
    stderr_text l = e @ trace_log rows tr (concat (map (\<lambda>f. lookups (source_text env f)) fs)) \<and>
    errprint_text l = u"
proof -
  from files_loop_ok [OF T assms(2,3), of fs "Some (stdin_contents env)"] assms(4,5) obtain l' where
    "files_loop env (Some (stdin_contents env)) 0 (lib st) fs = Inr (0, l')"
    "stdout_text l' = outputs rows [] (map (source_text env) fs)"
    "stderr_text l' = e @ trace_log rows tr (concat (map (\<lambda>f. lookups (source_text env f)) fs))"
    "errprint_text l' = u"
    by (auto simp: state_after_def scanned_def)
  with probe_found [of fs env] assms(4) show ?thesis by (auto simp: incbot_all_files_def)
qed

lemma mark_loop_ok:
  assumes T: "table_ok rows" and "state_after rows tr ocs e t u l" and "list_all cstring ss"
    and "distinct ss" and "set ss \<inter> tr = {}"
  shows "\<exists>l'. mark_loop ss l = Inr l' \<and> state_after rows (tr \<union> set ss) ocs e t u l'"
  using assms(2-)
proof (induction ss arbitrary: tr l)
  case Nil
  then show ?case by simp
next
  case (Cons s ss)
  from trace_step [OF T Cons.prems(1), of s] Cons.prems obtain rv l1 where
    l1: "trace_identifier l s = Inr (rv, l1)" "state_after rows (insert s tr) ocs e t u l1"
    by auto
  from Cons.IH [OF l1(2)] Cons.prems l1(1) show ?case by auto
qed

lemma marks_ok:
  assumes "table_ok rows" and "state_after rows {} [] e [] u (lib st)" and "list_all cstring (trcv st)"
    and "distinct (trcv st)"
  shows "\<exists>l. mark_all_traced_identifiers st = Inr (st\<lparr>lib := l\<rparr>) \<and>
    state_after rows (set (trcv st)) [] e [] u l"
  using mark_loop_ok [OF assms(1,2,3,4)] by (auto simp: mark_all_traced_identifiers_def)

lemma run_files_ok:
  assumes T: "table_ok rows" and L: "state_after rows {} [] e [] u (lib st)"
    and "write_error env = no_error"
    and S: "\<forall>f \<in> set (sources fs). seven_bit f \<and> found (access_F env) f \<and> readable env f \<and>
      fits (source_text env f)"
    and "count_list fs ''-'' \<le> 1" and tr: "list_all cstring (trcv st)" "distinct (trcv st)"
  shows "\<exists>l. run_files env fs st = Inr (0, st\<lparr>lib := l\<rparr>) \<and>
    stdout_text l = outputs rows [] (map (source_text env) (sources fs)) \<and>
    stderr_text l = e @ trace_log rows (set (trcv st)) (all_lookups env fs) \<and> errprint_text l = u"
proof -
  have c: "count_list (sources fs) ''-'' \<le> 1" using assms(5) by (simp add: sources_def)
  from marks_ok [OF T L tr] obtain l1 where
    l1: "mark_all_traced_identifiers st = Inr (st\<lparr>lib := l1\<rparr>)"
    "state_after rows (set (trcv st)) [] e [] u l1" by blast
  from all_files_ok [OF T, of "set (trcv st)" e u "st\<lparr>lib := l1\<rparr>" env "sources fs"] l1(2) assms(3) S c
  obtain l where "incbot_all_files env (sources fs) (st\<lparr>lib := l1\<rparr>) = Inr (0, st\<lparr>lib := l\<rparr>)"
    "stdout_text l = outputs rows [] (map (source_text env) (sources fs))"
    "stderr_text l = e @ trace_log rows (set (trcv st)) (all_lookups env fs)" "errprint_text l = u"
    by (auto simp: all_lookups_def)
  with probe_found [of fs env] S l1(1) show ?thesis
    by (auto simp: run_files_def sources_def split: if_splits)
qed

lemma no_trace_marks: "trcv st = [] \<Longrightarrow> mark_all_traced_identifiers st = Inr st"
  by (simp add: mark_all_traced_identifiers_def)

section \<open>Runs\<close>

definition start :: "env \<Rightarrow> cmd" where
  "start env = static_cmd\<lparr>errprint_fh := set_eprint_fh (f_stat env) None\<rparr>"

lemma start_simps [simp]:
  "lib (start env) = static_incbot" "verbose (start env) = False"
  "have_id_table (start env) = False" "trcv (start env) = []" "err_count (start env) = 0"
  by (simp_all add: start_def static_cmd_def)

text \<open>What follows the options, for the operands \<open>fs\<close>.\<close>

definition after_options :: "env \<Rightarrow> string \<Rightarrow> string list \<Rightarrow> cmd \<Rightarrow> (int \<times> cmd) outcome" where
  "after_options env path fs st =
     andthen (show_arguments fs (st\<lparr>verbose := verbose st \<or> debug (lib st)\<rparr>)) (\<lambda>st.
       if err_count st \<noteq> 0 then Inr (1, usage (sname path) st)
       else
         andthen (find_table env path st) (\<lambda>r. case r of
           Inl stop \<Rightarrow> Inr stop
         | Inr st \<Rightarrow>
             (if \<not> have_id_table st
              then Inr (2, eprint (''Could not find identifier table.'' @ [CHR 0x0A]) st)
              else run_files env fs st)))"

lemma main_start:
  "main_prog env path args =
    andthen (opt_loop env (sname path) \<lparr>nextchar = [], argv_rest = args, optopt = chQM\<rparr> (start env)) (\<lambda>r.
      case r of Inl stop \<Rightarrow> Inr stop | Inr (gs, st) \<Rightarrow> after_options env path (argv_rest gs) st)"
  by (simp only: main_prog_def start_def after_options_def Let_def)

text \<open>A run depends on the requests and the operands alone.\<close>

lemma main_obeys:
  assumes "command_line reqs fs args"
  shows "main_prog env path args =
    andthen (obey env (sname path) reqs (start env)) (\<lambda>q.
      case q of Inl stop \<Rightarrow> Inr stop | Inr st \<Rightarrow> after_options env path fs st)"
proof -
  let ?gs = "\<lparr>nextchar = [], argv_rest = args, optopt = chQM\<rparr>"
  have "about_to_read ?gs args" by (simp add: about_to_read_def)
  from opt_loop_obeys [OF assms this, of "start env" env "sname path"] show ?thesis
    by (cases "obey env (sname path) reqs (start env)") (auto simp: main_start leave_def split: sum.split)
qed

section \<open>Requests for a scan\<close>

fun ordinary :: "request \<Rightarrow> bool" where
  "ordinary (Table t) = True"
| "ordinary (Trace s) = True"
| "ordinary Verbose = True"
| "ordinary _ = False"

fun given_tables :: "request list \<Rightarrow> string list" where
  "given_tables [] = []"
| "given_tables (Table t # rs) = t # given_tables rs"
| "given_tables (_ # rs) = given_tables rs"

fun traced :: "request list \<Rightarrow> string list" where
  "traced [] = []"
| "traced (Trace s # rs) = s # traced rs"
| "traced (_ # rs) = traced rs"

text \<open>The names of tables on the standard error: of those that come after \<open>--verbose\<close>.\<close>

fun announcements :: "bool \<Rightarrow> request list \<Rightarrow> string" where
  "announcements v [] = []"
| "announcements v (Table t # rs) = (if v then announcement t else []) @ announcements v rs"
| "announcements v (Verbose # rs) = announcements True rs"
| "announcements v (_ # rs) = announcements v rs"

text \<open>The tables as lines, \<open>ls\<close>; the rows of all of them, and the messages about them.\<close>

definition given_rows :: "(string \<Rightarrow> tline list) \<Rightarrow> request list \<Rightarrow> string list list" where
  "given_rows ls reqs = concat (map (\<lambda>t. rows_of (ls t)) (given_tables reqs))"

definition reports :: "(string \<Rightarrow> tline list) \<Rightarrow> request list \<Rightarrow> string" where
  "reports ls reqs = concat (map (\<lambda>t. row_reports t 0 (ls t)) (given_tables reqs))"

definition readable_table :: "env \<Rightarrow> (string \<Rightarrow> tline list) \<Rightarrow> string \<Rightarrow> bool" where
  "readable_table env ls t \<longleftrightarrow>
     fopen_r env t = Inr (file_text (ls t)) \<and> list_all line_ok (ls t) \<and>
     long_rows (rows_of (ls t)) \<le> ERR_LIMIT"

lemma given_simps [simp]:
  "given_rows ls [] = []" "given_rows ls (Table t # rs) = rows_of (ls t) @ given_rows ls rs"
  "given_rows ls (Trace s # rs) = given_rows ls rs" "given_rows ls (Verbose # rs) = given_rows ls rs"
  "reports ls [] = []" "reports ls (Table t # rs) = row_reports t 0 (ls t) @ reports ls rs"
  "reports ls (Trace s # rs) = reports ls rs" "reports ls (Verbose # rs) = reports ls rs"
  by (simp_all add: given_rows_def reports_def)

text \<open>The state in which the options leave the command.\<close>

definition asked :: "cmd \<Rightarrow> request list \<Rightarrow> incbot \<Rightarrow> cmd" where
  "asked st reqs l =
     st\<lparr>lib := l, verbose := verbose st \<or> Verbose \<in> set reqs,
        have_id_table := have_id_table st \<or> given_tables reqs \<noteq> [], trcv := trcv st @ traced reqs\<rparr>"

lemma asked_step:
  "asked (st\<lparr>lib := l', have_id_table := True\<rparr>) rs l = asked st (Table t # rs) l"
  "asked (st\<lparr>trcv := trcv st @ [s]\<rparr>) rs l = asked st (Trace s # rs) l"
  "asked (st\<lparr>verbose := True\<rparr>) rs l = asked st (Verbose # rs) l"
  by (simp_all add: asked_def)

lemma obey_ok:
  assumes "list_all ordinary reqs" and "list_all (readable_table env ls) (given_tables reqs)"
    and "collected rows e u (lib st)" and "ids_ok (rows @ given_rows ls reqs)"
    and "length (trcv st) + length (traced reqs) \<le> NTRACE"
  shows "\<exists>l. obey env pn reqs st = Inr (Inr (asked st reqs l)) \<and>
    collected (rows @ given_rows ls reqs) (e @ announcements (verbose st) reqs) (u @ reports ls reqs) l \<and>
    (0 < id_table_sz (lib st) \<or> given_tables reqs \<noteq> [] \<longrightarrow> 0 < id_table_sz l)"
  using assms
proof (induction reqs arbitrary: st rows e u)
  case Nil
  then show ?case by (intro exI [of _ "lib st"]) (cases st, simp add: asked_def)
next
  case (Cons r reqs)
  show ?case
  proof (cases r)
    case (Table t)
    from Cons.prems Table have t: "list_all line_ok (ls t)" "long_rows (rows_of (ls t)) \<le> ERR_LIMIT"
      "fopen_r env t = Inr (file_text (ls t))" by (simp_all add: readable_table_def)
    have "ids_ok (rows @ rows_of (ls t))"
      using Cons.prems(4) Table ids_ok_append [of "rows @ rows_of (ls t)" "given_rows ls reqs"] by simp
    from collect_table [OF Cons.prems(3) t(1,2) this, of "verbose st" t] obtain rv l1 where
      l1: "read_id_table_file (verbose st) (lib st) t (Inr (file_text (ls t))) = Inr (rv, l1)"
      "0 < id_table_sz l1"
      "collected (rows @ rows_of (ls t)) (e @ (if verbose st then announcement t else []))
         (u @ row_reports t 0 (ls t)) l1" by metis
    let ?st = "st\<lparr>lib := l1, have_id_table := True\<rparr>"
    from l1(1) t(3) have "obey env pn (r # reqs) st = obey env pn reqs ?st"
      by (simp add: Table load_table_def)
    with Cons.IH [of "rows @ rows_of (ls t)" "e @ (if verbose st then announcement t else [])"
        "u @ row_reports t 0 (ls t)" ?st] Cons.prems l1(2,3) show ?thesis
      by (cases "verbose st") (simp_all add: Table asked_step(1) [of l1 st reqs _ t])
  next
    case (Trace s)
    let ?st = "st\<lparr>trcv := trcv st @ [s]\<rparr>"
    have "obey env pn (r # reqs) st = obey env pn reqs ?st"
      using Cons.prems(5) by (simp add: Trace add_trace_identifiers_def)
    with Cons.IH [of rows e u ?st] Cons.prems show ?thesis by (simp add: Trace asked_step)
  next
    case Verbose
    with Cons.IH [of rows e u "st\<lparr>verbose := True\<rparr>"] Cons.prems show ?thesis by (simp add: asked_step)
  qed (use Cons.prems(1) in auto)
qed

text \<open>The operands, as a verbose command shows them.\<close>

fun operand_lines :: "nat \<Rightarrow> nat \<Rightarrow> string list \<Rightarrow> string" where
  "operand_lines w i [] = []"
| "operand_lines w i (s # ss) =
     dec_width w i @ '') ['' @ concat (map visible s) @ '']'' @ [CHR 0x0A] @ operand_lines w (i + 1) ss"

definition operands_text :: "string list \<Rightarrow> string" where
  "operands_text fs =
     operand_lines (length (dec_nat (length fs))) 0 fs @
     (if fs = [] then []
      else ''non-option ARGV-elements:'' @ [CHR 0x0A] @ concat (map (\<lambda>a. ''    '' @ a @ [CHR 0x0A]) fs))"

lemma show_array_lines:
  "list_all seven_bit ss \<Longrightarrow> show_array_from w i ss = Inr (operand_lines w i ss)"
  by (induction ss arbitrary: i) (simp_all add: fshow_str_def show_chars_spec)

lemma eprint_eprint: "eprint t (eprint s st) = eprint (s @ t) st"
  by (simp add: eprint_def)

lemma show_arguments_ok:
  assumes "list_all seven_bit fs"
  shows "show_arguments fs st = Inr (if verbose st then eprint (operands_text fs) st else st)"
  using show_array_lines [OF assms]
  by (auto simp: show_arguments_def fshow_str_array_def operands_text_def eprint_eprint)

section \<open>Runs with tables\<close>

text \<open>A command with the tables and traces of \<open>reqs\<close>, before it turns to the operands.\<close>

definition with_tables :: "env \<Rightarrow> request list \<Rightarrow> incbot \<Rightarrow> cmd" where
  "with_tables env reqs l = asked (start env) reqs l"

lemma with_tables_simps [simp]:
  "lib (with_tables env reqs l) = l" "trcv (with_tables env reqs l) = traced reqs"
  "err_count (with_tables env reqs l) = 0" "verbose (with_tables env reqs l) \<longleftrightarrow> Verbose \<in> set reqs"
  "have_id_table (with_tables env reqs l) \<longleftrightarrow> given_tables reqs \<noteq> []"
  "(with_tables env reqs l)\<lparr>lib := l'\<rparr> = with_tables env reqs l'"
  by (simp_all add: with_tables_def asked_def start_def static_cmd_def)

lemma with_tables_verbose:
  "(with_tables env reqs l)\<lparr>verbose := Verbose \<in> set reqs\<rparr> = with_tables env reqs l"
  by (simp add: with_tables_def asked_def start_def static_cmd_def)

text \<open>The requests for a scan: at least one table, all of them readable, with distinct identifiers.\<close>

definition scan_requests :: "env \<Rightarrow> (string \<Rightarrow> tline list) \<Rightarrow> request list \<Rightarrow> bool" where
  "scan_requests env ls reqs \<longleftrightarrow>
     list_all ordinary reqs \<and> given_tables reqs \<noteq> [] \<and>
     list_all (readable_table env ls) (given_tables reqs) \<and> table_ok (given_rows ls reqs) \<and>
     length (traced reqs) \<le> NTRACE"

definition shown_operands :: "request list \<Rightarrow> string list \<Rightarrow> string" where
  "shown_operands reqs fs = (if Verbose \<in> set reqs then operands_text fs else [])"

lemma after_options_table:
  assumes "list_all seven_bit fs" and "given_tables reqs \<noteq> []" and "\<not> debug l"
  shows "after_options env path fs (with_tables env reqs l) =
    run_files env fs (with_tables env reqs (eprintf (shown_operands reqs fs) l))"
  using assms(2,3)
  by (simp add: after_options_def show_arguments_ok [OF assms(1)] with_tables_verbose find_table_def
      shown_operands_def eprint_def)

lemma main_scans:
  assumes "command_line reqs fs args" and S: "scan_requests env ls reqs" and "list_all seven_bit fs"
  obtains l where
    "state_after (given_rows ls reqs) {} [] (announcements False reqs) []
       (reports ls reqs @ shown_operands reqs fs) l"
    and "main_prog env path args = run_files env fs (with_tables env reqs l)"
proof -
  let ?rows = "given_rows ls reqs"
  have R: "list_all ordinary reqs" "list_all (readable_table env ls) (given_tables reqs)"
    "given_tables reqs \<noteq> []" "length (traced reqs) \<le> NTRACE" and T: "table_ok ?rows"
    using S by (simp_all add: scan_requests_def)
  from obey_ok [OF R(1,2), of "[]" "[]" "[]" "start env" "sname path"] collected_static ids_ok_table [OF T] R(3,4)
  obtain l where l: "obey env (sname path) reqs (start env) = Inr (Inr (with_tables env reqs l))"
    "collected ?rows (announcements False reqs) (reports ls reqs) l" "0 < id_table_sz l"
    by (auto simp: with_tables_def)
  let ?l = "eprintf (shown_operands reqs fs) l"
  have "\<not> debug l" using l(2) by (simp add: collected_def)
  with main_obeys [OF assms(1)] l(1) after_options_table [OF assms(3) R(3)] have
    "main_prog env path args = run_files env fs (with_tables env reqs ?l)" by simp
  moreover have "collected ?rows (announcements False reqs) (reports ls reqs @ shown_operands reqs fs) ?l"
    by (rule collected_eprintf [OF l(2,3)])
  ultimately show thesis using that collected_state_after [OF _ _ T] l(3) by (metis eprintf_sz)
qed

lemma run_prints:
  assumes "command_line reqs fs args" and "scan_requests env ls reqs" and "write_error env = no_error"
    and "list_all cstring (traced reqs)" and "distinct (traced reqs)" and "count_list fs ''-'' \<le> 1"
    and "\<forall>f \<in> set (sources fs). seven_bit f \<and> found (access_F env) f \<and> readable env f \<and>
      fits (source_text env f)"
  shows "\<exists>st. main_prog env path args = Inr (0, st) \<and>
    stdout_text (lib st) = outputs (given_rows ls reqs) [] (map (source_text env) (sources fs)) \<and>
    stderr_text (lib st) = announcements False reqs @
      trace_log (given_rows ls reqs) (set (traced reqs)) (all_lookups env fs) \<and>
    errprint_text (lib st) = reports ls reqs @ shown_operands reqs fs"
proof -
  have "list_all seven_bit fs" using assms(7) by (auto simp: sources_def list_all_iff split: if_splits)
  from main_scans [OF assms(1,2) this] obtain l where
    l: "state_after (given_rows ls reqs) {} [] (announcements False reqs) []
      (reports ls reqs @ shown_operands reqs fs) l"
    "main_prog env path args = run_files env fs (with_tables env reqs l)" .
  have "table_ok (given_rows ls reqs)" using assms(2) by (simp add: scan_requests_def)
  from run_files_ok [OF this, of "announcements False reqs" "reports ls reqs @ shown_operands reqs fs"
      "with_tables env reqs l" env fs] l assms(3-7) show ?thesis
    by auto
qed

section \<open>Properties\<close>

text \<open>C1: the purpose of the program. The arguments ask, in any spelling, for one or more id-tables,
  for identifiers to trace and perhaps for verbosity. If the identifiers of all tables are
  distinct and the source files exist and have identifiers that fit the scanner's buffer, the
  command ends with status 0 and prints, after each file, the include directives for exactly the
  headers that provide the identifiers used in the files scanned so far, each with the comments
  that name those identifiers. On the standard error it prints the names of the tables that follow
  \<open>--verbose\<close> and a trace for every use of an identifier given with \<open>--trace\<close>, and as messages
  those for rows of the tables with too many fields and, when verbose, the operands.\<close>

theorem incbot_run:
  assumes "command_line reqs fs args" and "scan_requests env ls reqs" and "write_error env = no_error"
    and "list_all cstring (traced reqs)" and "distinct (traced reqs)" and "count_list fs ''-'' \<le> 1"
    and "\<forall>f \<in> set (sources fs). seven_bit f \<and> found (access_F env) f \<and> readable env f \<and>
      fits (source_text env f)"
  shows "\<exists>st. main_prog env path args = Inr (0, st) \<and>
    stdout_text (lib st) = outputs (given_rows ls reqs) [] (map (source_text env) (sources fs)) \<and>
    stderr_text (lib st) = announcements False reqs @
      trace_log (given_rows ls reqs) (set (traced reqs)) (all_lookups env fs) \<and>
    errprint_text (lib st) = reports ls reqs @ shown_operands reqs fs"
  by (rule run_prints [OF assms])

text \<open>C32: the spelling of the options has no influence: two command lines for the same requests and
  operands have the same run, whatever the environment, also where it ends with an error. An
  argument may follow its option in the same word, after an equals sign or in the next word, flags
  may be put together, long names may be cut short as long as they are not ambiguous.\<close>

theorem incbot_spelling:
  assumes "command_line reqs fs args" and "command_line reqs fs args'"
  shows "main_prog env path args = main_prog env path args'"
  by (simp add: main_obeys [OF assms(1)] main_obeys [OF assms(2)])

text \<open>C24: if a source file does not exist, nothing is scanned or printed on the standard output;
  every missing file is named, after the messages for the id-tables, and the status is not 0.\<close>

theorem incbot_missing_file:
  assumes "command_line reqs fs args" and "scan_requests env ls reqs" and "fs \<noteq> []"
    and "list_all cstring (traced reqs)" and "distinct (traced reqs)"
    and "list_all seven_bit fs" and "\<not> list_all (found (access_F env)) fs"
  shows "\<exists>rv st. main_prog env path args = Inr (rv, st) \<and> rv \<noteq> 0 \<and> stdout_text (lib st) = [] \<and>
    errprint_text (lib st) =
      reports ls reqs @ shown_operands reqs fs @ concat (map (complaint (access_F env)) fs)"
proof -
  from main_scans [OF assms(1,2,6)] obtain l where
    l: "state_after (given_rows ls reqs) {} [] (announcements False reqs) []
      (reports ls reqs @ shown_operands reqs fs) l"
    "main_prog env path args = run_files env fs (with_tables env reqs l)" .
  have "table_ok (given_rows ls reqs)" using assms(2) by (simp add: scan_requests_def)
  from marks_ok [OF this, of "announcements False reqs" "reports ls reqs @ shown_operands reqs fs"
      "with_tables env reqs l"] l(1) assms(4,5) obtain l1 where
    l1: "mark_all_traced_identifiers (with_tables env reqs l) = Inr (with_tables env reqs l1)"
    "state_after (given_rows ls reqs) (set (traced reqs)) [] (announcements False reqs) []
      (reports ls reqs @ shown_operands reqs fs) l1" by auto
  define msg where "msg = concat (map (complaint (access_F env)) fs)"
  from probe_loop_ok [OF assms(6), of "access_F env" 0] probe_status [of "access_F env" fs] assms(7)
  obtain n where n: "filev_probe (access_F env) fs = Inr (n, msg)" "n \<noteq> 0"
    unfolding filev_probe_def msg_def by blast
  with l1(1) assms(3) have "run_files env fs (with_tables env reqs l) = Inr (n, eprint msg (with_tables env reqs l1))"
    by (simp add: run_files_def)
  with l(2) n(2) l1(2) show ?thesis
    unfolding msg_def [symmetric] by (auto simp: eprint_def eprintf_def state_after_def scanned_def)
qed

text \<open>C39: the command keeps going when an id-table file does not open, although it then has no
  table, and dereferences a null pointer at the first identifier of the first source.\<close>

theorem incbot_table_not_opened:
  assumes "command_line [Table tname] fs args" and "fopen_r env tname = Inl e"
    and "\<forall>f \<in> set (sources fs). seven_bit f \<and> found (access_F env) f"
    and "readable env (hd (sources fs))" and "fits (source_text env (hd (sources fs)))"
    and "lookups (source_text env (hd (sources fs))) \<noteq> []"
  shows "main_prog env path args = Inl Undef"
proof -
  let ?f = "hd (sources fs)"
  define l where "l = eprintf (open_failed tname) static_incbot"
  have fs: "list_all seven_bit fs" using assms(3) by (auto simp: sources_def list_all_iff split: if_splits)
  have dbg: "\<not> debug l" by (simp add: l_def eprintf_def static_incbot_def)
  have "obey env (sname path) [Table tname] (start env) = Inr (Inr (with_tables env [Table tname] l))"
    using assms(2)
    by (simp add: load_table_def read_id_table_file_def announce_table_def with_tables_def asked_def l_def)
  with main_obeys [OF assms(1)] after_options_table [OF fs _ dbg, of "[Table tname]"] have
    m: "main_prog env path args = run_files env fs (with_tables env [Table tname] l)"
    by (simp add: shown_operands_def)
  have "incbot_src_stream l (source_text env ?f) ?f = Inl Undef"
    using src_stream_no_table [of l "source_text env ?f"] assms(5,6)
    by (simp add: fits_def static_incbot_def l_def eprintf_def)
  then have "incbot_src_file (fopen_r env) (stdin_contents env) l ?f = Inl Undef"
    using assms(4) by (auto simp: incbot_src_file_def source_text_def readable_def)
  then have "files_loop env (Some (stdin_contents env)) 0 l (?f # tl (sources fs)) = Inl Undef"
    by simp
  moreover have "?f # tl (sources fs) = sources fs" by (simp add: sources_def)
  ultimately have "files_loop env (Some (stdin_contents env)) 0 l (sources fs) = Inl Undef"
    by metis
  then have "incbot_all_files env (sources fs) (with_tables env [Table tname] l) = Inl Undef"
    using probe_found [of "sources fs" env] assms(3) by (simp add: incbot_all_files_def)
  with m probe_found [of fs env] assms(3) show ?thesis
    by (auto simp: run_files_def no_trace_marks sources_def split: if_splits)
qed

text \<open>More than 64 \<open>--trace\<close> options write past the end of \<open>trcv\<close>, whatever else follows,
  although the usage text allows any number of them.\<close>

lemma obey_many_traces:
  "NTRACE < length (trcv st) + length ss \<Longrightarrow> length (trcv st) \<le> NTRACE \<Longrightarrow>
   obey env pn (map Trace ss @ reqs) st = Inl Undef"
proof (induction ss arbitrary: st)
  case (Cons s ss)
  then show ?case
    by (cases "length (trcv st) < NTRACE") (simp_all add: add_trace_identifiers_def)
qed simp

theorem incbot_many_traces:
  assumes "command_line (map Trace ss @ reqs) fs args" and "NTRACE < length ss"
  shows "main_prog env path args = Inl Undef"
  using obey_many_traces [of "start env" ss env "sname path" reqs] assms(2)
  by (simp add: main_obeys [OF assms(1)])

lemma opt_loop_stops:
  assumes "err_count st \<le> 10" and "nextchar gs = []"
    and "argv_rest gs = [] \<or> operand (hd (argv_rest gs))"
  shows "opt_loop env pn gs st = Inr (Inr (gs, st))"
proof -
  have "getopt_long gs = (-1, None, gs)"
    using assms(2,3) by (auto simp: getopt_long_def operand_def split: list.splits)
  with assms(1) show ?thesis by (simp add: opt_loop.simps [of env pn gs st])
qed

text \<open>
  Options with errors among them. The requests up to the eleventh error are obeyed; \<open>n\<close> counts the
  errors so far. \<open>option_messages\<close> are the messages about the tables and the errors, in their
  order.
\<close>

fun wrong_items :: "item list \<Rightarrow> nat" where
  "wrong_items [] = 0"
| "wrong_items (Asked r # is) = wrong_items is"
| "wrong_items (Wrong m # is) = Suc (wrong_items is)"

fun requests :: "item list \<Rightarrow> request list" where
  "requests [] = []"
| "requests (Asked r # is) = r # requests is"
| "requests (Wrong m # is) = requests is"

fun heard :: "nat \<Rightarrow> item list \<Rightarrow> request list" where
  "heard n [] = []"
| "heard n (Asked r # is) = (if 10 < n then [] else r # heard n is)"
| "heard n (Wrong m # is) = (if 10 < n then [] else heard (n + 1) is)"

definition too_many :: "string \<Rightarrow> string" where
  "too_many pn = pn @ '': Too many option errors.'' @ [CHR 0x0A]"

fun option_messages :: "(string \<Rightarrow> tline list) \<Rightarrow> string \<Rightarrow> nat \<Rightarrow> item list \<Rightarrow> string" where
  "option_messages ls pn n [] = (if 10 < n then too_many pn else [])"
| "option_messages ls pn n (Asked r # is) =
     (if 10 < n then too_many pn else reports ls [r] @ option_messages ls pn n is)"
| "option_messages ls pn n (Wrong m # is) =
     (if 10 < n then too_many pn else pn @ '': '' @ m @ [CHR 0x0A] @ option_messages ls pn (n + 1) is)"

lemma heard_enough: "10 < n \<Longrightarrow> heard n is = [] \<and> option_messages ls pn n is = too_many pn"
  by (cases "is" rule: requests.cases) simp_all

lemma opt_loop_enough:
  assumes "10 < err_count st"
  shows "opt_loop env pn gs st = Inr (Inr (gs, eprint (too_many pn) st))"
  using assms by (simp add: opt_loop.simps [of env pn gs st] too_many_def)

lemma asked_Cons: "asked (asked st [r] l) rs l' = asked st (r # rs) l'"
  by (cases r) (auto simp: asked_def)

lemma asked_none: "(asked st [] l)\<lparr>err_count := err_count st\<rparr> = st\<lparr>lib := l\<rparr>"
  by (cases st) (simp add: asked_def)

lemma asked_errors:
  "(asked (st\<lparr>lib := l0, err_count := n\<rparr>) rs l)\<lparr>err_count := k\<rparr> = (asked st rs l)\<lparr>err_count := k\<rparr>"
  "err_count (asked st rs l) = err_count st"
  by (simp_all add: asked_def)

lemma begin_tables_eprintf: "begin_tables (eprintf t l) = eprintf t (begin_tables l)"
  by (simp add: begin_tables_def eprintf_def init_tables_def)

lemma collected_message: "collected rows e u l \<Longrightarrow> collected rows e (u @ t) (eprintf t l)"
  by (simp add: collected_def ready_def holds_def begin_tables_eprintf) (simp add: eprintf_def)

text \<open>One request.\<close>

lemma opt_loop_ordinary:
  assumes "reads (Asked r) as as'" and "about_to_read gs as" and "ordinary r"
    and "list_all (readable_table env ls) (given_tables [r])"
    and "collected rows e u (lib st)" and "ids_ok (rows @ given_rows ls [r])"
    and "length (trcv st) + length (traced [r]) \<le> NTRACE" and "err_count st \<le> 10"
  shows "\<exists>gs' l. opt_loop env pn gs st = opt_loop env pn gs' (asked st [r] l) \<and> about_to_read gs' as' \<and>
    set (argv_rest gs') \<subseteq> set (argv_rest gs) \<and>
    collected (rows @ given_rows ls [r]) (e @ announcements (verbose st) [r]) (u @ reports ls [r]) l"
proof -
  from obey_ok [of "[r]", OF _ assms(4-7)] assms(3) obtain l where
    l: "obey env pn [r] st = Inr (Inr (asked st [r] l))"
    "collected (rows @ given_rows ls [r]) (e @ announcements (verbose st) [r]) (u @ reports ls [r]) l"
    by auto
  from opt_loop_request [OF assms(1,2,8) l(1)] l(2) show ?thesis by blast
qed

lemma request_first:
  assumes "ordinary r"
  shows "given_rows ls (r # rs) = given_rows ls [r] @ given_rows ls rs"
    and "announcements v (r # rs) = announcements v [r] @ announcements (v \<or> Verbose \<in> set [r]) rs"
    and "traced (r # rs) = traced [r] @ traced rs" and "given_tables (r # rs) = given_tables [r] @ given_tables rs"
  using assms by (cases r; simp)+

text \<open>What the loop over the options leaves, where \<open>rows\<close>, \<open>e\<close> and \<open>u\<close> are there before it.\<close>

definition items_done ::
  "(string \<Rightarrow> tline list) \<Rightarrow> string \<Rightarrow> string list list \<Rightarrow> string \<Rightarrow> string \<Rightarrow> getopt \<Rightarrow> cmd \<Rightarrow> string list \<Rightarrow>
   item list \<Rightarrow> (int \<times> cmd + getopt \<times> cmd) outcome \<Rightarrow> bool" where
  "items_done ls pn rows e u gs st fs is out \<longleftrightarrow>
     (\<exists>gs' l. out = Inr (Inr (gs', (asked st (heard (err_count st) is) l)
         \<lparr>err_count := min 11 (err_count st + wrong_items is)\<rparr>)) \<and>
       set (argv_rest gs') \<subseteq> set (argv_rest gs) \<and>
       (err_count st + wrong_items is \<le> 10 \<longrightarrow> argv_rest gs' = fs) \<and>
       collected (rows @ given_rows ls (heard (err_count st) is))
         (e @ announcements (verbose st) (heard (err_count st) is))
         (u @ option_messages ls pn (err_count st) is) l)"

lemma items_enough:
  assumes "err_count st = 11" and "collected rows e u (lib st)"
  shows "items_done ls pn rows e u gs st fs is (opt_loop env pn gs st)"
  unfolding items_done_def
  using opt_loop_enough [of st env pn gs] heard_enough [of 11 "is" ls pn] collected_message [OF assms(2), of "too_many pn"]
    asked_none [of st "eprintf (too_many pn) (lib st)"] assms(1)
  by (intro exI [of _ gs] exI [of _ "eprintf (too_many pn) (lib st)"]) (simp add: eprint_def)

lemma items_end:
  assumes "getopt_long gs = (-1, None, gs')" and "argv_rest gs' = fs" and "err_count st \<le> 10"
    and "collected rows e u (lib st)"
  shows "items_done ls pn rows e u gs st fs [] (opt_loop env pn gs st)"
  unfolding items_done_def
  using assms getopt_long_rest [OF assms(1)] asked_none [of st "lib st"]
  by (intro exI [of _ gs'] exI [of _ "lib st"]) (simp add: opt_loop.simps [of env pn gs st])

lemma items_wrong:
  assumes "items_done ls pn rows e (u @ pn @ '': '' @ m @ [CHR 0x0A]) gs'
      (st\<lparr>lib := l0, err_count := err_count st + 1\<rparr>) fs is out"
    and "err_count st \<le> 10" and "set (argv_rest gs') \<subseteq> set (argv_rest gs)"
  shows "items_done ls pn rows e u gs st fs (Wrong m # is) out"
  using assms unfolding items_done_def by (auto simp: asked_errors)

lemma items_asked:
  assumes "items_done ls pn (rows @ given_rows ls [r]) (e @ announcements (verbose st) [r]) (u @ reports ls [r]) gs'
      (asked st [r] l0) fs is out"
    and "err_count st \<le> 10" and "set (argv_rest gs') \<subseteq> set (argv_rest gs)" and "ordinary r"
  shows "items_done ls pn rows e u gs st fs (Asked r # is) out"
proof -
  have st: "verbose (asked st [r] l0) \<longleftrightarrow> verbose st \<or> Verbose \<in> set [r]" "err_count (asked st [r] l0) = err_count st"
    by (simp_all add: asked_def)
  from assms(1) obtain gs2 l where
    "out = Inr (Inr (gs2, (asked st (r # heard (err_count st) is) l)\<lparr>err_count := min 11 (err_count st + wrong_items is)\<rparr>))"
    "set (argv_rest gs2) \<subseteq> set (argv_rest gs')" "err_count st + wrong_items is \<le> 10 \<longrightarrow> argv_rest gs2 = fs"
    "collected (rows @ given_rows ls (r # heard (err_count st) is))
      (e @ announcements (verbose st) (r # heard (err_count st) is))
      (u @ reports ls [r] @ option_messages ls pn (err_count st) is) l"
    unfolding items_done_def st asked_Cons request_first [OF assms(4), where rs = "heard (err_count st) is"] append_assoc
    by blast
  with assms(2,3) show ?thesis unfolding items_done_def by (intro exI [of _ gs2] exI [of _ l]) auto
qed

lemma opt_loop_items:
  assumes "option_line is fs as" and "about_to_read gs as" and "list_all ordinary (requests is)"
    and "list_all (readable_table env ls) (given_tables (requests is))"
    and "collected rows e u (lib st)" and "ids_ok (rows @ given_rows ls (requests is))"
    and "length (trcv st) + length (traced (requests is)) \<le> NTRACE" and "err_count st \<le> 11"
  shows "items_done ls pn rows e u gs st fs is (opt_loop env pn gs st)"
  using assms
proof (induction arbitrary: gs st rows e u rule: option_line.induct)
  case (no_options fs)
  then show ?case
    using items_enough [of st] no_more_options [of gs fs fs] items_end [of gs _ fs st] by (cases "err_count st = 11") auto
next
  case (end_mark fs)
  then show ?case
    using items_enough [of st] no_more_options [of gs "''--'' # fs" fs] items_end [of gs _ fs st]
    by (cases "err_count st = 11") auto
next
  case (item i as as' "is" fs)
  note prems = item.prems
  consider "err_count st = 11" | (asked) r where "i = Asked r" "err_count st \<le> 10"
    | (wrong) m where "i = Wrong m" "err_count st \<le> 10"
    using prems(7) by (cases i) force+
  then show ?case
  proof cases
    case 1
    with items_enough prems(4) show ?thesis by blast
  next
    case asked
    from prems(2) asked(1) have r: "ordinary r" "list_all ordinary (requests is)" by simp_all
    note first = request_first [OF r(1), where rs = "requests is"]
    have t: "list_all (readable_table env ls) (given_tables [r])"
      "list_all (readable_table env ls) (given_tables (requests is))"
      using prems(3) unfolding asked(1) requests.simps first by simp_all
    have ids: "ids_ok ((rows @ given_rows ls [r]) @ given_rows ls (requests is))"
      using prems(5) unfolding asked(1) requests.simps first append_assoc .
    have tr: "length (trcv st) + length (traced [r]) + length (traced (requests is)) \<le> NTRACE"
      using prems(6) unfolding asked(1) requests.simps first by simp
    have "length (trcv st) + length (traced [r]) \<le> NTRACE" using tr by simp
    from opt_loop_ordinary [OF item.hyps(1) [unfolded asked(1)] prems(1) r(1) t(1) prems(4) ids_ok_append [OF ids]
      this asked(2), of pn]
    obtain gs' l where g: "opt_loop env pn gs st = opt_loop env pn gs' (asked st [r] l)" "about_to_read gs' as'"
      "set (argv_rest gs') \<subseteq> set (argv_rest gs)"
      "collected (rows @ given_rows ls [r]) (e @ announcements (verbose st) [r]) (u @ reports ls [r]) l"
      by blast
    have "items_done ls pn (rows @ given_rows ls [r]) (e @ announcements (verbose st) [r]) (u @ reports ls [r]) gs'
        (asked st [r] l) fs is (opt_loop env pn gs' (asked st [r] l))"
      using tr asked(2) g(4) by (intro item.IH [OF g(2) r(2) t(2) _ ids]) (simp_all add: asked_def)
    from items_asked [OF this asked(2) g(3) r(1)] g(1) show ?thesis by (simp add: asked(1))
  next
    case wrong
    from opt_loop_wrong [OF item.hyps(1) [unfolded wrong(1)] prems(1) wrong(2), of env pn] obtain gs' where
      g: "about_to_read gs' as'" "set (argv_rest gs') \<subseteq> set (argv_rest gs)"
      "opt_loop env pn gs st = opt_loop env pn gs'
        (st\<lparr>lib := eprintf (pn @ '': '' @ m @ [CHR 0x0A]) (lib st), err_count := err_count st + 1\<rparr>)"
      by (auto simp: eprint_def)
    let ?m = "pn @ '': '' @ m @ [CHR 0x0A]"
    have "items_done ls pn rows e (u @ ?m) gs' (st\<lparr>lib := eprintf ?m (lib st), err_count := err_count st + 1\<rparr>) fs is
        (opt_loop env pn gs' (st\<lparr>lib := eprintf ?m (lib st), err_count := err_count st + 1\<rparr>))"
      using prems(2,3,5,6) collected_message [OF prems(4), of ?m] wrong
      by (intro item.IH [OF g(1)]) (simp_all del: append.simps append_assoc)
    from items_wrong [OF this wrong(2) g(2)] show ?thesis unfolding g(3) wrong(1) .
  qed
qed

lemma heard_requests: "set (heard n is) \<subseteq> set (requests is)"
  by (induction n "is" rule: heard.induct) auto

text \<open>C25: a command line with errors among its options: unknown letters, by themselves or in a
  group of flags, unknown or ambiguous long names, arguments for flags, an option that lacks its
  argument at the end, in any mixture with \<open>--verbose\<close>, \<open>--trace\<close> and tables that can be read. The
  status is 1, nothing is printed on the standard output, each error is counted and reported in
  its turn, up to the limit of 11 with which the options are given up, and the usage text comes
  last. The requests before the limit are obeyed. (\<open>-?\<close> is no error but asks for help.)\<close>

theorem incbot_bad_options:
  assumes "option_line is fs args" and "0 < wrong_items is" and "list_all ordinary (requests is)"
    and "list_all (readable_table env ls) (given_tables (requests is))" and "ids_ok (given_rows ls (requests is))"
    and "length (traced (requests is)) \<le> NTRACE" and "Verbose \<in> set (requests is) \<Longrightarrow> list_all seven_bit args"
  shows "\<exists>st left. main_prog env path args = Inr (1, st) \<and> err_count st = min 11 (wrong_items is) \<and>
    stdout_text (lib st) = [] \<and> stderr_text (lib st) = announcements False (heard 0 is) \<and>
    errprint_text (lib st) = option_messages ls (sname path) 0 is @
      (if Verbose \<in> set (heard 0 is) then operands_text left else []) @
      ''usage: '' @ sname path @ '' [ <options> ]'' @ [CHR 0x0A] @ usage_text \<and>
    set left \<subseteq> set args \<and> (wrong_items is \<le> 10 \<longrightarrow> left = fs)"
proof -
  let ?gs = "\<lparr>nextchar = [], argv_rest = args, optopt = chQM\<rparr>"
  have "about_to_read ?gs args" by (simp add: about_to_read_def)
  from opt_loop_items [OF assms(1) this assms(3,4), of "[]" "[]" "[]" "start env"] assms(5,6) collected_static
  have "items_done ls (sname path) [] [] [] ?gs (start env) fs is (opt_loop env (sname path) ?gs (start env))"
    by simp
  then obtain gs l where
    o: "opt_loop env (sname path) ?gs (start env) =
      Inr (Inr (gs, (asked (start env) (heard 0 is) l)\<lparr>err_count := min 11 (wrong_items is)\<rparr>))"
    and left: "set (argv_rest gs) \<subseteq> set args" "wrong_items is \<le> 10 \<longrightarrow> argv_rest gs = fs"
    and l: "collected (given_rows ls (heard 0 is)) (announcements False (heard 0 is))
      (option_messages ls (sname path) 0 is) l"
    by (auto simp: items_done_def)
  have debug: "\<not> debug l" using l by (simp add: collected_def)
  have shown: "list_all seven_bit (argv_rest gs)" if "Verbose \<in> set (heard 0 is)"
    using that heard_requests [of 0 "is"] assms(7) left(1) by (auto simp: list_all_iff)
  have "show_arguments (argv_rest gs) st = Inr (if Verbose \<in> set (heard 0 is)
      then eprint (operands_text (argv_rest gs)) st else st)" if "verbose st \<longleftrightarrow> Verbose \<in> set (heard 0 is)" for st
  proof (cases "Verbose \<in> set (heard 0 is)")
    case True
    with that show_arguments_ok [OF shown [OF True], of st] show ?thesis by simp
  qed (use that in \<open>simp add: show_arguments_def\<close>)
  moreover have "min 11 (wrong_items is) \<noteq> 0" using assms(2) by simp
  ultimately show ?thesis using left l debug
    by (intro exI [of _ "usage (sname path) (eprint (if Verbose \<in> set (heard 0 is) then operands_text (argv_rest gs) else [])
          ((asked (start env) (heard 0 is) l)\<lparr>err_count := min 11 (wrong_items is)\<rparr>))"] exI [of _ "argv_rest gs"])
      (auto simp: main_start o after_options_def asked_def usage_def eprint_def eprintf_def collected_def
        simp del: min_def)
qed

text \<open>The id-table of a run without options: the default one, else the one beside the sources the
  program was built from.\<close>

definition chosen_table :: "env \<Rightarrow> string \<Rightarrow> string option" where
  "chosen_table env p =
     (let root = take (length p - length cmd_sfx) p
      in if access_R env default_id_table = 0 then Some default_id_table
         else if p = root @ cmd_sfx \<and> access_R env (root @ tbl_sfx) = 0 then Some (root @ tbl_sfx)
         else None)"

definition with_default :: "env \<Rightarrow> incbot \<Rightarrow> cmd" where
  "with_default env l = (start env)\<lparr>lib := l, have_id_table := True\<rparr>"

lemma with_default_simps [simp]:
  "have_id_table (with_default env l)" "(start env)\<lparr>lib := l, have_id_table := True\<rparr> = with_default env l"
  by (simp_all add: with_default_def)

lemma try_table_start:
  "try_table env t (start env) =
    (if access_R env t = 0 then
       andthen (read_id_table_file False static_incbot t (fopen_r env t)) (\<lambda>(rv, l).
         if rv \<noteq> 0 then Inr (Inl (rv, (start env)\<lparr>lib := l\<rparr>)) else Inr (Inr (with_default env l)))
     else Inr (Inr (start env)))"
  by (cases "read_id_table_file False static_incbot t (fopen_r env t)")
    (auto simp: try_table_def load_table_def)

lemma find_table_start:
  assumes "real_path env path = Some p" and "cstring p" and "length cmd_sfx \<le> length p"
  shows "find_table env path (start env) =
    (case chosen_table env p of
       None \<Rightarrow> Inr (Inr (start env))
     | Some t \<Rightarrow> try_table env t (start env))"
proof -
  let ?off = "length p - length cmd_sfx"
  have "cstring (drop ?off p)" using assms(2) by (auto simp: cstring_def dest: in_set_dropD)
  moreover have "cstring cmd_sfx" by (simp add: cmd_sfx_def cstring_def uc_def)
  ultimately have "strcmp (drop ?off p) cmd_sfx = 0 \<longleftrightarrow> drop ?off p = cmd_sfx"
    by (rule strcmp_eq_0)
  then have sfx: "strcmp (drop ?off p) cmd_sfx = 0 \<longleftrightarrow> p = take ?off p @ cmd_sfx"
    by (metis append_take_drop_id same_append_eq)
  have found: "andthen (try_table env t (start env)) (\<lambda>r. case r of
      Inl stop \<Rightarrow> Inr (Inl stop) | Inr st \<Rightarrow> if have_id_table st then Inr (Inr st) else f st) =
    try_table env t (start env)" if "access_R env t = 0" for t f
    using that
    by (cases "read_id_table_file False static_incbot t (fopen_r env t)") (auto simp: try_table_start)
  show ?thesis
  proof (cases "access_R env default_id_table = 0")
    case True
    with found [OF True] show ?thesis by (simp add: find_table_def chosen_table_def)
  next
    case False
    then have "find_table env path (start env) = program_table env path (start env)"
      by (simp add: find_table_def try_table_start)
    also have "\<dots> = (if p = take ?off p @ cmd_sfx then try_table env (take ?off p @ tbl_sfx) (start env)
        else Inr (Inr (start env)))"
      using assms(1,3) by (simp add: program_table_def Let_def sfx)
    finally show ?thesis using False by (auto simp: chosen_table_def Let_def try_table_start)
  qed
qed

text \<open>C23: without options the id-table is the default one if it can be read, else the one beside the
  sources of the program, found from its real path; without either the run ends with status 2
  and a message. Unlike for a table given with \<open>-t\<close>, a result other than 0 of the reader ends the
  run with that status before any source is scanned.\<close>

theorem incbot_chooses_table:
  assumes "real_path env path = Some p" and "cstring p" and "length cmd_sfx \<le> length p"
    and "fs = [] \<or> operand (hd fs)"
  shows "main_prog env path fs =
    (case chosen_table env p of
       None \<Rightarrow> Inr (2, eprint (''Could not find identifier table.'' @ [CHR 0x0A]) (start env))
     | Some t \<Rightarrow>
         andthen (read_id_table_file False static_incbot t (fopen_r env t)) (\<lambda>(rv, l).
           if rv \<noteq> 0 then Inr (rv, (start env)\<lparr>lib := l\<rparr>) else run_files env fs (with_default env l)))"
proof -
  let ?gs = "\<lparr>nextchar = [], argv_rest = fs, optopt = chQM\<rparr>"
  have o: "opt_loop env (sname path) ?gs (start env) = Inr (Inr (?gs, start env))"
    using assms(4) by (intro opt_loop_stops) simp_all
  have v: "(start env)\<lparr>verbose := False\<rparr> = start env" "\<not> debug static_incbot"
    by (simp_all add: start_def static_cmd_def static_incbot_def)
  show ?thesis
  proof (cases "chosen_table env p")
    case None
    with find_table_start [OF assms(1-3)] show ?thesis
      by (simp add: main_start o v after_options_def show_arguments_def)
  next
    case (Some t)
    then have "access_R env t = 0" by (auto simp: chosen_table_def Let_def split: if_splits)
    with Some find_table_start [OF assms(1-3)] show ?thesis
      by (cases "read_id_table_file False static_incbot t (fopen_r env t)")
        (auto simp: main_start o v after_options_def show_arguments_def try_table_start)
  qed
qed

section \<open>A run on concrete tables and a source\<close>

definition ex_lines :: "string \<Rightarrow> tline list" where
  "ex_lines t =
     (if t = ''t'' then [Row [''f'', ''2'', ''open'', ''fcntl.h'']]
      else [Comment ''more'', Row [''f'', ''3'', ''puts'', ''stdio.h'']])"

definition ex_env :: env where
  "ex_env =
     \<lparr>fopen_r = (\<lambda>f. if f = ''t'' \<or> f = ''u'' then Inr (file_text (ex_lines f))
                    else if f = ''a.c'' then Inr ''open(x)'' else Inl ENOENT),
      opens_w = (\<lambda>f. False), access_F = (\<lambda>f. if f = ''a.c'' \<or> f = ''t'' then 0 else -1),
      access_R = (\<lambda>f. -1), real_path = (\<lambda>f. None), get_env = (\<lambda>v. None), f_stat = (\<lambda>d. None),
      stdin_contents = [], write_error = no_error\<rparr>"

definition ex_requests :: "request list" where
  "ex_requests = [Table ''t'', Table ''u'', Trace ''open'']"

definition ex_args :: "string list" where
  "ex_args = [''-t'', ''t'', ''--id-table=u'', ''--trace'', ''open'']"

lemma ex_line: "operand f \<Longrightarrow> command_line ex_requests (f # fs) (ex_args @ f # fs)"
  unfolding ex_requests_def ex_args_def append.simps
  by (intro short_next [of "CHR ''t''"] long_same [of "''id-table''" "CHR ''t''" "''u''", simplified]
      long_next [of "''trace''" "CHR ''T''", simplified] operands)
    (simp_all add: long_option_def long_options_def)

lemma ex_rows:
  "given_rows ex_lines ex_requests = [[''f'', ''2'', ''open'', ''fcntl.h''], [''f'', ''3'', ''puts'', ''stdio.h'']]"
  by (simp add: ex_lines_def ex_requests_def)

lemma ex_reports: "reports ex_lines ex_requests = []"
  by (simp add: ex_lines_def ex_requests_def row_report_def NFLD_def)

lemma ex_scan: "scan_requests ex_env ex_lines ex_requests"
proof -
  have "readable_table ex_env ex_lines ''t''" "readable_table ex_env ex_lines ''u''"
    by (simp_all add: readable_table_def ex_env_def)
      (simp_all add: ex_lines_def uc_def field_ok_def FBUF_SZ_def fsep_def long_rows_def NFLD_def)
  moreover have "table_ok (given_rows ex_lines ex_requests)"
    by (simp add: ex_rows table_ok_def row_id_def undef_idnr_def header_list_ok_def)
  ultimately show ?thesis by (simp add: scan_requests_def ex_requests_def NTRACE_def)
qed

lemma ex_traced: "traced ex_requests = [''open'']" "announcements False ex_requests = []"
  "shown_operands ex_requests fs = []"
  by (simp_all add: ex_requests_def shown_operands_def)

lemma ex_source: "source_text ex_env ''a.c'' = ''open(x)''" "fits ''open(x)''"
  by (simp_all add: source_text_def ex_env_def fits_def lookups_open IDBUF_SZ_def)

lemma ex_types:
  "encode_id_type ''f'' = TYPE_FUNCTION" "TYPE_FUNCTION AND find_mask True \<noteq> 0"
  "TYPE_FUNCTION \<noteq> TYPE_KEYWORD" "TYPE_FUNCTION \<noteq> 0"
  by (simp_all add: encode_id_type_def sc_def uc_def find_mask_def type_defs)

lemma ex_provided:
  "provided (given_rows ex_lines ex_requests) (lookups ''open(x)'') = {(''fcntl.h'', ''open'')}"
  by (simp add: provided_def ex_rows lookups_open ex_types conj_disj_distribR ex_disj_distrib
      cong: conj_cong)

lemma ex_output:
  "outputs (given_rows ex_lines ex_requests) [] [''open(x)''] =
     ''#include <fcntl.h>'' @ [CHR 0x0A] @ ''    // Import open()'' @ [CHR 0x0A]"
  by (simp add: ex_provided listing_def listing_of_def)
    (simp add: header_text_def directive_def row_comment_def row_type_def
      ex_rows row_id_def import_text_def ex_types)

lemma ex_log:
  "trace_log (given_rows ex_lines ex_requests) {''open''} (lookups ''open(x)'') =
     trace_text ''open'' (find_mask True) TYPE_FUNCTION"
  by (simp add: trace_log_def lookups_open) (simp add: ex_rows row_id_def row_type_def ex_types)

theorem incbot_run_witness:
  "\<exists>st. main_prog ex_env ''/bin/incbot'' (ex_args @ [''a.c'']) = Inr (0, st) \<and>
    stdout_text (lib st) = ''#include <fcntl.h>'' @ [CHR 0x0A] @ ''    // Import open()'' @ [CHR 0x0A] \<and>
    stderr_text (lib st) = trace_text ''open'' (find_mask True) TYPE_FUNCTION \<and> errprint_text (lib st) = []"
proof -
  have "command_line ex_requests [''a.c''] (ex_args @ [''a.c''])" by (rule ex_line) (simp add: operand_def)
  from incbot_run [OF this ex_scan, of "''/bin/incbot''"] show ?thesis
    by (simp add: ex_traced sources_def all_lookups_def ex_source ex_log ex_output ex_reports
        del: outputs.simps)
      (simp add: ex_env_def uc_def found_def readable_def)
qed

theorem incbot_spelling_witness:
  "main_prog ex_env ''/bin/incbot'' [''-v'', ''-t'', ''x'', ''--trace=open'', ''a.c''] =
   main_prog ex_env ''/bin/incbot'' [''--verb'', ''-tx'', ''-T'', ''open'', ''--'', ''a.c''] \<and>
   main_prog ex_env ''/bin/incbot'' [''-v'', ''-t'', ''x'', ''--trace=open'', ''a.c''] =
   main_prog ex_env ''/bin/incbot'' [''-vtx'', ''--tr'', ''open'', ''a.c'']"
proof -
  let ?reqs = "[Verbose, Table ''x'', Trace ''open'']"
  let ?line = "\<lambda>rs. command_line rs [''a.c'']"
  note opts = long_option_def long_options_def
  have "?line [] [''a.c'']" by (rule operands) (simp add: operand_def)
  then have trace: "?line [Trace ''open''] [''--trace=open'', ''a.c'']"
    "?line [Trace ''open''] [''--tr'', ''open'', ''a.c'']"
    using long_same [of "''trace''" "CHR ''T''" "''open''"] long_next [of "''tr''" "CHR ''T''" "''open''"]
    by (simp_all add: opts)
  have "?line [Table ''x'', Trace ''open''] [''-t'', ''x'', ''--trace=open'', ''a.c'']"
    by (rule short_next [OF _ trace(1)]) simp
  then have "?line ?reqs [''-v'', ''-t'', ''x'', ''--trace=open'', ''a.c'']" by (rule short_flag [rotated]) simp
  moreover have "?line [Trace ''open''] [''-T'', ''open'', ''--'', ''a.c'']"
    by (rule short_next [OF _ dashes]) simp
  then have "?line [Table ''x'', Trace ''open''] [''-tx'', ''-T'', ''open'', ''--'', ''a.c'']"
    by (rule short_same [rotated 2]) simp_all
  then have "?line ?reqs [''--verb'', ''-tx'', ''-T'', ''open'', ''--'', ''a.c'']"
    using long_flag [of "''verb''" "CHR ''v''"] by (simp add: opts)
  moreover have "?line [Table ''x'', Trace ''open''] [''-tx'', ''--tr'', ''open'', ''a.c'']"
    by (rule short_same [OF _ _ trace(2)]) simp_all
  then have "?line ?reqs [''-vtx'', ''--tr'', ''open'', ''a.c'']"
    by (rule cluster [rotated 3]) simp_all
  ultimately show ?thesis using incbot_spelling by blast
qed

theorem incbot_missing_file_witness:
  "\<exists>rv st. main_prog ex_env ''/bin/incbot'' (ex_args @ [''a.c'', ''b'']) = Inr (rv, st) \<and> rv \<noteq> 0 \<and>
    stdout_text (lib st) = [] \<and>
    errprint_text (lib st) = concat (map (complaint (access_F ex_env)) [''a.c'', ''b''])"
proof -
  have "command_line ex_requests [''a.c'', ''b''] (ex_args @ [''a.c'', ''b''])"
    by (rule ex_line) (simp add: operand_def)
  from incbot_missing_file [OF this ex_scan, of "''/bin/incbot''"] show ?thesis
    by (simp add: ex_traced ex_reports) (simp add: ex_env_def uc_def found_def)
qed

theorem incbot_table_not_opened_witness:
  "main_prog ex_env ''/bin/incbot'' [''-tx'', ''a.c''] = Inl Undef"
proof -
  have "command_line [] [''a.c''] [''a.c'']" by (rule operands) (simp add: operand_def)
  then have "command_line [Table ''x''] [''a.c''] [''-tx'', ''a.c'']"
    using short_same [of "CHR ''t''" "''x''"] by simp
  then show ?thesis
    by (rule incbot_table_not_opened [of _ _ _ _ ENOENT])
      (simp_all add: sources_def ex_source lookups_open,
       simp_all add: ex_env_def uc_def found_def readable_def)
qed

theorem incbot_many_traces_witness:
  "main_prog ex_env ''incbot'' (concat (replicate 65 [''-T'', ''x'']) @ [''a.c'']) = Inl Undef"
proof -
  have "command_line (map Trace (replicate n ''x'') @ []) [''a.c''] (concat (replicate n [''-T'', ''x'']) @ [''a.c''])" for n
    by (induction n) (auto intro!: operands short_next [of "CHR ''T''" "''x''"] simp: operand_def)
  then show ?thesis by (rule incbot_many_traces) (simp add: NTRACE_def)
qed

text \<open>The table beside the sources, when the default one cannot be read.\<close>

theorem incbot_chooses_table_witness:
  "let env = ex_env\<lparr>real_path := \<lambda>f. Some (''/v'' @ cmd_sfx),
                   access_R := \<lambda>f. if f = ''/v/src/table/id-table'' then 0 else -1,
                   fopen_r := \<lambda>f. if f = ''/v/src/table/id-table'' then Inl 13 else Inr []\<rparr>
   in \<exists>st. main_prog env ''incbot'' [''a.c''] = Inr (13, st) \<and>
        errprint_text (lib st) = open_failed ''/v/src/table/id-table''"
proof -
  let ?env = "ex_env\<lparr>real_path := \<lambda>f. Some (''/v'' @ cmd_sfx),
                   access_R := \<lambda>f. if f = ''/v/src/table/id-table'' then 0 else -1,
                   fopen_r := \<lambda>f. if f = ''/v/src/table/id-table'' then Inl 13 else Inr []\<rparr>"
  have "chosen_table ?env (''/v'' @ cmd_sfx) = Some ''/v/src/table/id-table''"
    by (simp add: chosen_table_def cmd_sfx_def tbl_sfx_def default_id_table_def)
  with incbot_chooses_table [of ?env "''incbot''" "''/v'' @ cmd_sfx" "[''a.c'']"] show ?thesis
    by (simp add: cstring_def cmd_sfx_def uc_def operand_def read_id_table_file_def announce_table_def
        eprintf_def static_incbot_def)
qed

text \<open>\<open>-vz --bogus a.c\<close>: a group with an unknown letter and an unknown long name.\<close>

lemma ex_bad_line:
  "option_line [Asked Verbose, Wrong (unknown_short CHR ''z''), Wrong (unknown_long ''--bogus'')] [''a.c'']
    [''-vz'', ''--bogus'', ''a.c'']"
proof -
  note unknown = short_option_def optstring_def long_option_def long_options_def
  have "reads (Asked Verbose) [''-vz'', ''--bogus'', ''a.c''] [''-z'', ''--bogus'', ''a.c'']"
    by (rule flag_in_group) simp_all
  moreover have "reads (Wrong (unknown_short CHR ''z'')) [''-z'', ''--bogus'', ''a.c''] [''--bogus'', ''a.c'']"
    by (rule bad_letter) (simp_all add: unknown)
  moreover have "reads (Wrong (unknown_long ''--bogus'')) [''--bogus'', ''a.c''] [''a.c'']"
    using bad_name [of "''bogus''" "[]" "[''a.c'']"] by (simp add: unknown)
  moreover have "option_line [] [''a.c''] [''a.c'']" by (rule no_options) (simp add: operand_def)
  ultimately show ?thesis by (blast intro: item)
qed

theorem incbot_bad_options_witness:
  "\<exists>st. main_prog ex_env ''/bin/incbot'' [''-vz'', ''--bogus'', ''a.c''] = Inr (1, st) \<and> err_count st = 2 \<and>
    stdout_text (lib st) = [] \<and> stderr_text (lib st) = [] \<and>
    errprint_text (lib st) = ''incbot: unknown short option, '' @ quoted ''z'' @ [CHR 0x0A] @
      ''incbot: unknown long option, '' @ quoted ''--bogus'' @ [CHR 0x0A] @ operands_text [''a.c''] @
      ''usage: incbot [ <options> ]'' @ [CHR 0x0A] @ usage_text"
proof -
  have "sname ''/bin/incbot'' = ''incbot''" by (simp add: sname_def sc_def uc_def)
  moreover have "list_all seven_bit [''-vz'', ''--bogus'', ''a.c'']" by (simp add: uc_def)
  ultimately show ?thesis
    using incbot_bad_options [OF ex_bad_line, of ex_env "\<lambda>t. []" "''/bin/incbot''"]
    by (simp add: ids_ok_def unknown_short_def unknown_long_def uc_def too_many_def numeral_2_eq_2)
qed

end
