(* ===== verification/Safely.thy ===== *)
theory Safely
  imports CommandSpec
begin

text \<open>
  A small logic for the claim that a function comes to an end, whatever its input:
  \<open>safely P m\<close> says that the computation \<open>m\<close> does not run for ever, and that \<open>P\<close> holds of its
  result if it returns one; it may also stop the program or leave the defined part of C. The
  rules in \<open>safe\<close> follow the structure of a function. The invariant that the components share
  is that the two dictionaries, if they exist, are valid: then no walk along a chain is endless.
\<close>

section \<open>The logic\<close>

definition safely :: "('a \<Rightarrow> bool) \<Rightarrow> 'a outcome \<Rightarrow> bool" where
  "safely P m \<longleftrightarrow> (case m of Inl h \<Rightarrow> h \<noteq> Diverge | Inr x \<Rightarrow> P x)"

named_theorems safe

lemma safely_simps [simp]:
  "safely P (Inr x) = P x" "safely P (Inl h) = (h \<noteq> Diverge)"
  by (simp_all add: safely_def)

lemma safely_andthen:
  "safely P m \<Longrightarrow> (\<And>x. P x \<Longrightarrow> safely Q (f x)) \<Longrightarrow> safely Q (andthen m f)"
  by (cases m) auto

lemma safely_mono: "safely P m \<Longrightarrow> (\<And>x. P x \<Longrightarrow> Q x) \<Longrightarrow> safely Q m"
  by (cases m) auto

lemma safely_if [safe]: "(b \<Longrightarrow> safely P m) \<Longrightarrow> (\<not> b \<Longrightarrow> safely P n) \<Longrightarrow> safely P (if b then m else n)"
  by simp

lemma safely_top: "m \<noteq> Inl Diverge \<longleftrightarrow> safely (\<lambda>_. True) m"
  by (cases m) auto

text \<open>Steps that change no part of the state the invariants speak of.\<close>

lemma safely_quiet:
  "safely (\<lambda>_. True) m \<Longrightarrow> (\<And>x. m = Inr x \<Longrightarrow> safely Q (f x)) \<Longrightarrow> safely Q (andthen m f)"
  by (cases m) auto

lemma safely_arr: "safely (\<lambda>_. True) (arr_get a i)" "safely (\<lambda>_. True) (arr_set a i x)"
  by (simp_all add: arr_get_def arr_set_def split: option.split)

lemmas safely_cells [safe] = safely_arr [THEN safely_quiet]

section \<open>Dictionaries\<close>

lemma safely_getname: "safely (\<lambda>_. True) (dict_getname_nr d n)"
  by (auto simp: dict_getname_nr_def sv_get_def Let_def intro!: safely_quiet safely_arr)

lemmas safely_name [safe] = safely_getname [THEN safely_quiet]

lemma safely_find: "dict_inv d \<Longrightarrow> cstring s \<Longrightarrow> safely (\<lambda>r. dict_inv (snd r)) (dict_find d s)"
  using dict.find_spec [of d s] by auto

lemma safely_add: "dict_inv d \<Longrightarrow> cstring s \<Longrightarrow> safely (\<lambda>r. dict_inv (snd r)) (dict_add d s)"
  using dict.add_spec [of d s] by auto

section \<open>The invariant of the library\<close>

definition dicts_ok :: "incbot \<Rightarrow> bool" where
  "dicts_ok st \<longleftrightarrow> pred_option dict_inv (id_symtable st) \<and> pred_option dict_inv (strtable st)"

lemma dicts_ok_simps [simp]:
  "dicts_ok (st\<lparr>id_table := a\<rparr>) = dicts_ok st" "dicts_ok (st\<lparr>id_table_sz := n\<rparr>) = dicts_ok st"
  "dicts_ok (st\<lparr>id_table_len := n\<rparr>) = dicts_ok st" "dicts_ok (st\<lparr>ref_inc_table := r\<rparr>) = dicts_ok st"
  "dicts_ok (st\<lparr>ref_inc_table_sz := n\<rparr>) = dicts_ok st"
  "dicts_ok (st\<lparr>ref_inc_table_len := n\<rparr>) = dicts_ok st"
  "dicts_ok (st\<lparr>stderr_text := t\<rparr>) = dicts_ok st" "dicts_ok (st\<lparr>stdout_text := t\<rparr>) = dicts_ok st"
  "dicts_ok (st\<lparr>errprint_text := t\<rparr>) = dicts_ok st" "dicts_ok (eprintf t st) = dicts_ok st"
  "dicts_ok (st\<lparr>debug := b\<rparr>) = dicts_ok st" "dicts_ok (dbg_printf t st) = dicts_ok st"
  "dicts_ok (announce_table verb fname st) = dicts_ok st"
  "dicts_ok (id_table_grow st) = dicts_ok st" "dicts_ok (ref_inc_table_grow st) = dicts_ok st"
  "dicts_ok static_incbot" "dicts_ok (init_tables st)"
  by (simp_all add: dicts_ok_def eprintf_def dbg_printf_def announce_table_def id_table_grow_def ref_inc_table_grow_def static_incbot_def
      init_tables_def dict.inv_new)

lemma dicts_ok_new:
  "dicts_ok st \<Longrightarrow> dict_inv d \<Longrightarrow> dicts_ok (st\<lparr>id_symtable := Some d\<rparr>)"
  "dicts_ok st \<Longrightarrow> dict_inv d \<Longrightarrow> dicts_ok (st\<lparr>strtable := Some d\<rparr>)"
  by (simp_all add: dicts_ok_def)

lemma safely_strtable_add: "dicts_ok st \<Longrightarrow> cstring s \<Longrightarrow> safely (\<lambda>r. dicts_ok (snd r)) (strtable_add st s)"
  using safely_add [of "the (strtable st)" s]
  by (cases "strtable st") (auto simp: strtable_add_def dicts_ok_def elim!: safely_andthen)

lemma safely_symtable_add: "dicts_ok st \<Longrightarrow> cstring s \<Longrightarrow> safely (\<lambda>r. dicts_ok (snd r)) (symtable_add st s)"
  using safely_add [of "the (id_symtable st)" s]
  by (cases "id_symtable st") (auto simp: symtable_add_def dicts_ok_def elim!: safely_andthen)

lemma safely_ent_update: "dicts_ok st \<Longrightarrow> safely dicts_ok (id_ent_update st f)"
  unfolding id_ent_update_def by (intro safe) simp

lemma safely_add_field:
  assumes "dicts_ok st" and "cstring s"
  shows "safely dicts_ok (add_id_field st s i)"
proof -
  have str: "safely dicts_ok (andthen (strtable_add st' s) (\<lambda>(n, st). id_ent_update st (f n)))"
    and sym: "safely dicts_ok (andthen (symtable_add st' s) (\<lambda>(n, st). id_ent_update st (f n)))"
    if "dicts_ok st'" for st' f
    using safely_strtable_add [OF that assms(2)] safely_symtable_add [OF that assms(2)]
    by (auto elim!: safely_andthen intro: safely_ent_update)
  have zero: "safely dicts_ok (andthen (arr_set (id_table st') k x) (\<lambda>a. Inr (st'\<lparr>id_table := a\<rparr>)))"
    if "dicts_ok st'" for st' k x
    using that by (intro safe) simp
  have "safely dicts_ok (set_id_field st' s i)" if "dicts_ok st'" for st'
    unfolding set_id_field_def using str [OF that] sym [OF that] zero [OF that] that
    by (intro safely_if) auto
  then show ?thesis using assms(1) by (simp add: add_id_field_def Let_def)
qed

lemma safely_id_find:
  assumes "dicts_ok st" and "cstring s"
  shows "safely (\<lambda>r. dicts_ok (snd r)) (id_find st s m)"
proof (cases "id_symtable st")
  case None
  then show ?thesis by (simp add: id_find_def)
next
  case (Some d)
  with assms have "safely (\<lambda>r. dict_inv (snd r)) (dict_find d s)"
    by (intro safely_find) (simp_all add: dicts_ok_def)
  then show ?thesis using assms(1) Some
    unfolding id_find_def
    by (auto simp: Let_def dicts_ok_new elim!: safely_andthen intro!: safely_andthen [OF safely_arr(1)])
qed

lemma safely_trace_identifier:
  "dicts_ok st \<Longrightarrow> cstring s \<Longrightarrow> safely (\<lambda>r. dicts_ok (snd r)) (trace_identifier st s)"
  unfolding trace_identifier_def
  by (rule safely_andthen, erule (1) safely_id_find) (auto intro!: safe)

section \<open>Reading an id-table\<close>

lemma safely_end_field:
  "dicts_ok st \<Longrightarrow> safely (\<lambda>r. case r of Inl q \<Rightarrow> dicts_ok (snd q) | Inr q \<Rightarrow> dicts_ok (fst q))
     (end_field st fname l c)"
  unfolding end_field_def
  by (auto intro!: safely_andthen [OF safely_add_field] simp: Let_def)

lemma safely_read_loop: "dicts_ok st \<Longrightarrow> safely (\<lambda>r. dicts_ok (snd r)) (read_loop st fname l f)"
proof (induction "length f" arbitrary: st l f rule: less_induct)
  case less
  show ?case
  proof (cases f)
    case Nil
    with less.prems show ?thesis by (simp add: read_loop.simps)
  next
    case (Cons x xs)
    obtain c f1 where cf: "(if uc x = chHASH \<and> lcol l = 0 then skip_comment xs else (uc x, xs)) = (c, f1)"
      by (cases "if uc x = chHASH \<and> lcol l = 0 then skip_comment xs else (uc x, xs)")
    have f1: "length f1 < length f"
      using cf skip_comment_shorter [of c f1 xs] by (auto simp: Cons split: if_splits)
    have again: "safely (\<lambda>r. dicts_ok (snd r)) (read_loop st' fname l' f')"
      if "dicts_ok st'" "length f' < length f" for st' l' f'
      using less.hyps that by blast
    obtain c2 f2 where f2: "skip_field f1 = (c2, f2)" by (cases "skip_field f1")
    then have "length f2 < length f" using skip_field_shorter [of c2 f2 f1] f1 by simp
    with f2 less.prems f1 show ?thesis
      unfolding Cons read_loop.simps(2) [of st fname l x xs] cf Let_def prod.case
      by (intro safely_if)
        (auto intro!: again safely_andthen [OF safely_end_field] simp: Cons split: sum.splits)
  qed
qed

lemma safely_read_stream:
  "dicts_ok st \<Longrightarrow> safely (\<lambda>r. dicts_ok (snd r)) (read_id_table_stream st f fname)"
  by (simp add: read_id_table_stream_def safely_read_loop Let_def)

lemma safely_verify_from: "safely (\<lambda>_. True) (verify_from st pos k)"
proof (induction st pos k rule: verify_from.induct)
  case (1 st pos k)
  then show ?case
    by (subst verify_from.simps) (auto simp: Let_def split_beta intro!: safely_if safely_cells safely_quiet)
qed

lemma safely_read_file:
  "dicts_ok st \<Longrightarrow> safely (\<lambda>r. dicts_ok (snd r)) (read_id_table_file verb st fname src)"
  unfolding read_id_table_file_def verify_idtable_def
  by (cases src)
    (auto intro!: safely_andthen [OF safely_read_stream] safely_quiet [OF safely_verify_from]
      simp: andthen_assoc)

section \<open>Scanning\<close>

lemma safely_dbg_arg: "safely (\<lambda>_. True) (dbg_arg st x)"
  by (simp add: dbg_arg_def split: option.split)

lemma safely_report_ref: "dicts_ok st \<Longrightarrow> safely dicts_ok (report_ref st d e x fname k)"
  unfolding report_ref_def Let_def
  by (auto intro!: safely_quiet [OF safely_dbg_arg] safely_andthen [where P = dicts_ok] safely_name)

lemma safely_record_ref: "dicts_ok st \<Longrightarrow> safely dicts_ok (record_ref st n fname k)"
proof -
  assume ok: "dicts_ok st"
  have add: "safely dicts_ok (add_ref_inc_pair st i r n k)" for i r n k
    unfolding add_ref_inc_pair_def Let_def using ok by (auto intro!: safe)
  show ?thesis
    unfolding record_ref_def using ok
    by (auto intro!: safe safely_andthen [where P = dicts_ok] add safely_report_ref split: option.split)
qed

lemma safely_lookup_ident:
  "dicts_ok st \<Longrightarrow> cstring s \<Longrightarrow> safely (\<lambda>r. dicts_ok (fst r)) (lookup_ident st fname l s m c r)"
  unfolding lookup_ident_def
  by (rule safely_andthen, erule (1) safely_id_find)
    (auto intro!: safely_andthen [where P = dicts_ok] safely_record_ref simp: Let_def)

text \<open>One identifier, with a reader that has fewer characters left after it.\<close>

lemma safely_ident_step:
  assumes "dicts_ok st" and r: "reader_ok r" and c: "is_identifier_start c"
  shows "safely (\<lambda>(st', nx). dicts_ok st' \<and>
      (\<forall>l' r'. nx = Some (l', r') \<longrightarrow> reader_ok r' \<and> length (pending r') \<le> length (pending r)))
    (ident_step st fname l c r)"
proof (cases "length (takeWhile is_identifier (pending r)) + 1 < IDBUF_SZ")
  case False
  with ident_overflow [OF r, of st fname l c] show ?thesis by simp
next
  case True
  obtain ocs l' cs' where sc: "scan_ident l c (pending r) = (ocs, l', cs')"
    by (cases "scan_ident l c (pending r)")
  note short = scan_ident_shorter [OF sc]
  from ident_step_lookup [OF r c sc True] show ?thesis
  proof
    assume "ocs = [] \<and> cs' = [] \<and> (\<forall>st fname. ident_step st fname l c r = Inr (st, None))"
    with assms(1) show ?thesis by simp
  next
    assume "\<exists>oc. ocs = [oc] \<and> looks_up l c r oc l' cs'"
    then obtain oc where o: "looks_up l c r oc l' cs'" by blast
    from o [unfolded looks_up_def] obtain l1 c2 r3 where cs: "cstring (oc_name oc)"
      and r3: "reader_ok r3" "pending r3 = cs'"
      and step: "\<forall>st fname. ident_step st fname l c r = lookup_ident st fname l1 (oc_name oc) (find_mask (oc_call oc)) c2 r3"
      by (elim exE conjE) blast
    from safely_lookup_ident [OF assms(1) cs, of fname l1 "find_mask (oc_call oc)" c2 r3] step [rule_format, of st fname]
    show ?thesis using r3 short
      by (cases "lookup_ident st fname l1 (oc_name oc) (find_mask (oc_call oc)) c2 r3")
        (auto dest: lookup_ident_reader)
  qed
qed

lemma safely_src_loop:
  "dicts_ok st \<Longrightarrow> reader_ok r \<Longrightarrow> safely (\<lambda>r. dicts_ok (snd r)) (src_loop st fname l r)"
proof (induction "length (pending r)" arbitrary: st l r rule: less_induct)
  case less
  from cf_getc_pending [OF less.prems(2)] obtain r1 where
    g: "cf_getc r = Inr (first (pending r), r1)" and r1: "pending r1 = tl (pending r)" "reader_ok r1"
    by blast
  show ?case
  proof (cases "pending r")
    case Nil
    with g less.prems(1) show ?thesis by (simp add: src_loop.simps [of st fname l r])
  next
    case (Cons c cs)
    then have c: "c \<noteq> EOF" and shorter: "length (pending r1) < length (pending r)"
      using src.no_EOF [OF less.prems(2)] r1(1) by auto
    show ?thesis
    proof (cases "is_identifier_start c")
      case False
      with less.hyps [OF shorter less.prems(1) r1(2)] g c Cons show ?thesis
        by (simp add: src_loop.simps [of st fname l r] Let_def)
    next
      case True
      have "safely (\<lambda>r. dicts_ok (snd r)) (andthen (ident_step st fname (track l c) c r1) (\<lambda>(st', next).
          case next of None \<Rightarrow> Inr (0, st') | Some (l', r'') \<Rightarrow> src_loop st' fname l' r''))"
        using shorter
        by (intro safely_andthen [OF safely_ident_step [OF less.prems(1) r1(2) True]])
          (auto split: option.split intro!: less.hyps)
      with g c Cons True show ?thesis by (simp add: src_loop.simps [of st fname l r] Let_def)
    qed
  qed
qed

lemma safely_src_file:
  "dicts_ok st \<Longrightarrow> safely (\<lambda>r. dicts_ok (snd r)) (incbot_src_file fs t st f)"
  by (auto simp: incbot_src_file_def incbot_src_stream_def intro: safely_src_loop split: sum.split)

section \<open>Showing the includes\<close>

lemma safely_name_of: "safely (\<lambda>_. True) (name_of t n)"
  by (auto simp: name_of_def intro!: safely_name split: option.split)

lemma safely_refcmp: "safely (\<lambda>_. True) (refcmp st a b)"
  by (auto simp: refcmp_def Let_def intro!: safely_quiet [OF safely_name_of])

lemma safely_qinsert: "(\<And>a b. safely (\<lambda>_. True) (cmp a b)) \<Longrightarrow> safely (\<lambda>_. True) (qinsert cmp x ys)"
  by (induction ys) (auto intro!: safely_quiet)

lemma safely_qsort: "(\<And>a b. safely (\<lambda>_. True) (cmp a b)) \<Longrightarrow> safely (\<lambda>_. True) (c_qsort cmp xs)"
  by (induction xs) (auto intro!: safely_quiet safely_qinsert)

lemma safely_include_loop: "safely (\<lambda>_. True) (include_loop s p1 p2)"
proof (induction s p1 p2 rule: include_loop.induct)
  case (1 s p1 p2)
  then show ?case by (subst include_loop.simps) (auto simp: Let_def intro!: safely_quiet)
qed

lemma dicts_ok_put [simp]: "dicts_ok (put werr s st) = dicts_ok st"
  by (simp add: put_def fputs_stdout_def Let_def)

lemma dicts_ok_puts [simp]: "dicts_ok (puts werr ws st) = dicts_ok st"
  by (induction ws arbitrary: st) (simp_all add: puts_def)

lemma safely_write: "dicts_ok st \<Longrightarrow> safely dicts_ok (write_guarded werr s st)"
  by (auto simp: write_guarded_def write_str_def fputs_stdout_def io_guard_def Let_def)

lemma safely_header: "dicts_ok st \<Longrightarrow> safely dicts_ok (show_header werr n st)"
  by (auto simp: show_header_def
      intro!: safely_quiet [OF safely_name_of] safely_quiet [OF safely_include_loop])

lemma safely_import: "dicts_ok st \<Longrightarrow> safely dicts_ok (show_import werr n e st)"
  by (auto simp: show_import_def intro!: safely_quiet [OF safely_name_of] safely_cells
      safely_andthen [where P = dicts_ok] safely_write)

lemma safely_show_loop: "dicts_ok st \<Longrightarrow> safely dicts_ok (show_loop werr st i n rs)"
proof (induction rs arbitrary: st i n)
  case Nil
  then show ?case by simp
next
  case (Cons r rs)
  have first: "safely (\<lambda>q. dicts_ok (fst q))
      (if i \<noteq> Some (inc_sym r) then andthen (show_header werr (inc_sym r) st) (\<lambda>st. Inr (st, undef_symnr))
       else Inr (st, n))"
    using Cons.prems by (auto intro!: safely_andthen [OF safely_header])
  show ?case
    using Cons.IH
    by (simp only: show_loop.simps)
      (intro safely_andthen [OF first],
        auto intro!: safely_andthen [where P = dicts_ok] safely_import)
qed

lemma safely_arr_take: "safely (\<lambda>_. True) (arr_take a n)"
  by (induction n) (auto intro!: safely_quiet safely_arr)

lemma safely_show_includes: "dicts_ok st \<Longrightarrow> safely dicts_ok (show_includes werr st)"
  unfolding show_includes_def Let_def
  by (auto intro!: safely_quiet [OF safely_arr_take] safely_quiet [OF safely_qsort [OF safely_refcmp]]
      safely_show_loop)

section \<open>Options, files and the whole run\<close>

lemma safely_fname_probe: "safely (\<lambda>_. True) (show_chars s)" "safely (\<lambda>_. True) (fname_probe access f)"
proof -
  show chars: "safely (\<lambda>_. True) (show_chars s)" for s by (simp add: show_chars_spec)
  show "safely (\<lambda>_. True) (fname_probe access f)"
    by (auto simp: fname_probe_def fshow_fname_def Let_def intro!: safely_quiet [OF chars])
qed

lemma safely_filev_probe: "safely (\<lambda>_. True) (filev_probe access fs)"
proof -
  have "safely (\<lambda>_. True) (probe_loop access rv fs)" for rv
    by (induction fs arbitrary: rv) (auto intro!: safely_quiet [OF safely_fname_probe(2)] safely_quiet)
  then show ?thesis by (simp add: filev_probe_def)
qed

lemma safely_show_array: "safely (\<lambda>_. True) (fshow_str_array av)"
proof -
  have "safely (\<lambda>_. True) (show_array_from w i av)" for w i
    by (induction av arbitrary: i)
      (auto simp: fshow_str_def intro!: safely_quiet [OF safely_fname_probe(1)] safely_quiet)
  then show ?thesis by (simp add: fshow_str_array_def)
qed

text \<open>The state of the command; the identifiers to trace are strings that \<open>main\<close> was given.\<close>

definition cmd_ok :: "cmd \<Rightarrow> bool" where
  "cmd_ok st \<longleftrightarrow> dicts_ok (lib st) \<and> list_all cstring (trcv st)"

lemma cmd_ok_simps [simp]:
  "cmd_ok (st\<lparr>verbose := b\<rparr>) = cmd_ok st"
  "cmd_ok (st\<lparr>have_id_table := b\<rparr>) = cmd_ok st" "cmd_ok (st\<lparr>err_count := n\<rparr>) = cmd_ok st"
  "cmd_ok (st\<lparr>errprint_fh := h\<rparr>) = cmd_ok st" "cmd_ok (st\<lparr>dbgprint_fh := h\<rparr>) = cmd_ok st"
  "cmd_ok (eprint s st) = cmd_ok st" "cmd_ok (print_out env ws st) = cmd_ok st"
  "cmd_ok (st\<lparr>lib := lib st\<lparr>debug := b\<rparr>\<rparr>) = cmd_ok st"
  "cmd_ok (usage name st) = cmd_ok st" "cmd_ok (show_program_version env st) = cmd_ok st"
  "cmd_ok static_cmd"
  by (simp_all add: cmd_ok_def eprint_def print_out_def usage_def show_program_version_def static_cmd_def)

lemma cmd_ok_lib: "cmd_ok st \<Longrightarrow> dicts_ok l \<Longrightarrow> cmd_ok (st\<lparr>lib := l\<rparr>)"
  by (simp add: cmd_ok_def)

abbreviation ends_or_goes_on :: "(int \<times> cmd + cmd) \<Rightarrow> bool" where
  "ends_or_goes_on r \<equiv> (case r of Inl stop \<Rightarrow> cmd_ok (snd stop) | Inr st \<Rightarrow> cmd_ok st)"

lemma safely_load_table: "cmd_ok st \<Longrightarrow> safely (\<lambda>r. cmd_ok (snd r)) (load_table env fname st)"
  unfolding load_table_def
  by (rule safely_andthen, rule safely_read_file)
    (auto simp: cmd_ok_lib announce_table_def, simp_all add: cmd_ok_def)

lemma safely_the_arg: "pred_option cstring a \<Longrightarrow> safely cstring (the_arg a)"
  by (cases a) (simp_all add: the_arg_def)

lemma safely_handle_opt:
  assumes "cmd_ok st" and "pred_option cstring optarg"
  shows "safely ends_or_goes_on (handle_opt env name optc optarg optop this st)"
proof -
  have trace: "safely cmd_ok (add_trace_identifiers s st)" if "cstring s" for s
    using assms(1) that by (simp add: add_trace_identifiers_def cmd_ok_def)
  show ?thesis
    unfolding handle_opt_def Let_def using assms
    by (intro safely_if)
      (auto simp: read_config_file_def intro!: safely_andthen [OF safely_the_arg] 
        safely_andthen [OF safely_load_table] safely_andthen [OF trace])
qed

text \<open>An argument of an option is a part of an element of \<open>argv\<close>, so it has no zero in it.\<close>

definition scan_ok :: "getopt \<Rightarrow> bool" where
  "scan_ok gs \<longleftrightarrow> cstring (nextchar gs) \<and> list_all cstring (argv_rest gs)"

lemma cstring_parts:
  "cstring s \<Longrightarrow> cstring (tl s)" "cstring s \<Longrightarrow> cstring (drop n s)"
  by (auto simp: cstring_def dest: in_set_dropD list.set_sel(2) [rotated]) (cases s; simp)

lemma list_all_tl: "list_all P xs \<Longrightarrow> list_all P (tl xs)"
  by (cases xs) simp_all

lemma getopt_short_ok:
  assumes "getopt_short gs s = (c, arg, gs')" and "scan_ok gs" and "cstring s"
  shows "pred_option cstring arg \<and> scan_ok gs'"
proof (cases s)
  case Nil
  with assms show ?thesis by auto
next
  case (Cons a as)
  with assms have "cstring as" "list_all cstring (tl (argv_rest gs))" "cstring []"
    by (auto simp: scan_ok_def cstring_def intro: list_all_tl)
  with assms Cons show ?thesis
    by (auto simp: scan_ok_def Let_def split: option.splits bool.splits if_splits list.splits)
qed

lemma getopt_name_ok:
  assumes "getopt_name gs s = (c, arg, gs')" and "scan_ok gs" and "cstring s"
  shows "pred_option cstring arg \<and> scan_ok gs'"
proof -
  have "list_all cstring (tl (argv_rest gs))" "cstring []"
    using assms(2) by (auto simp: scan_ok_def cstring_def intro: list_all_tl)
  with assms cstring_parts show ?thesis
    by (auto simp: getopt_name_def scan_ok_def Let_def
        split: option.splits bool.splits if_splits list.splits prod.splits)
qed

lemma getopt_ok:
  assumes "getopt_long gs = (c, arg, gs')" and "scan_ok gs"
  shows "pred_option cstring arg \<and> scan_ok gs'"
proof -
  have parts: "cstring (tl a)" "cstring (drop 2 a)" "cstring (nextchar gs)" if "a \<in> set (argv_rest gs)" for a
    using assms(2) that cstring_parts by (auto simp: scan_ok_def list_all_iff)
  from assms parts show ?thesis
    by (auto simp: getopt_long_def dest: getopt_short_ok getopt_name_ok
        split: if_splits list.splits) (auto simp: scan_ok_def dest: getopt_short_ok)
qed

lemma safely_opt_loop:
  "scan_ok gs \<Longrightarrow> cmd_ok st \<Longrightarrow>
   safely (\<lambda>r. case r of Inl stop \<Rightarrow> cmd_ok (snd stop) | Inr q \<Rightarrow> cmd_ok (snd q)) (opt_loop env name gs st)"
proof (induction "unscanned gs" arbitrary: gs st rule: less_induct)
  case less
  obtain c arg gs' where g: "getopt_long gs = (c, arg, gs')" by (cases "getopt_long gs")
  note ok = getopt_ok [OF g less.prems(1)]
  have again: "safely (\<lambda>r. case r of Inl stop \<Rightarrow> cmd_ok (snd stop) | Inr q \<Rightarrow> cmd_ok (snd q))
      (opt_loop env name gs' st')" if "c \<noteq> -1" "cmd_ok st'" for st'
    using less.hyps [OF getopt_long_unscanned [OF g that(1)]] ok that(2) by blast
  show ?case
    using less.prems ok again
    by (subst opt_loop.simps)
      (auto simp: g Let_def split: sum.splits intro!: safely_andthen [OF safely_handle_opt])
qed

lemma safely_mark_loop:
  "list_all cstring ss \<Longrightarrow> dicts_ok l \<Longrightarrow> safely dicts_ok (mark_loop ss l)"
  by (induction ss arbitrary: l) (auto intro!: safely_andthen [OF safely_trace_identifier])

lemma safely_mark: "cmd_ok st \<Longrightarrow> safely cmd_ok (mark_all_traced_identifiers st)"
  unfolding mark_all_traced_identifiers_def
  by (rule safely_andthen, rule safely_mark_loop) (auto simp: cmd_ok_def)

lemma safely_files_loop:
  "dicts_ok l \<Longrightarrow> safely (\<lambda>r. dicts_ok (snd r)) (files_loop env sin rv l fs)"
  by (induction fs arbitrary: sin rv l)
    (auto intro!: safely_andthen [OF safely_src_file] safely_andthen [OF safely_show_includes])

lemma safely_all_files: "cmd_ok st \<Longrightarrow> safely (\<lambda>r. cmd_ok (snd r)) (incbot_all_files env fs st)"
  unfolding incbot_all_files_def Let_def
  by (auto intro!: safely_quiet [OF safely_filev_probe] safely_andthen [OF safely_files_loop] cmd_ok_lib)
    (simp add: cmd_ok_def eprint_def)

lemma safely_try_table: "cmd_ok st \<Longrightarrow> safely ends_or_goes_on (try_table env fname st)"
  by (auto simp: try_table_def intro!: safely_andthen [OF safely_load_table])

lemma safely_find_table: "cmd_ok st \<Longrightarrow> safely ends_or_goes_on (find_table env path st)"
  by (auto simp: find_table_def program_table_def Let_def
      intro!: safely_andthen [OF safely_try_table] safely_try_table split: sum.split option.split)

lemma safely_run_files: "cmd_ok st \<Longrightarrow> safely (\<lambda>r. cmd_ok (snd r)) (run_files env fs st)"
  unfolding run_files_def
  by (rule safely_andthen, erule safely_mark)
    (auto simp: Let_def intro!: safely_quiet [OF safely_filev_probe] safely_all_files)

lemma safely_show_arguments: "cmd_ok st \<Longrightarrow> safely cmd_ok (show_arguments fs st)"
  by (auto simp: show_arguments_def Let_def intro!: safely_quiet [OF safely_show_array])

lemma safely_main:
  assumes "list_all cstring args"
  shows "safely (\<lambda>r. cmd_ok (snd r)) (main_prog env path args)"
proof -
  have start: "scan_ok \<lparr>nextchar = [], argv_rest = args, optopt = chQM\<rparr>"
    using assms by (simp add: scan_ok_def cstring_def)
  have tail: "safely (\<lambda>r. cmd_ok (snd r)) (andthen (find_table env path st) (\<lambda>r. case r of
       Inl stop \<Rightarrow> Inr stop
     | Inr st \<Rightarrow> (if \<not> have_id_table st
         then Inr (2, eprint (''Could not find identifier table.'' @ [CHR 0x0A]) st)
         else run_files env fs st)))" if "cmd_ok st" for st fs
    using that by (intro safely_andthen [OF safely_find_table])
      (auto intro!: safely_run_files split: sum.split)
  show ?thesis
    unfolding main_prog_def Let_def
    by (rule safely_andthen, rule safely_opt_loop [OF start])
      (auto intro!: safely_andthen [OF safely_show_arguments] tail split: sum.split)
qed

text \<open>C4: the command never runs for ever: whatever the environment answers, whatever the files hold and
  whatever its arguments are, the run comes to an end, and if it ends with a status then the
  dictionaries are valid to the end, so that the chains of their hash tables have no cycle.\<close>

theorem main_returns:
  assumes "list_all cstring args"
  shows "main_prog env path args \<noteq> Inl Diverge \<and>
    (\<forall>rv st. main_prog env path args = Inr (rv, st) \<longrightarrow>
       pred_option dict_inv (id_symtable (lib st)) \<and> pred_option dict_inv (strtable (lib st)))"
  using safely_main [OF assms, of env path]
  by (cases "main_prog env path args") (auto simp: cmd_ok_def dicts_ok_def)

theorem main_returns_witness:
  "main_prog ex_env ''incbot'' [''-vt'', ''t'', ''--trace=open'', ''-T'', ''x'', ''a.c'', ''-''] \<noteq> Inl Diverge"
  using main_returns [of "[''-vt'', ''t'', ''--trace=open'', ''-T'', ''x'', ''a.c'', ''-'']" ex_env "''incbot''"]
  by (simp add: cstring_def uc_def)

end
