(* ===== verification/SourceText.thy ===== *)
theory SourceText
  imports ScanSpec
begin

text \<open>
  What the scanner looks up, read off the text of a C source instead of the loops of the scanner.
  \<open>words\<close> are the identifiers of a text without include directives, and the inductive
  predicate \<open>c_source\<close> is a grammar of sources with directives: it relates every text to the one
  list of identifiers that are looked up in it; its rules follow what the scanner skips, useful or
  not. \<open>c_file\<close> puts the reference lexer before it. Two specifications do not know the scanner:
  \<open>chunk\<close> is a source in lines, of text and of include directives, with the words of its text, and
  \<open>word_at\<close> is a word at any place of a text.
\<close>

section \<open>Words\<close>

text \<open>The maximal runs of identifier characters that start with a letter or an underscore, each
  with the sign whether an opening parenthesis follows it after white space.\<close>

function words :: "int list \<Rightarrow> (string \<times> bool) list" where
  "words [] = []"
| "words (c # cs) =
     (if is_identifier_start c then
        (map to_char (c # takeWhile is_identifier cs),
         first (dropWhile c_isspace (dropWhile is_identifier cs)) = chLPAR)
        # words (dropWhile is_identifier cs)
      else words cs)"
  by pat_completeness auto
termination
  by (relation "measure length") (auto simp: less_Suc_eq_le length_dropWhile_le)

lemma space_not_start: "c_isspace c \<Longrightarrow> \<not> is_identifier_start c"
  by (auto simp: c_isspace_def is_identifier_start_def c_isalpha_def)

lemma words_skip_space: "words (dropWhile c_isspace cs) = words cs"
  by (induction cs) (simp_all add: space_not_start)

lemma words_skip_one: "\<not> is_identifier_start (first cs) \<Longrightarrow> words (tl cs) = words cs"
  by (cases cs) simp_all

text \<open>
  What the loop of the scanner goes on with after an identifier: the white space after it is gone, and so is the
  next character, whatever it is, unless it starts an identifier.
\<close>

definition after_ident :: "int list \<Rightarrow> int list" where
  "after_ident cs =
     (let rest = dropWhile c_isspace (dropWhile is_identifier cs)
      in if is_identifier_start (first rest) then rest else tl rest)"

lemma after_ident_shorter: "length (after_ident cs) \<le> length cs"
proof -
  have "length (dropWhile c_isspace (dropWhile is_identifier cs)) \<le> length cs"
    by (meson length_dropWhile_le order_trans)
  then show ?thesis by (auto simp: after_ident_def Let_def)
qed

lemma after_ident_suffix: "\<exists>pre. cs = pre @ after_ident cs"
proof -
  let ?after = "dropWhile is_identifier cs"
  have "\<exists>p. xs = p @ (if is_identifier_start (first xs) then xs else tl xs)" for xs
    by (cases xs) (auto intro: exI [of _ "[]"] exI [of _ "[hd xs]"])
  then obtain p where "dropWhile c_isspace ?after = p @ after_ident cs"
    unfolding after_ident_def Let_def by blast
  then have "cs = (takeWhile is_identifier cs @ takeWhile c_isspace ?after @ p) @ after_ident cs"
    by (metis append.assoc takeWhile_dropWhile_id)
  then show ?thesis by blast
qed

lemma words_after_ident: "words (after_ident cs) = words (dropWhile is_identifier cs)"
  by (simp add: after_ident_def Let_def words_skip_one words_skip_space)

text \<open>
  Whether the loop meets a number sign at the beginning of a line. \<open>bol\<close> says that a line has just
  begun. A line end, or a number sign, that the loop skips after an identifier is not seen.
\<close>

function directive_seen :: "bool \<Rightarrow> int list \<Rightarrow> bool" where
  "directive_seen bol [] = False"
| "directive_seen bol (c # cs) =
     (if is_identifier_start c then directive_seen False (after_ident cs)
      else (bol \<and> c = chHASH) \<or> directive_seen (c = chNL) cs)"
  by pat_completeness auto
termination
  by (relation "measure (\<lambda>(bol, cs). length cs)") (auto simp: less_Suc_eq_le after_ident_shorter)

text \<open>No word of the text is taken for that of an include directive.\<close>

definition include_free :: "src_loc \<Rightarrow> int list \<Rightarrow> bool" where
  "include_free l cs \<longleftrightarrow>
     include_name \<notin> fst ` set (words cs) \<or> \<not> sl_pp l \<and> \<not> directive_seen (sl_col l = 0) cs"

lemma include_free_skip:
  assumes "include_free l (c # cs)" and "\<not> is_identifier_start c"
  shows "include_free (track l c) cs"
  using assms by (auto simp: include_free_def track_def Let_def)

lemma include_free_ident:
  assumes "include_free l (c # cs)" and "is_identifier_start c"
  shows "\<not> (sl_pp (track l c) \<and> map to_char (c # takeWhile is_identifier cs) = include_name)"
    and "include_free (track l c\<lparr>sl_col := sl_col (track l c) + n\<rparr>) (after_ident cs)"
proof -
  have c: "c \<noteq> chNL" "c \<noteq> chHASH" using assms(2) by (auto simp: is_identifier_start_def ctype_defs)
  show "\<not> (sl_pp (track l c) \<and> map to_char (c # takeWhile is_identifier cs) = include_name)"
    and "include_free (track l c\<lparr>sl_col := sl_col (track l c) + n\<rparr>) (after_ident cs)"
    using assms c by (auto simp: include_free_def track_def Let_def words_after_ident)
qed

text \<open>The identifiers looked up from a place on, without their lines.\<close>

definition used :: "src_loc \<Rightarrow> int list \<Rightarrow> (string \<times> bool) list" where
  "used l cs = map (\<lambda>oc. (oc_name oc, oc_call oc)) (scan l cs)"

lemma used_simps [simp]:
  "used l [] = []"
  "\<not> is_identifier_start c \<Longrightarrow> used l (c # cs) = used (track l c) cs"
  by (simp_all add: used_def scan.simps Let_def)

lemma used_word:
  assumes "is_identifier_start c"
    and "\<not> (sl_pp (track l c) \<and> map to_char (c # takeWhile is_identifier xs) = include_name)"
  shows "\<exists>n. used l (c # xs) =
    (map to_char (c # takeWhile is_identifier xs),
     first (dropWhile c_isspace (dropWhile is_identifier xs)) = chLPAR)
    # used (track l c\<lparr>sl_col := sl_col (track l c) + n\<rparr>) (after_ident xs)"
proof -
  let ?after = "dropWhile is_identifier xs"
  let ?n = "length (takeWhile is_identifier xs) + length (takeWhile c_isspace ?after)"
  have "scan_ident (track l c) c xs = ([\<lparr>oc_name = map to_char (c # takeWhile is_identifier xs),
      oc_call = (first (dropWhile c_isspace ?after) = chLPAR), oc_lnr = sl_lnr (track l c)\<rparr>],
      track l c\<lparr>sl_col := sl_col (track l c) + ?n\<rparr>, after_ident xs)"
    using assms(2) by (auto simp: scan_ident_def after_ident_def Let_def add.assoc simp del: list.map)
  with assms(1) show ?thesis by (auto simp: used_def scan.simps Let_def)
qed

text \<open>The last word stands at the end of the text, white space apart.\<close>

function ends_open :: "int list \<Rightarrow> bool" where
  "ends_open [] = False"
| "ends_open (c # cs) =
     (if is_identifier_start c then
        dropWhile c_isspace (dropWhile is_identifier cs) = [] \<or> ends_open (dropWhile is_identifier cs)
      else ends_open cs)"
  by pat_completeness auto
termination
  by (relation "measure length") (auto simp: less_Suc_eq_le length_dropWhile_le)

lemma ends_open_after_ident: "ends_open (after_ident cs) = ends_open (dropWhile is_identifier cs)"
proof -
  have "ends_open (dropWhile c_isspace xs) = ends_open xs" for xs
    by (induction xs) (simp_all add: space_not_start)
  moreover have "\<not> is_identifier_start (first xs) \<Longrightarrow> ends_open (tl xs) = ends_open xs" for xs
    by (cases xs) simp_all
  ultimately show ?thesis by (simp add: after_ident_def Let_def)
qed

text \<open>What follows a word, other than white space, does not depend on the text behind it.\<close>

lemma after_ident_append:
  assumes "dropWhile c_isspace (dropWhile is_identifier xs) \<noteq> []"
  shows "takeWhile is_identifier (xs @ zs) = takeWhile is_identifier xs"
    and "dropWhile c_isspace (dropWhile is_identifier (xs @ zs)) =
      dropWhile c_isspace (dropWhile is_identifier xs) @ zs"
    and "first (dropWhile c_isspace (dropWhile is_identifier xs) @ zs) =
      first (dropWhile c_isspace (dropWhile is_identifier xs))"
    and "after_ident (xs @ zs) = after_ident xs @ zs"
proof -
  let ?rest = "dropWhile c_isspace (dropWhile is_identifier xs)"
  from assms obtain x y where x: "x \<in> set xs" "\<not> is_identifier x"
    and y: "y \<in> set (dropWhile is_identifier xs)" "\<not> c_isspace y"
    by (metis dropWhile.simps(1) dropWhile_eq_Nil_conv)
  show "takeWhile is_identifier (xs @ zs) = takeWhile is_identifier xs"
    and "dropWhile c_isspace (dropWhile is_identifier (xs @ zs)) = ?rest @ zs"
    using dropWhile_append1 [of x xs is_identifier zs] takeWhile_append1 [of x xs is_identifier zs]
      dropWhile_append1 [of y "dropWhile is_identifier xs" c_isspace zs] x y
    by simp_all
  then show "first (?rest @ zs) = first ?rest" and "after_ident (xs @ zs) = after_ident xs @ zs"
    using assms by (cases ?rest; auto simp: after_ident_def Let_def)+
qed

text \<open>A text without include directives, and what follows it.\<close>

lemma used_words:
  "include_free l cs \<Longrightarrow> zs = [] \<or> \<not> ends_open cs \<Longrightarrow> \<exists>l'. used l (cs @ zs) = words cs @ used l' zs"
proof (induction "length cs" arbitrary: l cs rule: less_induct)
  case less
  show ?case
  proof (cases cs)
    case Nil
    then show ?thesis by auto
  next
    case (Cons c xs)
    show ?thesis
    proof (cases "is_identifier_start c")
      case False
      with less.hyps [of xs "track l c"] include_free_skip [of l c xs] less.prems show ?thesis
        by (simp add: Cons)
    next
      case True
      let ?rest = "dropWhile c_isspace (dropWhile is_identifier xs)"
      have eqs: "takeWhile is_identifier (xs @ zs) = takeWhile is_identifier xs"
        "first (dropWhile c_isspace (dropWhile is_identifier (xs @ zs))) = first ?rest"
        "after_ident (xs @ zs) = after_ident xs @ zs"
        using after_ident_append [of xs zs] less.prems(2) True by (cases "zs = []"; simp add: Cons)+
      note free = include_free_ident [OF less.prems(1) [unfolded Cons] True]
      from used_word [OF True, of l "xs @ zs"] free(1) obtain n where
        n: "used l (cs @ zs) = (map to_char (c # takeWhile is_identifier xs), first ?rest = chLPAR)
          # used (track l c\<lparr>sl_col := sl_col (track l c) + n\<rparr>) (after_ident xs @ zs)"
        by (auto simp: Cons eqs)
      have "zs = [] \<or> \<not> ends_open (after_ident xs)"
        using less.prems(2) True by (auto simp: Cons ends_open_after_ident)
      from less.hyps [OF _ free(2) this] after_ident_shorter [of xs] n True show ?thesis
        by (auto simp: Cons words_after_ident less_Suc_eq_le)
    qed
  qed
qed

section \<open>A grammar of sources\<close>

text \<open>
  What follows the word \<open>include\<close> of a directive: the first character that is not white space, and
  the characters up to the end of its line.
\<close>

definition include_tail :: "int list \<Rightarrow> bool" where
  "include_tail cs \<longleftrightarrow>
     (cs = [] \<or> \<not> is_identifier (hd cs)) \<and> chNL \<notin> set (dropWhile c_isspace cs)"

text \<open>Whether the loop meets a line end, other than those it skips behind an identifier.\<close>

function line_end_seen :: "int list \<Rightarrow> bool" where
  "line_end_seen [] = False"
| "line_end_seen (c # cs) =
     (if is_identifier_start c then line_end_seen (after_ident cs) else c = chNL \<or> line_end_seen cs)"
  by pat_completeness auto
termination
  by (relation "measure length") (auto simp: less_Suc_eq_le after_ident_shorter)

text \<open>What stands between the number sign of a directive and the word \<open>include\<close>, mostly nothing or
  blanks, is on the same line, as far as the loop sees lines, and does not run into the word.\<close>

definition include_head :: "int list \<Rightarrow> bool" where
  "include_head cs \<longleftrightarrow>
     \<not> line_end_seen cs \<and> include_name \<notin> fst ` set (words cs) \<and> (ends_open cs \<longrightarrow> c_isspace (last cs))"

abbreviation include_word :: "int list" where
  "include_word \<equiv> [105, 110, 99, 108, 117, 100, 101]"

text \<open>
  \<open>c_source d cs ws\<close>: the identifiers looked up in the text \<open>cs\<close> are \<open>ws\<close>; \<open>d\<close> says that the text
  begins inside a directive, after its number sign.

  \<^item> \<open>last\<close> and \<open>lines\<close>: a text without an include directive gives its words. Other text may follow
    in a new line if the last word is not at the end of the line before.
  \<^item> \<open>hash\<close>: a number sign at the beginning of a line starts a directive.
  \<^item> \<open>directive\<close>: of an include directive only the word \<open>include\<close> is looked up. If nothing but white
    space is left of the line, as with a header in quotes, the next line that is not empty is
    dropped in the place of the name of the header.
  \<^item> \<open>directive_end\<close>: in a last line without a line end, \<open>include\<close> is not looked up either.
\<close>

inductive c_source :: "bool \<Rightarrow> int list \<Rightarrow> (string \<times> bool) list \<Rightarrow> bool" where
  last: "include_name \<notin> fst ` set (words cs) \<or> \<not> d \<and> \<not> directive_seen True cs \<Longrightarrow>
    c_source d cs (words cs)"
| lines: "include_name \<notin> fst ` set (words cs) \<or> \<not> d \<and> \<not> directive_seen True cs \<Longrightarrow>
    \<not> ends_open cs \<Longrightarrow> c_source False rest ws \<Longrightarrow>
    c_source d (cs @ chNL # rest) (words cs @ ws)"
| hash: "c_source True rest ws \<Longrightarrow> c_source False (chHASH # rest) ws"
| directive: "include_head b \<Longrightarrow> include_tail cs \<Longrightarrow> dropWhile c_isspace cs \<noteq> [] \<Longrightarrow>
    c_source False rest ws \<Longrightarrow>
    c_source True (b @ include_word @ cs @ chNL # rest)
      (words b @ (include_name, first (dropWhile c_isspace cs) = chLPAR) # ws)"
| directive_end: "include_head b \<Longrightarrow> include_tail cs \<Longrightarrow> c_source True (b @ include_word @ cs) (words b)"

text \<open>The scanner's flag inside and outside of a directive.\<close>

definition in_directive :: "bool \<Rightarrow> src_loc \<Rightarrow> bool" where
  "in_directive d l \<longleftrightarrow> (if d then sl_pp l \<and> 0 < sl_col l else \<not> sl_pp l \<and> sl_col l = 0)"

lemma used_newline: "\<exists>l'. in_directive False l' \<and> used l (chNL # rest) = used l' rest"
  by (intro exI [of _ "track l chNL"])
    (simp add: in_directive_def track_def Let_def is_identifier_start_def ctype_defs)

lemma in_directive_track: "in_directive True l \<Longrightarrow> c \<noteq> chNL \<Longrightarrow> in_directive True (track l c)"
  by (auto simp: in_directive_def track_def Let_def)

lemma in_directive_col: "in_directive True l \<Longrightarrow> in_directive True (l\<lparr>sl_col := sl_col l + n\<rparr>)"
  by (simp add: in_directive_def)

lemma include_start: "is_identifier_start 105"
  by (simp add: is_identifier_start_def ctype_defs)

lemma include_word_read:
  assumes "cs = [] \<or> \<not> is_identifier (hd cs)"
  shows "takeWhile is_identifier ([110, 99, 108, 117, 100, 101] @ cs) = [110, 99, 108, 117, 100, 101]"
    and "dropWhile is_identifier ([110, 99, 108, 117, 100, 101] @ cs) = cs"
    and "map to_char (105 # [110, 99, 108, 117, 100, 101]) = include_name"
proof -
  have "is_identifier x" if "x \<in> {110, 99, 108, 117, 100, 101}" for x
    using that by (auto simp: is_identifier_def ctype_defs)
  then have id: "is_identifier 110" "is_identifier 99" "is_identifier 108" "is_identifier 117"
    "is_identifier 100" "is_identifier 101" by simp_all
  show "takeWhile is_identifier ([110, 99, 108, 117, 100, 101] @ cs) = [110, 99, 108, 117, 100, 101]"
    and "dropWhile is_identifier ([110, 99, 108, 117, 100, 101] @ cs) = cs"
    using assms by (cases cs; simp add: id)+
qed (simp_all add: to_char_def char_of_def include_name_def)

lemma include_tail_rest:
  assumes "include_tail cs"
  shows "dropWhile (\<lambda>c. c \<noteq> chNL)
      (if is_identifier_start (first (dropWhile c_isspace cs)) then dropWhile c_isspace cs @ zs
       else tl (dropWhile c_isspace cs) @ zs) = dropWhile (\<lambda>c. c \<noteq> chNL) zs"
proof -
  have "chNL \<notin> set xs \<Longrightarrow> dropWhile (\<lambda>c. c \<noteq> chNL) (xs @ zs) = dropWhile (\<lambda>c. c \<noteq> chNL) zs" for xs
    by (induction xs) auto
  moreover have "chNL \<notin> set (tl (dropWhile c_isspace cs))"
    using assms list.set_sel(2) [of "dropWhile c_isspace cs"]
    by (cases "dropWhile c_isspace cs = []") (auto simp: include_tail_def simp del: dropWhile_eq_Nil_conv)
  ultimately show ?thesis using assms by (simp add: include_tail_def)
qed

lemma used_include:
  assumes "in_directive True l" and "include_tail cs" and "dropWhile c_isspace cs \<noteq> []"
  shows "\<exists>l'. in_directive False l' \<and> used l (include_word @ cs @ chNL # rest) =
    (include_name, first (dropWhile c_isspace cs) = chLPAR) # used l' rest"
proof -
  let ?xs = "[110, 99, 108, 117, 100, 101] @ cs @ chNL # rest"
  have "cs @ chNL # rest = [] \<or> \<not> is_identifier (hd (cs @ chNL # rest))"
    using assms(2) by (cases cs) (auto simp: include_tail_def is_identifier_def ctype_defs)
  note word = include_word_read [OF this]
  obtain y ys where y: "dropWhile c_isspace cs = y # ys" using assms(3) by (cases "dropWhile c_isspace cs") auto
  then have y': "y \<in> set cs" "\<not> c_isspace y"
    using set_dropWhileD [of y c_isspace cs] hd_dropWhile [of c_isspace cs] by auto
  then have nl: "y \<noteq> chNL" by (auto simp: c_isspace_def)
  then have space: "dropWhile c_isspace (cs @ chNL # rest) = (y # ys) @ chNL # rest"
    using dropWhile_append1 [of y cs c_isspace "chNL # rest"] y y' by simp
  have pp: "sl_pp (track l 105)" using in_directive_track [OF assms(1), of 105] by (simp add: in_directive_def)
  have line: "dropWhile (\<lambda>c. c \<noteq> chNL) (if is_identifier_start y then (y # ys) @ chNL # rest
      else tl ((y # ys) @ chNL # rest)) = chNL # rest"
    using include_tail_rest [OF assms(2), of "chNL # rest"] by (simp add: y nl split: if_splits)
  have fst: "first ((y # ys) @ chNL # rest) = y" by simp
  obtain l' where sc: "scan_ident (track l 105) 105 ?xs =
      ([\<lparr>oc_name = include_name, oc_call = (y = chLPAR), oc_lnr = sl_lnr (track l 105) + 1\<rparr>], l', rest)"
    and l': "in_directive False l'"
    unfolding scan_ident_def Let_def word space fst line using pp by (auto simp: in_directive_def)
  have "used l (105 # ?xs) = (include_name, y = chLPAR) # used l' rest"
    unfolding used_def scan.simps Let_def by (simp only: include_start sc if_True) simp
  with l' show ?thesis by (auto simp: y)
qed

lemma used_include_end:
  assumes "in_directive True l" and "include_tail cs"
  shows "used l (include_word @ cs) = []"
proof -
  let ?xs = "[110, 99, 108, 117, 100, 101] @ cs"
  have "cs = [] \<or> \<not> is_identifier (hd cs)" using assms(2) by (simp add: include_tail_def)
  note word = include_word_read [OF this]
  have pp: "sl_pp (track l 105)" using in_directive_track [OF assms(1), of 105] by (simp add: in_directive_def)
  have line: "dropWhile (\<lambda>c. c \<noteq> chNL) (if is_identifier_start (first (dropWhile c_isspace cs))
      then dropWhile c_isspace cs else tl (dropWhile c_isspace cs)) = []"
    using include_tail_rest [OF assms(2), of "[]"] by (simp only: append_Nil2 dropWhile.simps(1))
  obtain l' where sc: "scan_ident (track l 105) 105 ?xs = ([], l', [])"
    unfolding scan_ident_def Let_def word line using pp by simp
  have "used l (105 # ?xs) = []"
    unfolding used_def scan.simps Let_def by (simp only: include_start sc if_True) simp
  then show ?thesis by simp
qed

text \<open>A word followed by white space and the beginning of another word.\<close>

lemma word_then_word:
  assumes "dropWhile c_isspace (dropWhile is_identifier xs) = []" and "dropWhile is_identifier xs \<noteq> []"
    and "is_identifier_start c"
  shows "takeWhile is_identifier (xs @ c # rest) = takeWhile is_identifier xs"
    and "dropWhile c_isspace (dropWhile is_identifier (xs @ c # rest)) = c # rest"
    and "after_ident (xs @ c # rest) = c # rest"
proof -
  let ?sp = "dropWhile is_identifier xs"
  from assms(2) obtain x where x: "x \<in> set xs" "\<not> is_identifier x" by auto
  have "\<forall>y \<in> set ?sp. c_isspace y" using assms(1) by (simp only: dropWhile_eq_Nil_conv)
  then have "dropWhile c_isspace (?sp @ c # rest) = c # rest"
    using dropWhile_append2 [of ?sp c_isspace "c # rest"] assms(3) space_not_start [of c] by auto
  then show "takeWhile is_identifier (xs @ c # rest) = takeWhile is_identifier xs"
    and "dropWhile c_isspace (dropWhile is_identifier (xs @ c # rest)) = c # rest"
    and "after_ident (xs @ c # rest) = c # rest"
    using dropWhile_append1 [of x xs is_identifier "c # rest"] takeWhile_append1 [of x xs is_identifier "c # rest"]
      x assms(3)
    by (simp_all add: after_ident_def Let_def)
qed

lemma include_head_skip:
  "\<not> is_identifier_start c \<Longrightarrow> include_head (c # cs) \<longleftrightarrow> c \<noteq> chNL \<and> include_head cs"
  by (cases cs) (auto simp: include_head_def)

lemma include_head_word:
  assumes "is_identifier_start c"
  shows "include_head (c # cs) \<Longrightarrow> map to_char (c # takeWhile is_identifier cs) \<noteq> include_name"
    and "include_head (c # cs) \<Longrightarrow> dropWhile c_isspace (dropWhile is_identifier cs) \<noteq> [] \<Longrightarrow>
      include_head (after_ident cs)"
    and "include_head (c # cs) \<Longrightarrow> dropWhile is_identifier cs \<noteq> []"
proof -
  assume head: "include_head (c # cs)"
  then show "map to_char (c # takeWhile is_identifier cs) \<noteq> include_name"
    using assms by (auto simp: include_head_def)
  have id: "is_identifier c" using assms by (auto simp: is_identifier_start_def is_identifier_def)
  show "dropWhile is_identifier cs \<noteq> []"
  proof
    assume nil: "dropWhile is_identifier cs = []"
    then have "\<forall>x \<in> set cs. is_identifier x" by simp
    then have "is_identifier (last (c # cs))" using id by (cases cs rule: rev_cases) auto
    moreover have "c_isspace (last (c # cs))" using head assms nil by (simp add: include_head_def)
    ultimately show False by (auto simp: c_isspace_def is_identifier_def ctype_defs)
  qed
  assume rest: "dropWhile c_isspace (dropWhile is_identifier cs) \<noteq> []"
  obtain pre where pre: "cs = pre @ after_ident cs" using after_ident_suffix by blast
  have "after_ident cs = [] \<or> last (c # cs) = last (after_ident cs)" using pre by (metis last_ConsR last_appendR append_is_Nil_conv)
  with head assms ends_open_after_ident [of cs] show "include_head (after_ident cs)"
    by (cases "after_ident cs = []") (auto simp: include_head_def words_after_ident simp del: dropWhile_eq_Nil_conv)
qed

lemma used_head:
  assumes "is_identifier_start z"
  shows "include_head b \<Longrightarrow> in_directive True l \<Longrightarrow>
    \<exists>l'. in_directive True l' \<and> used l (b @ z # zs) = words b @ used l' (z # zs)"
proof (induction "length b" arbitrary: l b rule: less_induct)
  case less
  show ?case
  proof (cases b)
    case Nil
    with less.prems show ?thesis by auto
  next
    case (Cons c xs)
    show ?thesis
    proof (cases "is_identifier_start c")
      case False
      with less.prems have "c \<noteq> chNL" "include_head xs" by (simp_all add: Cons include_head_skip)
      with less.hyps [of xs "track l c"] in_directive_track [OF less.prems(2)] False show ?thesis
        by (simp add: Cons)
    next
      case True
      have "c \<noteq> chNL" using True by (auto simp: is_identifier_start_def ctype_defs)
      note l = in_directive_track [OF less.prems(2) this]
      note head = include_head_word [OF True, of xs, folded Cons]
      let ?rest = "dropWhile c_isspace (dropWhile is_identifier xs)"
      have step: "\<exists>n. used l (b @ z # zs) = (map to_char (c # takeWhile is_identifier xs), first r = chLPAR)
          # used (track l c\<lparr>sl_col := sl_col (track l c) + n\<rparr>) a"
        if "takeWhile is_identifier (xs @ z # zs) = takeWhile is_identifier xs"
          "dropWhile c_isspace (dropWhile is_identifier (xs @ z # zs)) = r" "after_ident (xs @ z # zs) = a"
        for r a
        using used_word [OF True, of l "xs @ z # zs"] head(1) [OF less.prems(1)] that by (simp add: Cons)
      show ?thesis
      proof (cases "?rest = []")
        case at_end: True
        note word = word_then_word [OF at_end head(3) [OF less.prems(1)] assms, of zs]
        have "z \<noteq> chLPAR" using assms by (auto simp: is_identifier_start_def ctype_defs)
        moreover have "words (dropWhile is_identifier xs) = []"
          using words_skip_space [of "dropWhile is_identifier xs"] at_end by simp
        ultimately show ?thesis
          using step [OF word] True at_end in_directive_col [OF l]
          by (auto simp: Cons EOF_def simp del: dropWhile_eq_Nil_conv)
      next
        case False
        note eqs = after_ident_append [OF False, of "z # zs"]
        from step [OF eqs(1,2,4)] obtain n where
          n: "used l (b @ z # zs) = (map to_char (c # takeWhile is_identifier xs), first ?rest = chLPAR)
            # used (track l c\<lparr>sl_col := sl_col (track l c) + n\<rparr>) (after_ident xs @ z # zs)"
          unfolding eqs(3) by blast
        from less.hyps [OF _ head(2) [OF less.prems(1) False] in_directive_col [OF l, of n]]
          after_ident_shorter [of xs] n True
        show ?thesis by (auto simp: Cons words_after_ident less_Suc_eq_le)
      qed
    qed
  qed
qed

lemma used_source:
  "c_source d cs ws \<Longrightarrow> in_directive d l \<Longrightarrow> used l cs = ws"
proof (induction arbitrary: l rule: c_source.induct)
  case (last cs d)
  then have "include_free l cs" by (auto simp: include_free_def in_directive_def split: if_splits)
  from used_words [OF this, of "[]"] show ?case by simp
next
  case (lines cs d rest ws)
  then have "include_free l cs" by (auto simp: include_free_def in_directive_def split: if_splits)
  from used_words [OF this, of "chNL # rest"] lines.hyps(2) obtain l' where
    l': "used l (cs @ chNL # rest) = words cs @ used l' (chNL # rest)"
    by blast
  from used_newline [of l' rest] obtain l'' where
    "in_directive False l''" "used l' (chNL # rest) = used l'' rest"
    by blast
  with l' lines.IH [of l''] show ?case by simp
next
  case (hash rest ws)
  then have "in_directive True (track l chHASH)" by (simp add: in_directive_def track_def Let_def)
  with hash.IH show ?case by (simp add: is_identifier_start_def ctype_defs)
next
  case (directive b cs rest ws)
  from used_head [OF include_start directive.hyps(1) directive.prems, of "tl include_word @ cs @ chNL # rest"]
  obtain l' where l': "in_directive True l'" "used l (b @ include_word @ cs @ chNL # rest) =
      words b @ used l' (include_word @ cs @ chNL # rest)"
    by auto
  from used_include [OF l'(1) directive.hyps(2,3), of rest] directive.IH l'(2) show ?case by auto
next
  case (directive_end b cs)
  from used_head [OF include_start directive_end.hyps(1) directive_end.prems, of "tl include_word @ cs"]
  obtain l' where
    l': "in_directive True l'" "used l (b @ include_word @ cs) = words b @ used l' (include_word @ cs)"
    by auto
  with used_include_end [OF _ directive_end.hyps(2)] show ?case by simp
qed

section \<open>Every text is a source\<close>

text \<open>A word, the white space after it and the rest.\<close>

lemma word_parts:
  assumes "list_all is_identifier w" and "list_all c_isspace sp" and "sp @ r = [] \<or> \<not> is_identifier (hd (sp @ r))"
    and "r = [] \<or> \<not> c_isspace (hd r)"
  shows "takeWhile is_identifier (w @ sp @ r) = w" and "dropWhile is_identifier (w @ sp @ r) = sp @ r"
    and "dropWhile c_isspace (sp @ r) = r"
proof -
  have "takeWhile is_identifier (sp @ r) = []" "dropWhile is_identifier (sp @ r) = sp @ r"
    using assms(3) by (cases "sp @ r"; auto)+
  then show "takeWhile is_identifier (w @ sp @ r) = w" "dropWhile is_identifier (w @ sp @ r) = sp @ r"
    using assms(1) by (induction w) simp_all
  show "dropWhile c_isspace (sp @ r) = r"
    using assms(2,4) by (induction sp) (cases r; simp)+
qed

text \<open>What follows a word is cut.\<close>

lemma after_ident_cut:
  assumes "after_ident xs = p @ z # zs" and "c_isspace z \<or> is_identifier_start z"
  obtains pre where "xs = pre @ p @ z # zs" "takeWhile is_identifier (pre @ p) = takeWhile is_identifier xs"
    "after_ident (pre @ p) = p"
    "dropWhile c_isspace (dropWhile is_identifier (pre @ p)) = [] \<longrightarrow>
      p = [] \<and> is_identifier_start z \<and> pre \<noteq> [] \<and> c_isspace (last pre)"
    "(first (dropWhile c_isspace (dropWhile is_identifier (pre @ p))) = chLPAR) =
     (first (dropWhile c_isspace (dropWhile is_identifier xs)) = chLPAR)"
proof -
  let ?w = "takeWhile is_identifier xs" and ?after = "dropWhile is_identifier xs"
  let ?sp = "takeWhile c_isspace ?after" and ?r = "dropWhile c_isspace ?after"
  have xs: "xs = ?w @ ?sp @ ?r" by simp
  have all: "list_all is_identifier ?w" "list_all c_isspace ?sp"
    by (auto simp: list_all_iff dest: set_takeWhileD)
  have after: "?after = [] \<or> \<not> is_identifier (hd ?after)" using hd_dropWhile [of is_identifier xs] by blast
  have r: "?r = [] \<or> \<not> c_isspace (hd ?r)" using hd_dropWhile [of c_isspace ?after] by blast
  show thesis
  proof (cases "is_identifier_start (first ?r)")
    case True
    then have eq: "?r = p @ z # zs" using assms(1) by (simp add: after_ident_def Let_def)
    then have first: "first ?r = hd (p @ z # zs)" by (cases p) auto
    have sp: "?sp \<noteq> []"
    proof
      assume "?sp = []"
      then have "?after = ?r" by (metis append_Nil takeWhile_dropWhile_id)
      then have "\<not> is_identifier (hd (p @ z # zs))" using after eq by (metis append_is_Nil_conv list.distinct(1))
      moreover have "is_identifier_start (hd (p @ z # zs))" using True first by simp
      ultimately show False by (auto simp: is_identifier_start_def is_identifier_def)
    qed
    then have hd: "\<not> is_identifier (hd ?sp)"
      using after by (metis hd_append2 list.sel(1) takeWhile_dropWhile_id append_is_Nil_conv)
    have p: "p = [] \<or> \<not> c_isspace (hd p)" using r eq by (cases p) auto
    have st: "p = [] \<or> is_identifier_start (first p)" using True first by (cases p) auto
    have "?sp @ p = [] \<or> \<not> is_identifier (hd (?sp @ p))" using sp hd by (cases ?sp) auto
    note parts = word_parts [OF all this p]
    show thesis
    proof (rule that [of "?w @ ?sp"])
      show "xs = (?w @ ?sp) @ p @ z # zs" using xs eq by simp
      show "takeWhile is_identifier ((?w @ ?sp) @ p) = ?w" using parts(1) by simp
      show "after_ident ((?w @ ?sp) @ p) = p"
        unfolding after_ident_def Let_def append_assoc parts using st by auto
      have "c_isspace (last ?sp)" using all(2) sp by (auto simp: list_all_iff)
      then show "dropWhile c_isspace (dropWhile is_identifier ((?w @ ?sp) @ p)) = [] \<longrightarrow>
          p = [] \<and> is_identifier_start z \<and> ?w @ ?sp \<noteq> [] \<and> c_isspace (last (?w @ ?sp))"
        unfolding append_assoc parts using sp True first by auto
      have "\<not> is_identifier_start chLPAR" by (simp add: is_identifier_start_def ctype_defs)
      then show "(first (dropWhile c_isspace (dropWhile is_identifier ((?w @ ?sp) @ p))) = chLPAR) =
          (first ?r = chLPAR)"
        unfolding append_assoc parts using st True by (cases p) (auto simp: EOF_def)
    qed
  next
    case False
    then obtain y where eq: "?r = y # p @ z # zs"
      using assms(1) by (cases ?r) (auto simp: after_ident_def Let_def)
    have y: "\<not> c_isspace y" "\<not> is_identifier_start y" using r False eq by auto
    have "?sp @ ?r \<noteq> []" using eq by simp
    then have "\<not> is_identifier (hd (?sp @ ?r))" using after by (metis takeWhile_dropWhile_id)
    then have "?sp @ y # p = [] \<or> \<not> is_identifier (hd (?sp @ y # p))"
      unfolding eq by (cases ?sp) auto
    then have parts: "takeWhile is_identifier (?w @ ?sp @ y # p) = ?w"
      "dropWhile is_identifier (?w @ ?sp @ y # p) = ?sp @ y # p" "dropWhile c_isspace (?sp @ y # p) = y # p"
      using word_parts [OF all, of "y # p"] y by simp_all
    show thesis
    proof (rule that [of "?w @ ?sp @ [y]"])
      show "xs = (?w @ ?sp @ [y]) @ p @ z # zs" using xs eq by simp
      show "takeWhile is_identifier ((?w @ ?sp @ [y]) @ p) = ?w" using parts(1) by simp
      show "after_ident ((?w @ ?sp @ [y]) @ p) = p"
        unfolding after_ident_def Let_def append_assoc append_Cons append_Nil parts using y by simp
      show "dropWhile c_isspace (dropWhile is_identifier ((?w @ ?sp @ [y]) @ p)) = [] \<longrightarrow>
          p = [] \<and> is_identifier_start z \<and> ?w @ ?sp @ [y] \<noteq> [] \<and> c_isspace (last (?w @ ?sp @ [y]))"
        unfolding append_assoc append_Cons append_Nil parts by simp
      show "(first (dropWhile c_isspace (dropWhile is_identifier ((?w @ ?sp @ [y]) @ p))) = chLPAR) =
          (first ?r = chLPAR)"
        unfolding append_assoc append_Cons append_Nil parts eq by simp
    qed
  qed
qed

lemma to_char_ident: "is_identifier c \<Longrightarrow> uc (to_char c) = c"
  by (auto simp: is_identifier_def ctype_defs uc_def to_char_def)

lemma include_word_name: "list_all is_identifier cs \<Longrightarrow> map to_char cs = include_name \<Longrightarrow> cs = include_word"
proof -
  assume "list_all is_identifier cs" and name: "map to_char cs = include_name"
  then have "map (uc \<circ> to_char) cs = cs" by (auto simp: list_all_iff to_char_ident intro!: map_idI)
  then have "cs = map uc include_name" by (simp add: name [symmetric])
  then show ?thesis by (simp add: include_name_def uc_def)
qed

lemma ident_run: "is_identifier_start c \<Longrightarrow> list_all is_identifier (c # takeWhile is_identifier cs)"
  by (auto simp: list_all_iff is_identifier_start_def is_identifier_def dest: set_takeWhileD)

lemma words_cut:
  assumes "is_identifier_start c" and "after_ident xs = p @ z # zs" and "c_isspace z \<or> is_identifier_start z"
  obtains pre where "xs = pre @ p @ z # zs" "words (c # pre @ p) = hd (words (c # xs)) # words p"
    "ends_open (c # pre @ p) \<Longrightarrow> ends_open p \<or> is_identifier_start z \<and> c_isspace (last (c # pre @ p))"
    "line_end_seen (c # pre @ p) = line_end_seen p"
proof -
  from after_ident_cut [OF assms(2,3)] obtain pre where pre: "xs = pre @ p @ z # zs"
    "takeWhile is_identifier (pre @ p) = takeWhile is_identifier xs" "after_ident (pre @ p) = p"
    "dropWhile c_isspace (dropWhile is_identifier (pre @ p)) = [] \<longrightarrow>
      p = [] \<and> is_identifier_start z \<and> pre \<noteq> [] \<and> c_isspace (last pre)"
    "(first (dropWhile c_isspace (dropWhile is_identifier (pre @ p))) = chLPAR) =
     (first (dropWhile c_isspace (dropWhile is_identifier xs)) = chLPAR)"
    by metis
  have "words (c # pre @ p) = hd (words (c # xs)) # words p"
    using assms(1) pre(2,5) words_after_ident [of "pre @ p"] pre(3) by simp
  moreover have "ends_open (c # pre @ p) \<Longrightarrow>
      ends_open p \<or> is_identifier_start z \<and> c_isspace (last (c # pre @ p))"
    using assms(1) pre(4) ends_open_after_ident [of "pre @ p"] pre(3)
    by (auto simp del: dropWhile_eq_Nil_conv)
  moreover have "line_end_seen (c # pre @ p) = line_end_seen p"
    using assms(1) pre(3) by simp
  ultimately show thesis using that pre(1) by blast
qed

text \<open>The end of the first line.\<close>

lemma first_line:
  "line_end_seen cs \<Longrightarrow> \<exists>p rest. cs = p @ chNL # rest \<and> \<not> line_end_seen p \<and> \<not> ends_open p"
proof (induction "length cs" arbitrary: cs rule: less_induct)
  case less
  then obtain c xs where Cons: "cs = c # xs" by (cases cs) auto
  show ?case
  proof (cases "is_identifier_start c")
    case False
    show ?thesis
    proof (cases "c = chNL")
      case True
      then show ?thesis by (intro exI [of _ "[]"] exI [of _ xs]) (simp add: Cons)
    next
      case nl: False
      with less.prems False have "line_end_seen xs" by (simp add: Cons)
      from less.hyps [OF _ this] obtain p rest where
        "xs = p @ chNL # rest" "\<not> line_end_seen p" "\<not> ends_open p" by (auto simp: Cons)
      with nl False show ?thesis by (intro exI [of _ "c # p"] exI [of _ rest]) (simp add: Cons)
    qed
  next
    case True
    then have "line_end_seen (after_ident xs)" using less.prems by (simp add: Cons)
    from less.hyps [OF _ this] after_ident_shorter [of xs] obtain p rest where
      p: "after_ident xs = p @ chNL # rest" "\<not> line_end_seen p" "\<not> ends_open p"
      by (auto simp: Cons less_Suc_eq_le)
    have nl: "c_isspace chNL" "\<not> is_identifier_start chNL"
      by (simp_all add: c_isspace_def is_identifier_start_def ctype_defs)
    from words_cut [OF True p(1)] nl p obtain pre where "xs = pre @ p @ chNL # rest"
      "\<not> line_end_seen (c # pre @ p)" "\<not> ends_open (c # pre @ p)" by metis
    then show ?thesis unfolding Cons by (intro exI [of _ "c # pre @ p"] exI [of _ rest]) simp
  qed
qed

lemma no_directive:
  "\<not> line_end_seen cs \<Longrightarrow> directive_seen bol cs \<longleftrightarrow> bol \<and> cs \<noteq> [] \<and> hd cs = chHASH"
proof (induction bol cs rule: directive_seen.induct)
  case (2 bol c cs)
  have "\<not> is_identifier_start chHASH" by (simp add: is_identifier_start_def ctype_defs)
  with 2 show ?case by auto
qed simp

text \<open>The first word \<open>include\<close>.\<close>

lemma first_include:
  "include_name \<in> fst ` set (words cs) \<Longrightarrow> \<exists>b rest. cs = b @ include_word @ rest \<and>
    include_name \<notin> fst ` set (words b) \<and> (ends_open b \<longrightarrow> c_isspace (last b)) \<and>
    (rest = [] \<or> \<not> is_identifier (hd rest))"
proof (induction "length cs" arbitrary: cs rule: less_induct)
  case less
  then obtain c xs where Cons: "cs = c # xs" by (cases cs) auto
  show ?case
  proof (cases "is_identifier_start c")
    case False
    with less.prems have "include_name \<in> fst ` set (words xs)" by (simp add: Cons)
    from less.hyps [OF _ this] obtain b rest where b: "xs = b @ include_word @ rest"
      "include_name \<notin> fst ` set (words b)" "ends_open b \<longrightarrow> c_isspace (last b)"
      "rest = [] \<or> \<not> is_identifier (hd rest)"
      by (auto simp: Cons)
    with False show ?thesis
      by (intro exI [of _ "c # b"] exI [of _ rest]) (cases b; simp add: Cons)
  next
    case True
    let ?w = "c # takeWhile is_identifier xs"
    show ?thesis
    proof (cases "map to_char ?w = include_name")
      case name: True
      have "cs = ?w @ dropWhile is_identifier xs" by (simp add: Cons)
      with include_word_name [OF ident_run [OF True] name] hd_dropWhile [of is_identifier xs] show ?thesis
        by (intro exI [of _ "[]"] exI [of _ "dropWhile is_identifier xs"])
          (auto simp: Cons simp del: dropWhile_eq_Nil_conv)
    next
      case name: False
      with less.prems True have "include_name \<in> fst ` set (words (after_ident xs))"
        by (auto simp: Cons words_after_ident)
      from less.hyps [OF _ this] after_ident_shorter [of xs] obtain b rest where
        b: "after_ident xs = b @ include_word @ rest" "include_name \<notin> fst ` set (words b)"
        "ends_open b \<longrightarrow> c_isspace (last b)" "rest = [] \<or> \<not> is_identifier (hd rest)"
        by (auto simp: Cons less_Suc_eq_le)
      have "after_ident xs = b @ 105 # tl include_word @ rest" using b(1) by simp
      from words_cut [OF True this] include_start obtain pre where
        pre: "xs = pre @ b @ include_word @ rest" "words (c # pre @ b) = hd (words cs) # words b"
        "ends_open (c # pre @ b) \<Longrightarrow> ends_open b \<or> c_isspace (last (c # pre @ b))"
        by (auto simp: Cons)
      have "last (c # pre @ b) = last b" if "ends_open b" using that by (cases b) auto
      with b(3) pre(3) have "ends_open (c # pre @ b) \<longrightarrow> c_isspace (last (c # pre @ b))" by auto
      moreover have "fst (hd (words cs)) = map to_char ?w" using True by (simp add: Cons)
      ultimately show ?thesis using pre(1,2) b(2,4) name
        by (intro exI [of _ "c # pre @ b"] exI [of _ rest]) (auto simp: Cons simp del: words.simps ends_open.simps list.map)
    qed
  qed
qed

text \<open>The words of the first line are words of the text.\<close>

lemma words_line: "\<not> ends_open p \<Longrightarrow> words (p @ zs) = words p @ words zs"
proof (induction "length p" arbitrary: p rule: less_induct)
  case less
  show ?case
  proof (cases p)
    case Nil
    then show ?thesis by simp
  next
    case (Cons c xs)
    show ?thesis
    proof (cases "is_identifier_start c")
      case False
      with less.hyps [of xs] less.prems show ?thesis by (simp add: Cons)
    next
      case True
      then have rest: "dropWhile c_isspace (dropWhile is_identifier xs) \<noteq> []"
        and open': "\<not> ends_open (after_ident xs)"
        using less.prems by (auto simp: Cons ends_open_after_ident)
      note eqs = after_ident_append [OF rest, of zs]
      have "words (dropWhile is_identifier (xs @ zs)) = words (dropWhile is_identifier xs) @ words zs"
        using less.hyps [OF _ open'] after_ident_shorter [of xs] eqs(4)
        by (simp add: words_after_ident [symmetric] Cons less_Suc_eq_le)
      with True eqs(1,2,3) show ?thesis by (simp add: Cons)
    qed
  qed
qed

lemma c_source_total: "\<exists>ws. c_source d cs ws"
proof (induction "length cs" arbitrary: d cs rule: less_induct)
  case less
  have line: "\<exists>ws. c_source d cs ws"
    if "cs = p @ chNL # rest" "\<not> ends_open p"
      "include_name \<notin> fst ` set (words p) \<or> \<not> d \<and> \<not> directive_seen True p" for p rest
    using less [of rest False] c_source.lines [OF that(3,2)] that(1) by auto
  show ?case
  proof (cases d)
    case False
    show ?thesis
    proof (cases "cs \<noteq> [] \<and> hd cs = chHASH")
      case True
      then obtain xs where "cs = chHASH # xs" by (cases cs) auto
      with less [of xs True] c_source.hash False show ?thesis by auto
    next
      case start: False
      show ?thesis
      proof (cases "line_end_seen cs")
        case True
        from first_line [OF this] obtain p rest where
          p: "cs = p @ chNL # rest" "\<not> line_end_seen p" "\<not> ends_open p" by blast
        with start no_directive [of p True] have "\<not> directive_seen True p" by (cases p) auto
        with line [OF p(1,3)] False show ?thesis by blast
      next
        case quiet: False
        with no_directive [OF quiet, of True] start have "\<not> directive_seen True cs" by auto
        with c_source.last [of cs d] False show ?thesis by blast
      qed
    qed
  next
    case d: True
    show ?thesis
    proof (cases "include_name \<in> fst ` set (words cs)")
      case False
      with c_source.last [of cs d] show ?thesis by blast
    next
      case True
      from first_include [OF this] obtain b tail where b: "cs = b @ include_word @ tail"
        "include_name \<notin> fst ` set (words b)" "ends_open b \<longrightarrow> c_isspace (last b)"
        "tail = [] \<or> \<not> is_identifier (hd tail)"
        by blast
      show ?thesis
      proof (cases "line_end_seen b")
        case True
        from first_line [OF this] obtain p rest where
          p: "b = p @ chNL # rest" "\<not> ends_open p" by blast
        with words_line [OF p(2), of "chNL # rest"] b(2) have "include_name \<notin> fst ` set (words p)" by auto
        with line [of p "rest @ include_word @ tail"] p b(1) show ?thesis by auto
      next
        case False
        with b have head: "include_head b" by (simp add: include_head_def)
        let ?D = "dropWhile c_isspace tail"
        show ?thesis
        proof (cases "chNL \<in> set ?D")
          case False
          with b(4) have "include_tail tail" by (simp add: include_tail_def)
          from c_source.directive_end [OF head this] show ?thesis unfolding b(1) using d by auto
        next
          case True
          then obtain q rest where q: "?D = q @ chNL # rest" "chNL \<notin> set q" by (meson split_list_first)
          let ?cs = "takeWhile c_isspace tail @ q"
          have tail: "tail = ?cs @ chNL # rest" using takeWhile_dropWhile_id [of c_isspace tail] q(1) by simp
          have nl: "c_isspace chNL" by (simp add: c_isspace_def)
          have "?D \<noteq> []" using q(1) by simp
          then have "\<not> c_isspace (hd ?D)" using hd_dropWhile by blast
          with nl q(1) have ne: "q \<noteq> []" "\<not> c_isspace (hd q)" by (cases q; auto)+
          have "\<forall>x \<in> set (takeWhile c_isspace tail). c_isspace x" by (auto dest: set_takeWhileD)
          then have "dropWhile c_isspace ?cs = dropWhile c_isspace q" by (simp add: dropWhile_append2)
          also have "\<dots> = q" using ne by (cases q) auto
          finally have D: "dropWhile c_isspace ?cs = q" .
          have "?cs = [] \<or> \<not> is_identifier (hd ?cs)" using b(4) tail by (metis append_is_Nil_conv hd_append2)
          with D q(2) have "include_tail ?cs" by (simp add: include_tail_def)
          moreover have "dropWhile c_isspace ?cs \<noteq> []" using D ne(1) by simp
          moreover from less [of rest False] b(1) arg_cong [OF tail, of length] obtain ws where
            "c_source False rest ws" by auto
          moreover have "cs = b @ include_word @ ?cs @ chNL # rest" using b(1) tail by metis
          ultimately show ?thesis using c_source.directive [OF head, of ?cs rest ws] d by auto
        qed
      qed
    qed
  qed
qed

text \<open>The references for one identifier of \<open>words\<close>, without their line.\<close>

definition word_refs ::
  "idinfo list \<Rightarrow> string list \<Rightarrow> string list \<Rightarrow> string \<times> bool \<Rightarrow> (nat \<times> nat) list" where
  "word_refs ids ns ss w =
     map (\<lambda>r. (inc_sym r, ref_idnr r))
       (ref_of ids ns ss \<lparr>oc_name = fst w, oc_call = snd w, oc_lnr = 0\<rparr>)"

lemma word_refs_ref_of:
  "map (\<lambda>r. (inc_sym r, ref_idnr r)) (ref_of ids ns ss oc) = word_refs ids ns ss (oc_name oc, oc_call oc)"
  by (simp add: word_refs_def ref_of_def Let_def)

lemma word_refs_refs_of:
  "map (\<lambda>r. (inc_sym r, ref_idnr r)) (refs_of ids ns ss ocs) =
   concat (map (word_refs ids ns ss) (map (\<lambda>oc. (oc_name oc, oc_call oc)) ocs))"
  by (induction ocs) (simp_all add: word_refs_ref_of)

text \<open>The grammar gives every text exactly one list of words: those that are looked up.\<close>

lemma c_source_iff: "in_directive d l \<Longrightarrow> c_source d cs ws \<longleftrightarrow> used l cs = ws"
  using c_source_total [of d cs] used_source [of d cs _ l] by auto

section \<open>Files\<close>

text \<open>On a text that libcf classifies exactly, the scanner sees the code of the reference lexer.\<close>

lemma code_chars_exact: "libcf_exact (map uc f) \<Longrightarrow> code_chars f = c_code (map uc f)"
  by (simp add: code_chars_def c_code_def run_lex)

text \<open>A file that libcf classifies exactly, and its words.\<close>

definition c_file :: "string \<Rightarrow> (string \<times> bool) list \<Rightarrow> bool" where
  "c_file f ws \<longleftrightarrow> libcf_exact (map uc f) \<and> c_source False (c_code (map uc f)) ws"

lemma c_file_iff: "c_file f ws \<longleftrightarrow> libcf_exact (map uc f) \<and> used src_start (c_code (map uc f)) = ws"
  by (simp add: c_file_def c_source_iff [of _ src_start] in_directive_def src_start_def)

lemma c_file_lookups: "c_file f ws \<Longrightarrow> map (\<lambda>oc. (oc_name oc, oc_call oc)) (lookups f) = ws"
  by (auto simp: c_file_iff used_def lookups_def code_chars_exact)

lemma c_file_short:
  assumes "c_file f ws" and "\<forall>w \<in> set ws. length (fst w) < IDBUF_SZ"
  shows "\<forall>oc \<in> set (lookups f). length (oc_name oc) < IDBUF_SZ"
  using assms(2) c_file_lookups [OF assms(1), symmetric] by auto

section \<open>Words at a place\<close>

text \<open>The word at position \<open>i\<close> of a text, with the sign whether an opening parenthesis follows.\<close>

definition word_at :: "int list \<Rightarrow> nat \<Rightarrow> string \<times> bool \<Rightarrow> bool" where
  "word_at cs i w \<longleftrightarrow>
     i < length cs \<and> is_identifier_start (cs ! i) \<and> (i = 0 \<or> \<not> is_identifier (cs ! (i - 1))) \<and>
     w = (map to_char (takeWhile is_identifier (drop i cs)),
          first (dropWhile c_isspace (dropWhile is_identifier (drop i cs))) = chLPAR)"

text \<open>
  Behind every word \<open>include\<close> of the text there is a character that is not white space, and behind
  that a line end. \<open>w\<close> says whether a letter or an underscore stands before the text.
\<close>

fun past_includes :: "bool \<Rightarrow> int list \<Rightarrow> bool" where
  "past_includes w [] = True"
| "past_includes w (c # cs) =
     ((\<not> w \<and> take 7 (c # cs) = include_word \<and> (drop 6 cs = [] \<or> \<not> is_identifier (hd (drop 6 cs))) \<longrightarrow>
         chNL \<in> set (dropWhile c_isspace (drop 6 cs))) \<and>
      past_includes (is_identifier_start c) cs)"

lemma past_includes_suffix:
  "past_includes w (pre @ p) \<Longrightarrow> pre \<noteq> [] \<Longrightarrow> \<not> is_identifier_start (last pre) \<Longrightarrow> past_includes False p"
proof (induction pre arbitrary: w)
  case (Cons c pre)
  then show ?case by (cases pre) auto
qed simp

lemma past_includes_word:
  "past_includes False (include_word @ v) \<Longrightarrow> v = [] \<or> \<not> is_identifier (hd v) \<Longrightarrow>
   chNL \<in> set (dropWhile c_isspace v)"
  by simp

lemma after_ident_behind:
  assumes "dropWhile is_identifier xs \<noteq> []"
  shows "\<exists>pre. xs = pre @ after_ident xs \<and> pre \<noteq> [] \<and> \<not> is_identifier_start (last pre)"
proof -
  let ?d = "dropWhile is_identifier xs"
  let ?r = "dropWhile c_isspace ?d"
  have start: "is_identifier_start x \<Longrightarrow> is_identifier x" for x
    by (auto simp: is_identifier_start_def is_identifier_def)
  have "\<not> is_identifier (hd ?d)" using assms hd_dropWhile by blast
  have x: "xs = (takeWhile is_identifier xs @ takeWhile c_isspace ?d) @ ?r" by simp
  show ?thesis
  proof (cases "is_identifier_start (first ?r)")
    case True
    have "?d \<noteq> ?r"
    proof
      assume "?d = ?r"
      with True have "is_identifier_start (first ?d)" by metis
      then have "is_identifier_start (hd ?d)" using assms by (cases ?d) auto
      with start \<open>\<not> is_identifier (hd ?d)\<close> show False by blast
    qed
    then have ne: "takeWhile c_isspace ?d \<noteq> []" by (metis append_Nil takeWhile_dropWhile_id)
    then have "c_isspace (last (takeWhile c_isspace ?d))" by (meson last_in_set set_takeWhileD)
    then have "\<not> is_identifier_start (last (takeWhile is_identifier xs @ takeWhile c_isspace ?d))"
      using ne space_not_start by simp
    moreover have "after_ident xs = ?r" unfolding after_ident_def Let_def by (rule if_P [OF True])
    ultimately show ?thesis using x ne by (metis append_is_Nil_conv)
  next
    case False
    show ?thesis
    proof (cases ?r)
      case Nil
      then have "?d = takeWhile c_isspace ?d" by (metis append_Nil2 takeWhile_dropWhile_id)
      then have "c_isspace (last ?d)" using assms by (metis last_in_set set_takeWhileD)
      moreover have "last xs = last ?d" using assms by (metis last_appendR takeWhile_dropWhile_id)
      ultimately have "\<not> is_identifier_start (last xs)" using space_not_start by simp
      moreover have "after_ident xs = []" unfolding after_ident_def Let_def Nil by simp
      moreover have "xs \<noteq> []" using assms by (cases xs) auto
      ultimately show ?thesis by (metis append_Nil2)
    next
      case (Cons y ys)
      let ?pre = "takeWhile is_identifier xs @ takeWhile c_isspace ?d @ [y]"
      have "after_ident xs = ys" and y: "\<not> is_identifier_start y" using False Cons
        by (simp_all add: after_ident_def Let_def)
      moreover have "xs = ?pre @ ys" using x Cons by simp
      ultimately have "xs = ?pre @ after_ident xs" by simp
      then show ?thesis by (rule exI [of _ ?pre, OF conjI]) (simp add: y)
    qed
  qed
qed

text \<open>The rest of the line of an include directive is skipped.\<close>

lemma used_skip_line:
  assumes "is_identifier_start d" and "sl_pp (track l d)" and "map to_char (d # takeWhile is_identifier ys) = include_name"
    and "after_ident ys = t @ chNL # r" and "chNL \<notin> set t"
  shows "\<exists>x l'. used l (d # ys) = x # used l' r"
proof -
  have "dropWhile (\<lambda>c. c \<noteq> chNL) (t @ chNL # r) = chNL # r" using assms(5) by (induction t) auto
  then have "dropWhile (\<lambda>c. c \<noteq> chNL) (after_ident ys) = chNL # r" by (simp only: assms(4))
  then obtain oc l' where "scan_ident (track l d) d ys = ([oc], l', r)"
    using assms(2,3) by (auto simp: scan_ident_def after_ident_def Let_def)
  then show ?thesis using assms(1) by (auto simp: used_def scan.simps(2))
qed

lemma line_end_behind:
  assumes "chNL \<in> set (dropWhile c_isspace (dropWhile is_identifier ys))"
  shows "chNL \<in> set (after_ident ys)"
proof -
  let ?D = "dropWhile c_isspace (dropWhile is_identifier ys)"
  from assms obtain y D where D: "?D = y # D" by (cases ?D) auto
  then have "\<not> c_isspace y" using hd_dropWhile [of c_isspace "dropWhile is_identifier ys"] by auto
  then have "y \<noteq> chNL" by (auto simp: c_isspace_def)
  with assms D show ?thesis by (auto simp: after_ident_def Let_def)
qed

text \<open>
  Every word that is not in the rest of an include line is looked up: whatever stands before it,
  if each \<open>include\<close> there is followed by something and then by a line end.
\<close>

lemma word_used:
  assumes c: "is_identifier_start c" and name: "map to_char (c # takeWhile is_identifier xs) \<noteq> include_name"
  shows "past_includes False p \<Longrightarrow> p = [] \<or> \<not> is_identifier (last p) \<Longrightarrow>
    (map to_char (c # takeWhile is_identifier xs),
     first (dropWhile c_isspace (dropWhile is_identifier xs)) = chLPAR) \<in> set (used l (p @ c # xs))"
    (is "_ \<Longrightarrow> _ \<Longrightarrow> ?w \<in> _")
proof (induction "length p" arbitrary: l p rule: less_induct)
  case less
  let ?zs = "c # xs"
  have goon: "?w \<in> set (used l' (q @ ?zs))"
    if "p = pre @ q" "pre \<noteq> []" "\<not> is_identifier_start (last pre)" for l' pre q
  proof (rule less.hyps)
    show "length q < length p" using that by simp
    show "past_includes False q" using past_includes_suffix [of False pre q] less.prems(1) that by simp
    show "q = [] \<or> \<not> is_identifier (last q)" using less.prems(2) that by auto
  qed
  show ?case
  proof (cases p)
    case Nil
    with used_word [OF c, of l xs] name show ?thesis by auto
  next
    case (Cons d ys)
    show ?thesis
    proof (cases "is_identifier_start d")
      case False
      with goon [of "[d]" ys "track l d"] show ?thesis by (simp add: Cons)
    next
      case d: True
      then have "is_identifier d" by (auto simp: is_identifier_start_def is_identifier_def)
      with less.prems(2) have ne: "dropWhile is_identifier ys \<noteq> []"
        unfolding Cons by (metis dropWhile_eq_Nil_conv last.simps last_in_set list.distinct(1))
      from after_ident_behind [OF ne] obtain pre where
        pre: "ys = pre @ after_ident ys" "pre \<noteq> []" "\<not> is_identifier_start (last pre)" by blast
      let ?rest = "dropWhile c_isspace (dropWhile is_identifier ys)"
      show ?thesis
      proof (cases "sl_pp (track l d) \<and> map to_char (d # takeWhile is_identifier ys) = include_name")
        case True
        let ?v = "dropWhile is_identifier ys"
        have "p = include_word @ ?v"
          using include_word_name [OF ident_run [OF d]] True by (metis Cons append_Cons takeWhile_dropWhile_id)
        with less.prems(1) have "chNL \<in> set ?rest"
          using hd_dropWhile [of is_identifier ys] by (intro past_includes_word) auto
        then have rest: "?rest \<noteq> []" and "chNL \<in> set (after_ident ys)"
          using line_end_behind [of ys] by (metis empty_iff empty_set, blast)
        then obtain t r where t: "after_ident ys = t @ chNL # r" "chNL \<notin> set t" by (meson split_list_first)
        note eqs = after_ident_append [OF rest, of ?zs]
        have "after_ident (ys @ ?zs) = t @ chNL # r @ ?zs" by (simp add: eqs(4) t(1))
        from used_skip_line [OF d _ _ this t(2), of l] True eqs(1) obtain x l' where
          "used l (p @ ?zs) = x # used l' (r @ ?zs)" by (auto simp: Cons)
        moreover have "p = (d # pre @ t @ [chNL]) @ r" using pre(1) t(1) by (simp add: Cons)
        ultimately show ?thesis using goon [of "d # pre @ t @ [chNL]" r l']
          by (simp add: is_identifier_start_def ctype_defs)
      next
        case other: False
        show ?thesis
        proof (cases "?rest = []")
          case True
          note eqs = word_then_word [OF True ne c, of xs]
          from used_word [OF d, of l "ys @ ?zs"] other eqs(1) obtain x l' where
            "used l (p @ ?zs) = x # used l' ([] @ ?zs)" by (auto simp: Cons eqs(3))
          moreover have "p \<noteq> [] \<and> \<not> is_identifier_start (last p)"
            using less.prems(2) by (auto simp: Cons is_identifier_start_def is_identifier_def)
          ultimately show ?thesis using goon [of p "[]" l'] by simp
        next
          case False
          note eqs = after_ident_append [OF False, of ?zs]
          from used_word [OF d, of l "ys @ ?zs"] other eqs(1) obtain x l' where
            "used l (p @ ?zs) = x # used l' (after_ident ys @ ?zs)" by (auto simp: Cons eqs(4))
          moreover have "p = (d # pre) @ after_ident ys" using pre(1) by (simp add: Cons)
          ultimately show ?thesis using goon [of "d # pre" "after_ident ys" l'] pre(2,3) by simp
        qed
      qed
    qed
  qed
qed

lemma word_at_used:
  assumes "word_at cs i w" and "fst w \<noteq> include_name" and "past_includes False (take i cs)"
  shows "w \<in> set (used l cs)"
proof -
  from assms(1) have i: "i < length cs" "is_identifier_start (cs ! i)" "i = 0 \<or> \<not> is_identifier (cs ! (i - 1))"
    by (simp_all add: word_at_def)
  have d: "drop i cs = cs ! i # drop (Suc i) cs" using i(1) by (simp add: Cons_nth_drop_Suc)
  have "is_identifier (cs ! i)" using i(2) by (auto simp: is_identifier_start_def is_identifier_def)
  with assms(1) have w: "w = (map to_char (cs ! i # takeWhile is_identifier (drop (Suc i) cs)),
      first (dropWhile c_isspace (dropWhile is_identifier (drop (Suc i) cs))) = chLPAR)"
    unfolding word_at_def d by simp
  have "take i cs = [] \<or> \<not> is_identifier (last (take i cs))"
    using i(1,3) by (cases "i = 0") (auto simp: last_conv_nth)
  from word_used [OF i(2) _ assms(3) this, of "drop (Suc i) cs" l] assms(2) w show ?thesis
    by (simp add: d [symmetric])
qed

section \<open>Sources in lines\<close>

text \<open>
  The code of a source as it is mostly written: lines of text and include lines with a name in
  angle brackets. \<open>Header gs a b h\<close> is such an include line, \<open>a\<close> and \<open>b\<close> the blanks before and
  behind the word, with the lines \<open>gs\<close> of other directives before it that end in a word, like
  \<open>#ifdef UNIX\<close> or \<open>#endif\<close>. \<open>Body b\<close> is other text of one or more lines.
\<close>

datatype chunk = Header "int list list" "int list" "int list" "int list" | Body "int list"

fun chunk_text :: "chunk \<Rightarrow> int list" where
  "chunk_text (Header gs a b h) =
     concat (map (\<lambda>g. chHASH # g @ [chNL]) gs) @ chHASH # a @ include_word @ b @ 60 # h @ [chNL]"
| "chunk_text (Body b) = b @ [chNL]"

text \<open>Of an include line, the word \<open>include\<close> alone; otherwise all words of the text.\<close>

fun chunk_words :: "chunk \<Rightarrow> (string \<times> bool) list" where
  "chunk_words (Header gs a b h) = concat (map words gs) @ [(include_name, False)]"
| "chunk_words (Body b) = words b"

definition blank :: "int list \<Rightarrow> bool" where
  "blank cs \<longleftrightarrow> set cs \<subseteq> {32, 9}"

text \<open>A text with the word \<open>include\<close> in it has no number sign.\<close>

definition plain :: "int list \<Rightarrow> bool" where
  "plain cs \<longleftrightarrow> include_name \<notin> fst ` set (words cs) \<or> chHASH \<notin> set cs"

text \<open>A line that ends in a word; empty lines may follow.\<close>

definition word_line :: "int list \<Rightarrow> bool" where
  "word_line g \<longleftrightarrow> include_name \<notin> fst ` set (words g) \<and> ends_open g \<and>
     chNL \<notin> set (dropWhile c_isspace (rev g))"

fun chunk_ok :: "chunk \<Rightarrow> bool" where
  "chunk_ok (Header gs a b h) \<longleftrightarrow> list_all word_line gs \<and> blank a \<and> blank b \<and> chNL \<notin> set h"
| "chunk_ok (Body b) \<longleftrightarrow> plain b \<and> \<not> ends_open b"

lemma dropWhile_append_subset: "set (dropWhile P xs) \<subseteq> set (dropWhile P (xs @ ys))"
  by (induction xs) auto

lemma ends_open_word: "ends_open cs \<Longrightarrow> \<exists>c \<in> set cs. \<not> c_isspace c"
proof (induction cs rule: ends_open.induct)
  case (2 c cs)
  then show ?case using space_not_start [of c] by (auto split: if_splits)
qed simp

lemma no_hash_seen: "chHASH \<notin> set cs \<Longrightarrow> \<not> directive_seen bol cs"
proof (induction bol cs rule: directive_seen.induct)
  case (2 bol c cs)
  moreover have "chHASH \<notin> set (after_ident cs)"
    using 2(3) after_ident_suffix [of cs] by (metis Un_iff list.set_intros(2) set_append)
  ultimately show ?case by auto
qed simp

text \<open>The next line of a line that ends in a word is a directive.\<close>

lemma word_line_next:
  assumes "ends_open g" and "chNL \<notin> set (dropWhile c_isspace (rev g))"
  shows "words (g @ chNL # chHASH # r) = words g @ words r \<and>
    ends_open (g @ chNL # chHASH # r) = ends_open r \<and> line_end_seen (g @ chNL # chHASH # r) = line_end_seen r"
  using assms
proof (induction "length g" arbitrary: g rule: less_induct)
  case less
  from less.prems(1) obtain c xs where Cons: "g = c # xs" by (cases g) auto
  let ?zs = "chNL # chHASH # r"
  have suffix: "chNL \<notin> set (dropWhile c_isspace (rev q))" if "g = pre @ q" for pre q
    using less.prems(2) dropWhile_append_subset [of c_isspace "rev q" "rev pre"] that by auto
  show ?case
  proof (cases "is_identifier_start c")
    case False
    with less.prems(1) have open': "ends_open xs" by (simp add: Cons)
    have "c \<noteq> chNL"
    proof
      assume "c = chNL"
      moreover from ends_open_word [OF open'] have "\<exists>x \<in> set (rev xs). \<not> c_isspace x" by simp
      then obtain x where "x \<in> set (rev xs)" "\<not> c_isspace x" by blast
      from dropWhile_append1 [of x "rev xs" c_isspace, OF this] have "dropWhile c_isspace (rev g) = dropWhile c_isspace (rev xs) @ [c]"
        by (simp add: Cons)
      ultimately show False using less.prems(2) by simp
    qed
    with False less.hyps [OF _ open' suffix [of "[c]" xs]] show ?thesis by (simp add: Cons)
  next
    case c: True
    let ?rest = "dropWhile c_isspace (dropWhile is_identifier xs)"
    have nl: "\<not> is_identifier chNL" "c_isspace chNL" "\<not> c_isspace chHASH" "\<not> is_identifier_start chHASH"
      by (simp_all add: is_identifier_def is_identifier_start_def ctype_defs)
    show ?thesis
    proof (cases "?rest = []")
      case True
      have "takeWhile is_identifier (ys @ ?zs) = takeWhile is_identifier ys \<and>
          dropWhile is_identifier (ys @ ?zs) = dropWhile is_identifier ys @ ?zs" for ys
        using nl(1) by (induction ys) simp_all
      then have "takeWhile is_identifier (xs @ ?zs) = takeWhile is_identifier xs"
        and d: "dropWhile is_identifier (xs @ ?zs) = dropWhile is_identifier xs @ ?zs" by blast+
      moreover have sp: "\<forall>x \<in> set (dropWhile is_identifier xs). c_isspace x"
        using True by (simp only: dropWhile_eq_Nil_conv)
      then have D: "dropWhile c_isspace (dropWhile is_identifier (xs @ ?zs)) = chHASH # r"
        using nl by (simp add: d dropWhile_append2)
      moreover have a: "after_ident (xs @ ?zs) = r" by (simp add: after_ident_def D nl)
      moreover have "words (dropWhile is_identifier xs) = []"
        using words_skip_space [of "dropWhile is_identifier xs"] by (simp add: True)
      ultimately show ?thesis
        using c words_after_ident [of "xs @ ?zs"] ends_open_after_ident [of "xs @ ?zs"]
        by (simp add: Cons True EOF_def del: dropWhile_eq_Nil_conv)
    next
      case False
      note eqs = after_ident_append [OF False, of ?zs]
      have open': "ends_open (after_ident xs)"
        using less.prems(1) c False by (simp add: Cons ends_open_after_ident del: dropWhile_eq_Nil_conv)
      obtain pre where "xs = pre @ after_ident xs" using after_ident_suffix by blast
      then have "g = (c # pre) @ after_ident xs" by (simp add: Cons)
      from less.hyps [OF _ open' suffix [OF this]] after_ident_shorter [of xs] have IH:
        "words (after_ident xs @ ?zs) = words (after_ident xs) @ words r"
        "ends_open (after_ident xs @ ?zs) = ends_open r" "line_end_seen (after_ident xs @ ?zs) = line_end_seen r"
        by (simp_all add: Cons less_Suc_eq_le)
      have ne: "dropWhile c_isspace (dropWhile is_identifier (xs @ ?zs)) \<noteq> []" using False eqs(2) by simp
      show ?thesis
        using c IH ne eqs words_after_ident [of xs] words_after_ident [of "xs @ ?zs"]
          ends_open_after_ident [of "xs @ ?zs"]
        by (simp add: Cons del: dropWhile_eq_Nil_conv)
    qed
  qed
qed

text \<open>What stands between the number sign of the first of the directives and the word \<open>include\<close>.\<close>

fun header_head :: "int list list \<Rightarrow> int list \<Rightarrow> int list" where
  "header_head [] a = a"
| "header_head (g # gs) a = g @ chNL # chHASH # header_head gs a"

lemma header_text: "chunk_text (Header gs a b h) @ rest =
    chHASH # header_head gs a @ include_word @ (b @ 60 # h) @ chNL # rest"
  by (induction gs) simp_all

lemma blank_head:
  assumes "blank a"
  shows "words a = []" and "\<not> ends_open a" and "\<not> line_end_seen a" and "list_all c_isspace a"
proof -
  have a: "list_all c_isspace a" "chNL \<notin> set a" using assms by (auto simp: blank_def list_all_iff c_isspace_def)
  then show "words a = []" and "\<not> ends_open a" and "\<not> line_end_seen a"
    by (induction a) (auto simp: space_not_start)
  show "list_all c_isspace a" by (rule a(1))
qed

lemma header_head:
  assumes "list_all word_line gs" and "blank a"
  shows "words (header_head gs a) = concat (map words gs)" and "include_head (header_head gs a)"
proof -
  have "words (header_head gs a) = concat (map words gs) \<and> \<not> ends_open (header_head gs a) \<and>
      \<not> line_end_seen (header_head gs a)"
    using assms(1) by (induction gs) (simp_all add: blank_head [OF assms(2)] word_line_next word_line_def)
  moreover have "include_name \<notin> fst ` set (concat (map words gs))"
    using assms(1) by (auto simp: list_all_iff word_line_def)
  ultimately show "words (header_head gs a) = concat (map words gs)" and "include_head (header_head gs a)"
    by (simp_all add: include_head_def)
qed

lemma header_tail:
  assumes "blank b" and "chNL \<notin> set h"
  shows "include_tail (b @ 60 # h)" and "dropWhile c_isspace (b @ 60 # h) = 60 # h"
proof -
  show D: "dropWhile c_isspace (b @ 60 # h) = 60 # h"
    using blank_head(4) [OF assms(1)] by (simp add: dropWhile_append2 list_all_iff c_isspace_def)
  have "b @ 60 # h = [] \<or> \<not> is_identifier (hd (b @ 60 # h))"
    using assms(1) by (cases b) (auto simp: blank_def is_identifier_def ctype_defs)
  with D assms(2) show "include_tail (b @ 60 # h)" by (simp add: include_tail_def)
qed

lemma plain_rule: "plain cs \<Longrightarrow> include_name \<notin> fst ` set (words cs) \<or> \<not> False \<and> \<not> directive_seen True cs"
  using no_hash_seen [of cs True] by (auto simp: plain_def)

text \<open>The grammar reads such a source as the words of its chunks.\<close>

lemma chunks_source:
  assumes "list_all chunk_ok ks" and "plain r"
  shows "c_source False (concat (map chunk_text ks) @ r) (concat (map chunk_words ks) @ words r)"
  using assms(1)
proof (induction ks)
  case Nil
  from c_source.last [OF plain_rule [OF assms(2)]] show ?case by simp
next
  case (Cons k ks)
  let ?rest = "concat (map chunk_text ks) @ r"
  let ?ws = "concat (map chunk_words ks) @ words r"
  from Cons have IH: "c_source False ?rest ?ws" by simp
  show ?case
  proof (cases k)
    case (Body b)
    with Cons.prems have "plain b" "\<not> ends_open b" by simp_all
    from c_source.lines [OF plain_rule [OF this(1)] this(2) IH] show ?thesis by (simp add: Body)
  next
    case (Header gs a b h)
    with Cons.prems have k: "list_all word_line gs" "blank a" "blank b" "chNL \<notin> set h" by simp_all
    note tail = header_tail [OF k(3,4)]
    have "c_source True (header_head gs a @ include_word @ (b @ 60 # h) @ chNL # ?rest)
        (words (header_head gs a) @ (include_name, first (dropWhile c_isspace (b @ 60 # h)) = chLPAR) # ?ws)"
      by (rule c_source.directive [OF header_head(2) [OF k(1,2)] tail(1) _ IH]) (simp only: tail(2) list.distinct not_False_eq_True)
    from c_source.hash [OF this] have "c_source False (chunk_text k @ ?rest) (chunk_words k @ ?ws)"
      unfolding Header header_text header_head(1) [OF k(1,2)] tail(2) by simp
    then show ?thesis by (simp del: chunk_text.simps chunk_words.simps)
  qed
qed

text \<open>The grammar on a source of another form. The number sign after \<open>b\<close> is skipped with the line
  end, so that the name of the first header is looked up as two words; the line after the second
  directive, whose header is in quotes, is dropped.\<close>

definition example_file :: string where
  "example_file = ''b'' @ [CHR 0x0A] @ ''#include <e.h>'' @ [CHR 0x0A] @ ''#include '' @ [CHR 0x22, CHR ''x'', CHR 0x22,
     CHR 0x0A] @ ''p();'' @ [CHR 0x0A] @ ''q(y);''"

lemma example_file:
  "c_file example_file [(''b'', False), (''include'', False), (''e'', False), (''h'', False),
     (''include'', False), (''q'', True), (''y'', False)]"
proof -
  let ?c1 = "[98, 10, 35, 105, 110, 99, 108, 117, 100, 101, 32, 60, 101, 46, 104, 62, 10,
    35, 105, 110, 99, 108, 117, 100, 101, 32] :: int list"
  let ?c2 = "[10, 112, 40, 41, 59, 10, 113, 40, 121, 41, 59] :: int list"
  have "c_lex (map uc example_file) = map (sup CC_CODE) ?c1 @
      [sup CC_OUTER_STRING 34, sup CC_INNER_STRING 120, sup CC_OUTER_STRING 34] @ map (sup CC_CODE) ?c2"
    by (simp add: example_file_def uc_def c_lex.simps(2))
  then have f: "libcf_exact (map uc example_file)" "c_code (map uc example_file) = ?c1 @ ?c2"
    by (simp_all add: libcf_exact_def c_code_def cc_defs)
  have "used src_start (?c1 @ ?c2) = [(''b'', False), (''include'', False), (''e'', False), (''h'', False),
      (''include'', False), (''q'', True), (''y'', False)]"
    by (simp add: used_def src_start_def scan.simps(2) scan_ident_def track_def is_identifier_start_def
        is_identifier_def ctype_defs to_char_def char_of_def include_name_def EOF_def)
  with f show ?thesis by (simp add: c_file_iff)
qed

section \<open>Properties\<close>


text \<open>\<open>#ifdef F\<close>, \<open>#include <e.h>\<close>, \<open>p(q);\<close>: neither \<open>e\<close> nor \<open>h\<close> is looked up, and \<open>p\<close> is, as a
  function.\<close>

definition example_source :: string where
  "example_source = ''#ifdef F'' @ [CHR 0x0A] @ ''#include <e.h>'' @ [CHR 0x0A] @ ''p(q);'' @ [CHR 0x0A]"

definition example_chunks :: "chunk list" where
  "example_chunks = [Header [map uc ''ifdef F''] [] [32] (map uc ''e.h>''), Body (map uc ''p(q);'')]"

lemma example_source:
  "libcf_exact (map uc example_source)" "c_code (map uc example_source) = concat (map chunk_text example_chunks) @ []"
  "list_all chunk_ok example_chunks"
  "concat (map chunk_words example_chunks) @ words [] =
    [(''ifdef'', False), (''F'', False), (''include'', False), (''p'', True), (''q'', False)]"
proof -
  have "c_lex (map uc example_source) = map (sup CC_CODE) (map uc example_source)"
    by (simp add: example_source_def uc_def c_lex.simps(2))
  then show "libcf_exact (map uc example_source)"
    and "c_code (map uc example_source) = concat (map chunk_text example_chunks) @ []"
    by (simp_all add: libcf_exact_def c_code_def cc_defs example_source_def example_chunks_def uc_def)
  note char = is_identifier_start_def is_identifier_def ctype_defs to_char_def char_of_def include_name_def EOF_def uc_def
  show "list_all chunk_ok example_chunks"
    by (simp add: example_chunks_def word_line_def plain_def blank_def char)
  show "concat (map chunk_words example_chunks) @ words [] =
      [(''ifdef'', False), (''F'', False), (''include'', False), (''p'', True), (''q'', False)]"
    by (simp add: example_chunks_def char)
qed


end
