(* ===== verification/Spec2Isabelle.thy ===== *)
theory Spec2Isabelle
  imports CfReach DictDump Safely SourceText
begin

text \<open>
  incbot reads C sources and prints the \<open>#include\<close> directives for the headers of the identifiers
  that they use. This is the root of a model of the whole program: libcf (src/libcf), libincbot
  (src/libincbot), the parts of libcscript that are in the repository (src/libcscript) and the
  command (src/cmd/incbot.c).

  \<^bold>\<open>How the parts interact.\<close> The command scans its options; \<open>--id-table\<close> reads a table of
  identifiers, one row for each with its type and its header, into two dictionaries (identifiers
  and other strings) and an array of entries. Each source goes, character by character, through
  the filter libcf, which sets code apart from comments and literals; the scanner takes the
  identifiers from the code, looks each up with the types that fit its use as a call or not, and
  records a reference. After each source the references are sorted and the directives printed.
  The dictionaries, the array and the references are the state of the library, one record
  \<open>incbot\<close>; the command's record \<open>cmd\<close> contains it.

  \<^bold>\<open>Theories.\<close> A theory named \<open>XSpec\<close> holds the specification of theory \<open>X\<close> and the proofs.

  \<^item> \<open>Base\<close>: characters as C has them (\<open>sc\<close> signed, \<open>uc\<close> unsigned), C strings, \<open>strcmp\<close>, numbers
    in print, arrays whose cells may be unwritten, and \<open>outcome\<close>: a computation gives a value or
    ends in a \<open>halt\<close>, which is an exit with a status and a text, an abort with a text, undefined
    behaviour, or a loop that never ends. The text is what the function that stops the program
    prints to say why. \<open>Interfaces\<close>: the contracts of a symbol table, of a source of
    characters and of a comparison function for \<open>qsort\<close> as locales. They are interpreted on the
    code's own definitions, in \<open>DictSpec\<close>, \<open>Reader\<close> and \<open>IncludesSpec\<close>, and what uses a component
    rests on these facts.
  \<^item> \<open>Cf\<close>, \<open>CfText\<close>, \<open>CfLex\<close>, \<open>CfReach\<close>: libcf.c, libcf-debug.c, cf.h. \<open>cf_next\<close> is the function of that
    name, with \<open>cf_switch\<close> for its switch; \<open>cf_step\<close> is the same machine as a pure function. A C
    text is specified as a list of pieces of code, comments and literals, and any combination of
    these kinds can be extracted from what is delivered for it. \<open>c_lex\<close> is a reference lexer for any text, terminated or
    not; libcf agrees with it on exactly the texts in which no literal stands directly behind a
    slash of the code, and the reader and the scanner are specified over it. \<open>cf_reach\<close> are the
    contexts that any calls can reach.
  \<^item> \<open>Dict\<close>, \<open>DictInv\<close>, \<open>DictTable\<close>, \<open>DictSpec\<close>, \<open>DictDump\<close>: dict.c and dict.h. The segmented
    vector of strings, the hash table with overflow chains, the dumps, and the rebuilding of the
    table. The abstraction of a dictionary is the list of its strings in the order of their
    numbers; \<open>dict_inv\<close> says that every number is in the bucket of its hash once, on a chain
    without cycles.
  \<^item> \<open>IdTable\<close>, \<open>IdTableSpec\<close>: the first half of libincbot/incbot.c, the tables and the reader of
    id-table files. \<open>Reader\<close>: \<open>cf_getc\<close> and \<open>cf_ungetc\<close>. \<open>Scan\<close>, \<open>ScanSpec\<close>:
    \<open>incbot_src_stream\<close> with its inner loops as functions of their own; the specification \<open>scan\<close>
    works on the list of code characters. \<open>SourceText\<close>: a grammar of C sources with directives,
    \<open>c_source\<close>, that gives every text exactly one list of words, those that are looked up, with
    all that the scanner skips; and, apart from it, what that means for a source in lines
    (\<open>chunk\<close>) and for a word at any place of any source (\<open>word_at\<close>, \<open>word_used\<close>).
    \<open>Includes\<close>, \<open>IncludesSpec\<close>: \<open>refcmp\<close> and \<open>show_includes\<close>; the specification \<open>listing\<close> is a function of a set of pairs of a header and
    an identifier. On a standard output that fails \<open>show_includes\<close> makes a list of writes, \<open>emit\<close>,
    whose texts together are the listing.
  \<^item> \<open>Cscript\<close>: libcscript: visible characters, names of error numbers, the probe of file names,
    \<open>sname\<close>, guarded allocation, the streams for messages.
  \<^item> \<open>Pipeline\<close>: tables, scanner and listing together, over the rows of the tables and the
    identifiers of the sources. \<open>Command\<close>, \<open>Options\<close>, \<open>CommandSpec\<close>: \<open>main\<close>, with \<open>getopt_long\<close>
    written out for the options of the program; the requests that a command line makes and the
    ways to spell them (\<open>command_line\<close>), of which only the requests matter; command lines with
    errors among the options (\<open>option_line\<close>); and what a run of the command does for any number of
    tables, files and identifiers to trace.
  \<^item> \<open>Safely\<close>: a logic for the claim that no function runs for ever, and its rules for every
    function of the program. This theory: the library without the command; what a run prints as
    a function of the texts of its sources; and the liveness of a run.

  \<^bold>\<open>Loops.\<close> No fuel is used. Loops over an array or a string are structural or have the rest as
  their measure; the scanner's loop has \<open>weight\<close>, the characters that its reader can still
  deliver, and the loop over the options \<open>unscanned\<close>, the characters of \<open>argv\<close> still to be read.
  Three loops can in principle go on for ever, the walks along a chain of the hash table and the
  loop of \<open>cf_getc\<close>; they are partial functions whose value \<open>None\<close> becomes \<open>Diverge\<close>. \<open>dict_inv\<close>
  rules out cyclic chains, and \<open>cf_getc\<close> is proved to return in every state of a reader that the
  program can reach; \<open>main_returns\<close>
  puts these together for the program. Bounds are those of the code: 8 fields, 1024 bytes for a
  field and for an identifier, 64 identifiers to trace, 11 errors.

  \<^bold>\<open>Integers.\<close> The hash, the sets of types and the classes of characters are words of the width of
  the code. Counts and indices of type \<open>size_t\<close> are \<open>nat\<close>: they are bounded by memory. Values that
  the code casts or compares with \<open>(size_t)(-1)\<close> are written out.

  \<^bold>\<open>Parameters.\<close> What the operating system answers is the record \<open>env\<close>: the contents of files,
  \<open>access\<close>, \<open>realpath\<close>, \<open>getenv\<close>, \<open>fstat\<close>, the standard input, and the failures of writes. \<open>qsort\<close>
  may be any sorting routine: the model's is insertion, and \<open>show_loop_any_sorted\<close> shows that the
  output does not depend on it.

  \<^bold>\<open>Not modelled.\<close> Exhausted memory, except in the guards themselves, and \<open>free\<close> with the two
  functions that only call it. Where the library exits or aborts, the text that the run had
  printed before its last words: no state is left. \<open>necho\<close>, a variable that is 0 and that nothing sets,
  with the block of \<open>cf_getc\<close> that it guards. An empty \<open>argv\<close>. Input that changes while it is read
  and errors of reading. Functions that cscript.h declares and that are not in the repository.
  The order of texts on two different streams.
\<close>

section \<open>The library by itself\<close>

text \<open>The three entry points of the library in the order in which the command calls them, for one
  source: reading an id-table of distinct identifiers, scanning the source and showing the
  includes succeeds and prints, sorted, the directives for the headers of exactly those
  identifiers of the table that occur in the code of the source with a fitting type, each with
  a comment that names the identifier.\<close>

theorem include_what_is_used:
  assumes "list_all line_ok ls" and "long_rows (rows_of ls) \<le> ERR_LIMIT" and "table_ok (rows_of ls)"
    and "\<forall>oc \<in> set (lookups f). length (oc_name oc) < IDBUF_SZ"
  shows "\<exists>rv st1 st2 st3.
    read_id_table_file False static_incbot tname (Inr (file_text ls)) = Inr (rv, st1) \<and>
    incbot_src_stream st1 f fname = Inr (0, st2) \<and> show_includes no_error st2 = Inr st3 \<and>
    stdout_text st3 = listing (row_comment (rows_of ls)) (provided (rows_of ls) (lookups f)) \<and>
    stderr_text st3 = []"
proof -
  from table_read [OF assms(1-3), of tname] obtain rv st1 where
    st1: "read_id_table_file False static_incbot tname (Inr (file_text ls)) = Inr (rv, st1)"
    "state_after (rows_of ls) {} [] [] [] (row_reports tname 0 ls) st1" by blast
  from file_step [OF assms(3) st1(2), of f fname] assms(4) obtain st2 st3 where
    "incbot_src_stream st1 f fname = Inr (0, st2)" "show_includes no_error st2 = Inr st3"
    "state_after (rows_of ls) {} (lookups f) (trace_log (rows_of ls) {} (lookups f))
      (listing (row_comment (rows_of ls)) (provided (rows_of ls) (lookups f))) (row_reports tname 0 ls) st3"
    by (auto simp: fits_def)
  with st1(1) show ?thesis by (auto simp: state_after_def scanned_def trace_log_def)
qed

theorem include_what_is_used_witness:
  "let ls = [Row [''f'', ''2'', ''open'', ''fcntl.h'']]
   in \<exists>rv st1 st2 st3.
    read_id_table_file False static_incbot ''t'' (Inr (file_text ls)) = Inr (rv, st1) \<and>
    incbot_src_stream st1 ''open(x)'' ''a.c'' = Inr (0, st2) \<and> show_includes no_error st2 = Inr st3 \<and>
    stdout_text st3 = listing (row_comment (rows_of ls)) (provided (rows_of ls) (lookups ''open(x)'')) \<and>
    stderr_text st3 = []"
  unfolding Let_def
  by (rule include_what_is_used)
    (simp_all add: uc_def field_ok_def FBUF_SZ_def fsep_def long_rows_def NFLD_def table_ok_def
      row_id_def undef_idnr_def header_list_ok_def lookups_open IDBUF_SZ_def)

section \<open>Every source is served\<close>

text \<open>A pair in a set is printed by its listing: the header before the identifier.\<close>

lemma listing_shows:
  assumes "finite K" and "(i, s) \<in> K"
  shows "\<exists>a b c. listing imp K = a @ header_text i @ b @ imp s @ c"
proof -
  let ?R = "\<lambda>i. sorted_list_of_set {r. (i, r) \<in> K}"
  have "finite {r. (i, r) \<in> K}"
    using finite_imageI [OF assms(1), of snd] by (rule rev_finite_subset) force
  then have "s \<in> set (?R i)" using assms(2) by simp
  then obtain xs ys where r: "?R i = xs @ s # ys" by (meson split_list)
  have "i \<in> set (sorted_list_of_set (fst ` K))" using assms by force
  then obtain us vs where h: "sorted_list_of_set (fst ` K) = us @ i # vs" by (meson split_list)
  let ?block = "\<lambda>i. header_text i @ concat (map imp (?R i))"
  have "listing imp K = concat (map ?block us) @ header_text i @ concat (map imp xs) @ imp s @
      (concat (map imp ys) @ concat (map ?block vs))"
    by (simp add: listing_def listing_of_def h r)
  then show ?thesis by blast
qed

lemma provided_mono: "set ocs \<subseteq> set ocs' \<Longrightarrow> provided rows ocs \<subseteq> provided rows ocs'"
  by (auto simp: provided_def)

lemma outputs_show:
  assumes "x \<in> set xs" and "(i, s) \<in> provided rows (lookups x)"
  shows "\<exists>a b c. outputs rows ocs xs = a @ header_text i @ b @ row_comment rows s @ c"
  using assms(1)
proof (induction xs arbitrary: ocs)
  case Nil
  then show ?case by simp
next
  case (Cons y ys)
  show ?case
  proof (cases "x = y")
    case True
    with assms(2) have "(i, s) \<in> provided rows (ocs @ lookups y)"
      using provided_mono [of "lookups y" "ocs @ lookups y" rows] by auto
    from listing_shows [OF finite_provided this, of "row_comment rows"] obtain a b c where
      "listing (row_comment rows) (provided rows (ocs @ lookups y)) = a @ header_text i @ b @ row_comment rows s @ c"
      by blast
    then have "outputs rows ocs (y # ys) =
        a @ header_text i @ b @ row_comment rows s @ (c @ outputs rows (ocs @ lookups y) ys)"
      by simp
    then show ?thesis by blast
  next
    case False
    with Cons obtain a b c where
      "outputs rows (ocs @ lookups y) ys = a @ header_text i @ b @ row_comment rows s @ c"
      by (metis set_ConsD)
    then have "outputs rows ocs (y # ys) =
        (listing (row_comment rows) (provided rows (ocs @ lookups y)) @ a) @ header_text i @ b @
        row_comment rows s @ c"
      by simp
    then show ?thesis by blast
  qed
qed

text \<open>What is printed for the files of a run, from their words: the headers that the rows provide for
  the words of the files so far.\<close>

definition needed :: "string list list \<Rightarrow> (string \<times> bool) list \<Rightarrow> (string \<times> string) set" where
  "needed rows ws =
     {(row ! 3, row ! 2) | row call. row \<in> set rows \<and> (row ! 2, call) \<in> set ws \<and>
        encode_id_type (row ! 0) AND find_mask call \<noteq> 0 \<and> encode_id_type (row ! 0) \<noteq> TYPE_KEYWORD \<and>
        3 < length row \<and> row ! 3 \<noteq> []}"

fun listings :: "string list list \<Rightarrow> (string \<times> bool) list \<Rightarrow> (string \<times> bool) list list \<Rightarrow> string" where
  "listings rows ws [] = []"
| "listings rows ws (v # vs) =
     listing (row_comment rows) (needed rows (ws @ v)) @ listings rows (ws @ v) vs"

lemma provided_needed: "provided rows ocs = needed rows (map (\<lambda>oc. (oc_name oc, oc_call oc)) ocs)"
  by (force simp: provided_def needed_def)

lemma outputs_listings:
  "list_all2 c_file xs vs \<Longrightarrow>
   outputs rows ocs xs = listings rows (map (\<lambda>oc. (oc_name oc, oc_call oc)) ocs) vs"
  by (induction xs vs arbitrary: ocs rule: list_all2_induct)
    (simp_all add: provided_needed c_file_lookups)

text \<open>A file of the run that the reference lexer and the grammar of sources read as \<open>ws\<close>.\<close>

definition source_file :: "env \<Rightarrow> string \<Rightarrow> (string \<times> bool) list \<Rightarrow> bool" where
  "source_file env f ws \<longleftrightarrow>
     seven_bit f \<and> found (access_F env) f \<and> readable env f \<and> c_file (source_text env f) ws \<and>
     (\<forall>w \<in> set ws. length (fst w) < IDBUF_SZ)"

lemma source_files:
  assumes "list_all2 (source_file env) fs wss"
  shows "\<forall>f \<in> set fs. seven_bit f \<and> found (access_F env) f \<and> readable env f \<and> fits (source_text env f)"
    and "list_all2 c_file (map (source_text env) fs) wss"
proof -
  have "seven_bit f \<and> found (access_F env) f \<and> readable env f \<and> fits (source_text env f)"
    if "source_file env f ws" for f ws
    using that c_file_short [of "source_text env f" ws] by (simp add: source_file_def fits_def)
  moreover have "\<forall>f \<in> set fs. \<exists>ws. source_file env f ws"
    using assms by (induction fs wss rule: list_all2_induct) auto
  ultimately show "\<forall>f \<in> set fs. seven_bit f \<and> found (access_F env) f \<and> readable env f \<and> fits (source_text env f)"
    by blast
  show "list_all2 c_file (map (source_text env) fs) wss"
    using assms by (auto simp: list_all2_conv_all_nth source_file_def)
qed

text \<open>C2: from the text of the sources to the text that is printed: after each file the include
  directives for exactly the headers that the rows of the id-tables give for the words of the files
  so far, each with the comments that name those words, in the order of \<open>strcmp\<close>. The words are
  those of the reference lexer and the grammar of sources.\<close>

theorem incbot_lists_used:
  assumes "command_line reqs fs args" and "scan_requests env ls reqs" and "write_error env = no_error"
    and "list_all cstring (traced reqs)" and "distinct (traced reqs)" and "count_list fs ''-'' \<le> 1"
    and "list_all2 (source_file env) (sources fs) wss"
  shows "\<exists>st. main_prog env path args = Inr (0, st) \<and>
    stdout_text (lib st) = listings (given_rows ls reqs) [] wss"
  using run_prints [OF assms(1-6) source_files(1) [OF assms(7)], of path]
    outputs_listings [OF source_files(2) [OF assms(7)], of "given_rows ls reqs" "[]"]
  by auto


text \<open>The source of the example of a run, \<open>open(x)\<close>.\<close>

lemma ex_words: "c_file ''open(x)'' [(''open'', True), (''x'', False)]"
proof -
  have "c_lex (map uc ''open(x)'') = map (sup CC_CODE) (map uc ''open(x)'')"
    by (simp add: uc_def c_lex.simps(2))
  then have "libcf_exact (map uc ''open(x)'')" "c_code (map uc ''open(x)'') = map uc ''open(x)''"
    by (simp_all add: libcf_exact_def c_code_def cc_defs uc_def)
  then show ?thesis
    using arg_cong [OF lookups_open, of "map (\<lambda>oc. (oc_name oc, oc_call oc))"]
    by (simp add: c_file_iff used_def lookups_def code_chars_exact)
qed

lemma ex_open: "[''f'', ''2'', ''open'', ''fcntl.h''] \<in> set (given_rows ex_lines ex_requests)"
  by (simp add: ex_rows)

theorem incbot_lists_used_witness:
  "\<exists>st. main_prog ex_env ''/bin/incbot'' (ex_args @ [''a.c'']) = Inr (0, st) \<and>
    stdout_text (lib st) = listing (row_comment (given_rows ex_lines ex_requests)) {(''fcntl.h'', ''open'')}"
proof -
  have "command_line ex_requests [''a.c''] (ex_args @ [''a.c''])" by (rule ex_line) (simp add: operand_def)
  moreover have "list_all2 (source_file ex_env) (sources [''a.c'']) [[(''open'', True), (''x'', False)]]"
    by (simp add: sources_def source_file_def ex_source ex_words IDBUF_SZ_def)
      (simp add: ex_env_def uc_def found_def readable_def)
  moreover have "needed (given_rows ex_lines ex_requests) [(''open'', True), (''x'', False)] = {(''fcntl.h'', ''open'')}"
    using ex_provided by (simp add: provided_needed lookups_open)
  ultimately show ?thesis
    using incbot_lists_used [OF _ ex_scan, of "[''a.c'']" _ "[[(''open'', True), (''x'', False)]]" "''/bin/incbot''"]
    by (simp add: ex_traced) (simp add: ex_env_def uc_def)
qed

text \<open>A source on the standard input whose first line is an include line.\<close>

definition ex_input :: string where
  "ex_input = ''#include <a.h>'' @ [CHR 0x0A] @ ''open(x)''"

lemma ex_input:
  "libcf_exact (map uc ex_input)" "c_code (map uc ex_input) = map uc ex_input" "fits ex_input"
  "word_at (map uc ex_input) 15 (''open'', True)" "past_includes False (take 15 (map uc ex_input))"
proof -
  have "c_lex (map uc ex_input) = map (sup CC_CODE) (map uc ex_input)"
    by (simp add: ex_input_def uc_def c_lex.simps(2))
  then show f: "libcf_exact (map uc ex_input)" "c_code (map uc ex_input) = map uc ex_input"
    by (simp_all add: libcf_exact_def c_code_def cc_defs uc_def ex_input_def)
  note char = is_identifier_start_def is_identifier_def ctype_defs to_char_def char_of_def include_name_def EOF_def uc_def
  show "fits ex_input"
    by (simp add: fits_def lookups_def code_chars_exact [OF f(1)] f(2) IDBUF_SZ_def)
      (simp add: ex_input_def src_start_def scan.simps(2) scan_ident_def track_def char)
  show "word_at (map uc ex_input) 15 (''open'', True)" by (simp add: word_at_def ex_input_def char)
  show "past_includes False (take 15 (map uc ex_input))" by (simp add: ex_input_def char)
qed

lemma scan_requests_stdin:
  "scan_requests (env\<lparr>stdin_contents := s\<rparr>) ls reqs = scan_requests env ls reqs"
proof -
  have "readable_table (env\<lparr>stdin_contents := s\<rparr>) ls = readable_table env ls"
    by (rule ext) (simp add: readable_table_def)
  then show ?thesis by (simp add: scan_requests_def)
qed


end
